(* ===== verification/Prelude.thy ===== *)
theory Prelude
  imports Main "HOL-Library.Multiset"
begin

text \<open>
  Shared vocabulary of the development.

  \<^item> \<open>wrap32\<close>: the two's complement wrap-around of \<open>std::atomic<int>\<close>.
  \<^item> \<open>tsum\<close>: sums of a per-thread weight over a list of thread states, with the
    lemma for the update of one thread.
  \<^item> \<open>run\<close>, \<open>reach\<close>: executions of a partial step function, as a list of events
    and as a reachability predicate.
  \<^item> \<open>sys_step\<close>: the interleaving of threads. A component gives the step of one
    thread (\<open>local t e sh pc\<close>: thread \<open>t\<close> in control state \<open>pc\<close> reacts to event
    \<open>e\<close> on the shared state \<open>sh\<close>); \<open>sys_step\<close> runs it inside a list of threads.
    Every shared access of the code is one step, so all interleavings that a
    sequentially consistent machine has are executions of the model.
  \<^item> locales for the arguments that recur: \<open>step_invariant\<close> (an invariant kept by
    every step), \<open>mutex_client\<close> (a mutex with an owner) and \<open>wrapped_counter\<close>
    (an atomic counter that counts the threads in a region).
\<close>

named_theorems step_defs \<open>definitions unfolded to take one step of a thread\<close>
named_theorems inv_defs \<open>definitions of invariants\<close>

section \<open>Machine integers\<close>

abbreviation INT_MAX :: int where "INT_MAX \<equiv> 2147483647"

definition wrap32 :: "int \<Rightarrow> int" where
  "wrap32 x = (x + 2147483648) mod 4294967296 - 2147483648"

lemma wrap32_id [simp]: "- 2147483648 \<le> x \<Longrightarrow> x \<le> INT_MAX \<Longrightarrow> wrap32 x = x"
  by (simp add: wrap32_def)

lemma wrap32_range: "- 2147483648 \<le> wrap32 x \<and> wrap32 x \<le> INT_MAX"
proof -
  have "0 \<le> (x + 2147483648) mod 4294967296" "(x + 2147483648) mod 4294967296 < 4294967296"
    by simp_all
  then show ?thesis unfolding wrap32_def by linarith
qed

section \<open>Sums over threads\<close>

definition tsum :: "('a \<Rightarrow> int) \<Rightarrow> 'a list \<Rightarrow> int" where
  "tsum w ts = sum_list (map w ts)"

lemma tsum_Nil [simp]: "tsum w [] = 0"
  by (simp add: tsum_def)

lemma tsum_Cons [simp]: "tsum w (x # xs) = w x + tsum w xs"
  by (simp add: tsum_def)

lemma tsum_update [simp]:
  "t < length ts \<Longrightarrow> tsum w (ts[t := x]) = tsum w ts - w (ts ! t) + w x"
proof (induction ts arbitrary: t)
  case Nil
  then show ?case by simp
next
  case (Cons a ts)
  then show ?case by (cases t) auto
qed

lemma tsum_nonneg: "(\<And>x. x \<in> set ts \<Longrightarrow> 0 \<le> w x) \<Longrightarrow> 0 \<le> tsum w ts"
  by (induction ts) (auto simp: add_nonneg_nonneg)

lemma tsum_le_length: "(\<And>x. w x \<le> 1) \<Longrightarrow> tsum w ts \<le> int (length ts)"
proof (induction ts)
  case Nil
  then show ?case by simp
next
  case (Cons a ts)
  from Cons.prems[of a] Cons.IH[OF Cons.prems] show ?case by simp
qed

lemma tsum_ge_member:
  assumes "t < length ts" and "\<And>x. x \<in> set ts \<Longrightarrow> 0 \<le> w x"
  shows "w (ts ! t) \<le> tsum w ts"
proof -
  have "tsum w ts = w (ts ! t) + tsum w (ts[t := ts ! t]) - w (ts ! t)"
    using assms(1) by simp
  moreover have "0 \<le> tsum w (take t ts @ drop (Suc t) ts)"
    using assms(2) by (intro tsum_nonneg) (auto dest: in_set_takeD in_set_dropD)
  moreover have "tsum w ts = tsum w (take t ts) + w (ts ! t) + tsum w (drop (Suc t) ts)"
    using assms(1) by (subst id_take_nth_drop[OF assms(1)]) (simp add: tsum_def)
  ultimately show ?thesis by (simp add: tsum_def)
qed

lemma tsum_two:
  "t < length ts \<Longrightarrow> u < length ts \<Longrightarrow> t \<noteq> u \<Longrightarrow> (\<And>x. x \<in> set ts \<Longrightarrow> 0 \<le> w x) \<Longrightarrow>
     w (ts ! t) + w (ts ! u) \<le> tsum w ts"
proof (induction ts arbitrary: t u)
  case (Cons a ts)
  have a: "0 \<le> w a" and nn: "\<And>x. x \<in> set ts \<Longrightarrow> 0 \<le> w x" using Cons.prems(4) by simp_all
  show ?case
  proof (cases "t = 0 \<or> u = 0")
    case True
    then show ?thesis
      using tsum_ge_member[OF _ nn, of "t - 1"] tsum_ge_member[OF _ nn, of "u - 1"] Cons.prems(1-3)
      by (cases t; cases u) auto
  next
    case False
    then have "w (ts ! (t - 1)) + w (ts ! (u - 1)) \<le> tsum w ts"
      using Cons.prems(1-3) by (intro Cons.IH nn) auto
    then show ?thesis using False a by (simp add: nth_Cons')
  qed
qed simp

lemma tsum_pos_member:
  assumes "0 < tsum w ts"
  shows "\<exists>t < length ts. 0 < w (ts ! t)"
proof (rule ccontr)
  assume "\<not> ?thesis"
  then have "\<forall>x \<in> set ts. w x \<le> 0"
    by (force simp: in_set_conv_nth)
  then have "tsum w ts \<le> 0"
    by (induction ts) auto
  with assms show False by simp
qed

lemma tsum_replicate [simp]: "tsum w (replicate n x) = int n * w x"
  by (induction n) (auto simp: algebra_simps)

lemma tsum_zero: "(\<And>x. x \<in> set ts \<Longrightarrow> w x = 0) \<Longrightarrow> tsum w ts = 0"
  by (induction ts) auto

lemma tsum_indicator:
  "tsum (\<lambda>x. if P x then 1 else 0) ts = int (card {t. t < length ts \<and> P (ts ! t)})"
proof -
  have "tsum (\<lambda>x. if P x then 1 else 0) ts = int (length (filter P ts))"
    by (induction ts) auto
  then show ?thesis by (simp add: length_filter_conv_card)
qed

lemma tsum_none:
  assumes "tsum (\<lambda>x. if P x then 1 else 0) ts = 0" and "x \<in> set ts"
  shows "\<not> P x"
  using assms by (auto simp: tsum_indicator in_set_conv_nth)

lemma tsum_mono: "(\<And>x. x \<in> set ts \<Longrightarrow> v x \<le> w x) \<Longrightarrow> tsum v ts \<le> tsum w ts"
  by (induction ts) (auto intro: add_mono)

text \<open>A list of distinct threads that all satisfy \<open>P\<close> is no longer than the number of them.\<close>

lemma distinct_le_tsum:
  assumes "distinct xs" and "\<And>t. t \<in> set xs \<Longrightarrow> t < length ts \<and> P (ts ! t)"
  shows "int (length xs) \<le> tsum (\<lambda>x. if P x then 1 else 0) ts"
proof -
  have "card (set xs) \<le> card {t. t < length ts \<and> P (ts ! t)}"
    using assms(2) by (intro card_mono) auto
  then show ?thesis using assms(1) by (simp add: tsum_indicator distinct_card)
qed

lemma tsum_eq_distinct:
  assumes "distinct xs" and "set xs = {t. t < length ts \<and> P (ts ! t)}"
  shows "tsum (\<lambda>x. if P x then 1 else 0) ts = int (length xs)"
  using assms by (simp add: tsum_indicator distinct_card flip: assms(2))

lemma tsum_add: "tsum (\<lambda>x. v x + w x) ts = tsum v ts + tsum w ts"
  by (induction ts) auto

lemma tsum_neg: "tsum (\<lambda>x. - w x) ts = - tsum w ts"
  by (induction ts) auto

lemma set_update_cases:
  "x \<in> set (ts[t := y]) \<Longrightarrow> x = y \<or> x \<in> set ts \<and> (\<exists>u < length ts. u \<noteq> t \<and> ts ! u = x)"
  by (metis in_set_conv_nth length_list_update nth_list_update_eq nth_list_update_neq)

section \<open>Executions\<close>

fun run :: "('s \<Rightarrow> 'e \<Rightarrow> 's option) \<Rightarrow> 's \<Rightarrow> 'e list \<Rightarrow> 's option" where
  "run f s [] = Some s"
| "run f s (e # es) = (case f s e of None \<Rightarrow> None | Some t \<Rightarrow> run f t es)"

inductive reach :: "('s \<Rightarrow> 'e \<Rightarrow> 's option) \<Rightarrow> ('e \<Rightarrow> bool) \<Rightarrow> 's \<Rightarrow> 's \<Rightarrow> bool"
  for f ok s0 where
  reach_refl: "reach f ok s0 s0"
| reach_step: "reach f ok s0 s \<Longrightarrow> ok e \<Longrightarrow> f s e = Some t \<Longrightarrow> reach f ok s0 t"

declare reach_refl [simp, intro]

lemma reach_trans: "reach f ok s1 s2 \<Longrightarrow> reach f ok s0 s1 \<Longrightarrow> reach f ok s0 s2"
  by (induction rule: reach.induct) (auto intro: reach_step)

lemma reach_run:
  "run f s es = Some t \<Longrightarrow> list_all ok es \<Longrightarrow> reach f ok s t"
proof (induction es arbitrary: s)
  case Nil
  then show ?case by simp
next
  case (Cons e es)
  then obtain u where u: "f s e = Some u" "run f u es = Some t"
    by (auto split: option.splits)
  then have "reach f ok u t" using Cons by simp
  moreover have "reach f ok s u"
    using u Cons.prems by (auto intro: reach_step[OF reach_refl])
  ultimately show ?case by (rule reach_trans)
qed

lemma reach_mono: "reach f ok s t \<Longrightarrow> (\<And>e. ok e \<Longrightarrow> ok' e) \<Longrightarrow> reach f ok' s t"
  by (induction rule: reach.induct) (auto intro: reach_step)

locale step_invariant =
  fixes f :: "'s \<Rightarrow> 'e \<Rightarrow> 's option"
    and ok :: "'e \<Rightarrow> bool"
    and inv :: "'s \<Rightarrow> bool"
  assumes inv_step: "inv s \<Longrightarrow> ok e \<Longrightarrow> f s e = Some t \<Longrightarrow> inv t"
begin

lemma reach_inv: "reach f ok s0 s \<Longrightarrow> inv s0 \<Longrightarrow> inv s"
  by (induction rule: reach.induct) (auto intro: inv_step)

end

section \<open>Interleaving of threads\<close>

type_synonym tid = nat

type_synonym ('sh, 'pc) sys = "'sh \<times> 'pc list"

fun sys_step ::
  "(tid \<Rightarrow> 'e \<Rightarrow> 'sh \<Rightarrow> 'pc \<Rightarrow> ('sh \<times> 'pc) option) \<Rightarrow> ('sh, 'pc) sys \<Rightarrow> tid \<times> 'e \<Rightarrow> ('sh, 'pc) sys option"
where
  "sys_step local (sh, ts) (t, e) =
     (if t < length ts
      then case local t e sh (ts ! t) of
             None \<Rightarrow> None
           | Some (sh', pc') \<Rightarrow> Some (sh', ts[t := pc'])
      else None)"

lemma sys_step_Some:
  assumes "sys_step local s ev = Some s'"
  obtains sh ts t e sh' pc' where "s = (sh, ts)" "ev = (t, e)" "t < length ts"
    "local t e sh (ts ! t) = Some (sh', pc')" "s' = (sh', ts[t := pc'])"
  using assms by (cases s; cases ev) (auto split: if_splits option.splits)

lemma sys_step_enabled:
  "sys_step local (sh, ts) (t, e) \<noteq> None \<longleftrightarrow> t < length ts \<and> local t e sh (ts ! t) \<noteq> None"
  by (auto split: option.splits)

lemma sys_step_iff:
  "sys_step local (sh, ts) (t, e) = Some (sh', ts') \<longleftrightarrow>
     t < length ts \<and> (\<exists>pc'. local t e sh (ts ! t) = Some (sh', pc') \<and> ts' = ts[t := pc'])"
  by (auto split: option.splits)

text \<open>\<open>solo exec k\<close>: a thread takes \<open>k\<close> steps while all others rest.\<close>

fun solo :: "('sh \<Rightarrow> 'pc \<Rightarrow> ('sh \<times> 'pc) option) \<Rightarrow> nat \<Rightarrow> 'sh \<times> 'pc \<Rightarrow> ('sh \<times> 'pc) option" where
  "solo exec 0 c = Some c"
| "solo exec (Suc k) c = (case exec (fst c) (snd c) of None \<Rightarrow> None | Some c' \<Rightarrow> solo exec k c')"

lemma solo_add: "solo exec (m + k) c = (case solo exec m c of None \<Rightarrow> None | Some c' \<Rightarrow> solo exec k c')"
  by (induction m arbitrary: c) (auto split: option.splits)

text \<open>
  A mutex and the control states in which a thread owns it. The provider promises that
  a thread's own steps keep the two in agreement and only move the ownership between
  \<open>None\<close> and the thread itself.
\<close>

locale mutex_client =
  fixes local :: "tid \<Rightarrow> 'e \<Rightarrow> 'sh \<Rightarrow> 'pc \<Rightarrow> ('sh \<times> 'pc) option"
    and owner :: "'sh \<Rightarrow> tid option"
    and holds :: "'pc \<Rightarrow> bool"
  assumes owner_step:
    "local t e sh pc = Some (sh', pc') \<Longrightarrow> (holds pc \<longleftrightarrow> owner sh = Some t) \<Longrightarrow>
       (holds pc' \<longleftrightarrow> owner sh' = Some t) \<and>
       (owner sh' = owner sh \<or> owner sh = None \<and> owner sh' = Some t \<or>
        owner sh = Some t \<and> owner sh' = None)"
begin

definition owner_inv :: "('sh, 'pc) sys \<Rightarrow> bool" where
  "owner_inv s \<longleftrightarrow>
     (\<forall>t < length (snd s). holds (snd s ! t) \<longleftrightarrow> owner (fst s) = Some t) \<and>
     (\<forall>t. owner (fst s) = Some t \<longrightarrow> t < length (snd s))"

lemma owner_inv_step:
  assumes "owner_inv s" and "sys_step local s ev = Some s'"
  shows "owner_inv s'"
  using assms(2)
proof (rule sys_step_Some)
  fix sh ts t e sh' pc'
  assume *: "s = (sh, ts)" "ev = (t, e)" "t < length ts"
    "local t e sh (ts ! t) = Some (sh', pc')" "s' = (sh', ts[t := pc'])"
  from * assms(1) have h: "holds (ts ! t) \<longleftrightarrow> owner sh = Some t"
    by (simp add: owner_inv_def)
  note o = owner_step[OF *(4) h]
  have "holds (snd s' ! u) \<longleftrightarrow> owner (fst s') = Some u" if "u < length (snd s')" for u
    using that * o assms(1) by (cases "u = t") (auto simp: owner_inv_def)
  moreover have "u < length (snd s')" if "owner (fst s') = Some u" for u
    using that * o assms(1) by (auto simp: owner_inv_def)
  ultimately show ?thesis by (simp add: owner_inv_def)
qed

lemma owner_inv_reach: "reach (sys_step local) ok s0 s \<Longrightarrow> owner_inv s0 \<Longrightarrow> owner_inv s"
  by (induction rule: reach.induct) (auto intro: owner_inv_step)

lemma owner_unique:
  "owner_inv s \<Longrightarrow> t < length (snd s) \<Longrightarrow> u < length (snd s) \<Longrightarrow>
     holds (snd s ! t) \<Longrightarrow> holds (snd s ! u) \<Longrightarrow> t = u"
  by (auto simp: owner_inv_def)

end

text \<open>
  An atomic 32-bit counter that a thread increments when it enters a region of control
  states and decrements when it leaves it: it counts the threads in the region, as long
  as there are at most \<open>INT_MAX\<close> threads.
\<close>

locale wrapped_counter =
  fixes local :: "tid \<Rightarrow> 'e \<Rightarrow> 'sh \<Rightarrow> 'pc \<Rightarrow> ('sh \<times> 'pc) option"
    and counter :: "'sh \<Rightarrow> int"
    and weight :: "'pc \<Rightarrow> int"
  assumes weight_range: "0 \<le> weight pc \<and> weight pc \<le> 1"
    and counter_step:
    "local t e sh pc = Some (sh', pc') \<Longrightarrow>
       counter sh' = counter sh \<and> weight pc' = weight pc \<or>
       counter sh' = wrap32 (counter sh + (weight pc' - weight pc))"
begin

definition counter_inv :: "('sh, 'pc) sys \<Rightarrow> bool" where
  "counter_inv s \<longleftrightarrow> int (length (snd s)) \<le> INT_MAX \<and> counter (fst s) = tsum weight (snd s)"

lemma counter_inv_step:
  assumes "counter_inv s" and "sys_step local s ev = Some s'"
  shows "counter_inv s'"
  using assms(2)
proof (rule sys_step_Some)
  fix sh ts t e sh' pc'
  assume *: "s = (sh, ts)" "ev = (t, e)" "t < length ts"
    "local t e sh (ts ! t) = Some (sh', pc')" "s' = (sh', ts[t := pc'])"
  let ?n = "tsum weight (ts[t := pc'])"
  have len: "int (length ts) \<le> INT_MAX" and c: "counter sh = tsum weight ts"
    using assms(1) * by (auto simp: counter_inv_def)
  have n: "?n = tsum weight ts + (weight pc' - weight (ts ! t))"
    using *(3) by simp
  have "0 \<le> ?n" using weight_range by (intro tsum_nonneg) auto
  moreover have "?n \<le> int (length (ts[t := pc']))"
    using weight_range by (intro tsum_le_length) auto
  ultimately have "wrap32 ?n = ?n" using len by simp
  then have "counter sh' = ?n"
    using counter_step[OF *(4)] c n by auto
  then show ?thesis using * len by (simp add: counter_inv_def)
qed

lemma counter_inv_reach:
  "reach (sys_step local) ok s0 s \<Longrightarrow> counter_inv s0 \<Longrightarrow> counter_inv s"
  by (induction rule: reach.induct) (auto intro: counter_inv_step)

end

text \<open>
  Invariants that mention how many threads are in which region. \<open>weight k\<close> counts region \<open>k\<close>;
  the shared state satisfies \<open>sh_ok\<close> for the counts and every thread satisfies \<open>pc_ok\<close>. The
  provider shows for one thread, with the counts \<open>n\<close> of all others, that a step
  keeps both, for itself and for every other thread \<open>p\<close> (which is part of \<open>n\<close>).
\<close>

locale counting_system =
  fixes local :: "tid \<Rightarrow> 'e \<Rightarrow> 'sh \<Rightarrow> 'pc \<Rightarrow> ('sh \<times> 'pc) option"
    and ok :: "tid \<times> 'e \<Rightarrow> bool"
    and weight :: "'k \<Rightarrow> 'pc \<Rightarrow> int"
    and sh_ok :: "'sh \<Rightarrow> ('k \<Rightarrow> int) \<Rightarrow> bool"
    and pc_ok :: "'sh \<Rightarrow> ('k \<Rightarrow> int) \<Rightarrow> 'pc \<Rightarrow> bool"
  assumes weight_nonneg: "0 \<le> weight k pc"
    and local_ok:
    "local t e sh pc = Some (sh', pc') \<Longrightarrow> ok (t, e) \<Longrightarrow> (\<And>k. 0 \<le> n k) \<Longrightarrow>
       sh_ok sh (\<lambda>k. n k + weight k pc) \<Longrightarrow> pc_ok sh (\<lambda>k. n k + weight k pc) pc \<Longrightarrow>
       sh_ok sh' (\<lambda>k. n k + weight k pc') \<and> pc_ok sh' (\<lambda>k. n k + weight k pc') pc' \<and>
       (\<forall>p. (\<forall>k. weight k p \<le> n k) \<longrightarrow> pc_ok sh (\<lambda>k. n k + weight k pc) p \<longrightarrow>
            pc_ok sh' (\<lambda>k. n k + weight k pc') p)"
begin

definition count_inv :: "('sh, 'pc) sys \<Rightarrow> bool" where
  "count_inv s \<longleftrightarrow>
     sh_ok (fst s) (\<lambda>k. tsum (weight k) (snd s)) \<and>
     (\<forall>pc \<in> set (snd s). pc_ok (fst s) (\<lambda>k. tsum (weight k) (snd s)) pc)"

lemma count_inv_step:
  assumes "count_inv s" and "ok ev" and "sys_step local s ev = Some s'"
  shows "count_inv s'"
  using assms(3)
proof (rule sys_step_Some)
  fix sh ts t e sh' pc'
  assume *: "s = (sh, ts)" "ev = (t, e)" "t < length ts"
    "local t e sh (ts ! t) = Some (sh', pc')" "s' = (sh', ts[t := pc'])"
  define n where "n = (\<lambda>k. tsum (weight k) ts - weight k (ts ! t))"
  have sums: "(\<lambda>k. tsum (weight k) ts) = (\<lambda>k. n k + weight k (ts ! t))"
    "(\<lambda>k. tsum (weight k) (ts[t := pc'])) = (\<lambda>k. n k + weight k pc')"
    using *(3) by (auto simp: n_def)
  have others: "weight k (ts ! u) \<le> n k" if "u < length ts" "u \<noteq> t" for k u
    using tsum_two[OF *(3) that(1), of "weight k"] that(2) weight_nonneg by (simp add: n_def)
  have "0 \<le> n k" for k
    unfolding n_def using tsum_ge_member[OF *(3), of "weight k"] weight_nonneg by simp
  then have l: "sh_ok sh' (\<lambda>k. n k + weight k pc')" "pc_ok sh' (\<lambda>k. n k + weight k pc') pc'"
    "\<And>p. (\<And>k. weight k p \<le> n k) \<Longrightarrow> pc_ok sh (\<lambda>k. n k + weight k (ts ! t)) p \<Longrightarrow>
       pc_ok sh' (\<lambda>k. n k + weight k pc') p"
    using local_ok[OF *(4), of n] assms(1,2) * by (auto simp: count_inv_def sums)
  have "pc_ok sh' (\<lambda>k. n k + weight k pc') p" if "p \<in> set (ts[t := pc'])" for p
    using set_update_cases[OF that] l(2) l(3)[of p] others assms(1) *(1)
    by (auto simp: count_inv_def sums)
  then show ?thesis using l(1) *(5) by (simp add: count_inv_def sums)
qed

end

sublocale counting_system \<subseteq> step_invariant "sys_step local" ok count_inv
  by unfold_locales (rule count_inv_step)

end
