(* ===== verification/Types.thy ===== *)
theory Types
  imports Prelude
begin

text \<open>
  The enumerations, labels and constants of the public interface
  (\<open>include/xdispatch/dispatch_decl.h\<close>, \<open>timer.h\<close>, \<open>socket_notifier.h\<close>, \<open>signals.h\<close>,
  \<open>impl/ibackend.h\<close>, \<open>src/xdispatch_internal.h\<close>), shared by all components. Durations
  are integers: milliseconds where the code has \<open>std::chrono::milliseconds\<close>.
\<close>

datatype queue_priority =
  PRIO_DEFAULT
| USER_INTERACTIVE
| USER_INITIATED
| UTILITY
| BACKGROUND

datatype backend_type = Backend_naive | Backend_qt5 | Backend_libdispatch

datatype timer_precision = COARSE | PRECISION_DEFAULT | PRECISE

datatype notifier_type = READ | WRITE

datatype notification_mode = batch_updates | single_updates | synchronous_update

type_synonym milliseconds = int
type_synonym socket_t = int

text \<open>\<open>nsec_per_sec\<close>, \<open>nsec_per_msec\<close>, \<open>nsec_per_usec\<close>, \<open>usec_per_sec\<close>.\<close>

definition nsec_per_sec :: int where "nsec_per_sec = 1000000000"
definition nsec_per_msec :: int where "nsec_per_msec = 1000000"
definition nsec_per_usec :: int where "nsec_per_usec = 1000"
definition usec_per_sec :: int where "usec_per_sec = 1000000"

definition k_label_main :: string where
  "k_label_main = ''de.emzeat.xdispatch2.main''"
definition k_label_global_INTERACTIVE :: string where
  "k_label_global_INTERACTIVE = ''de.emzeat.xdispatch2.interactive''"
definition k_label_global_INITIATED :: string where
  "k_label_global_INITIATED = ''de.emzeat.xdispatch2.initiated''"
definition k_label_global_UTILITY :: string where
  "k_label_global_UTILITY = ''de.emzeat.xdispatch2.utility''"
definition k_label_global_BACKGROUND :: string where
  "k_label_global_BACKGROUND = ''de.emzeat.xdispatch2.background''"

end
