(* ===== verification/Semaphore.thy ===== *)
theory Semaphore
  imports Types
begin

text \<open>
  The counting semaphore of the naive backend (\<open>src/naive/naive_semaphore.h\<close>,
  \<open>src/naive/naive_semaphore.cpp\<close>).

  The shared state is the object's fields; the condition variable is the list of the
  threads blocked in it. \<open>g_released\<close> and \<open>g_acquired\<close> are history variables: the sum
  of all increments and the number of successful decrements. The control state of a
  thread (\<open>sem_pc\<close>) is a position between two accesses to shared state in
  \<open>try_acquire\<close>, \<open>spin_acquire\<close>, \<open>wait_acquire\<close> or \<open>release\<close>; \<open>ta_ctx\<close> is the place a
  call of \<open>try_acquire\<close> returns to. \<open>S_assert\<close> and \<open>S_assert_release\<close> are failed
  assertions, from which \<open>std::terminate\<close> does not return. The duration of a timeout is not modelled: a blocked
  thread may time out at any moment, and \<open>compare_exchange_weak\<close> and the condition
  variable may fail or wake spuriously at any moment.
\<close>

section \<open>The model\<close>

record semaphore =
  m_count :: int
  m_waiters :: int
  sem_CS :: "tid option"
  sem_cond :: "tid list"
  g_released :: int
  g_acquired :: int

definition semaphore_new :: "int \<Rightarrow> semaphore" where
  "semaphore_new amount =
     \<lparr>m_count = amount, m_waiters = 0, sem_CS = None, sem_cond = [],
      g_released = 0, g_acquired = 0\<rparr>"

datatype ta_ctx =
  K_try
| K_spin int int
| K_wait1
| K_wait2
| K_pred
| K_final

datatype sem_pc =
  S_idle
| S_load ta_ctx
| S_cas ta_ctx int
| S_spin_read int int
| S_lock
| S_inc
| S_block
| S_blocked
| S_relock bool
| S_dec bool
| S_unlock bool
| S_ret bool
| S_add int
| S_rload int
| S_rlock int
| S_notify int
| S_runlock
| S_rret
| S_assert ta_ctx
| S_assert_release

datatype sem_call = C_try_acquire | C_spin_acquire int | C_wait_acquire | C_release int

datatype sem_event =
  E_call sem_call
| E_step
| E_notify tid
| E_spurious
| E_timeout

text \<open>
  \<open>ta_return k b\<close>: \<open>try_acquire\<close> returns \<open>b\<close> to its caller \<open>k\<close>. In \<open>wait_acquire\<close> the
  calls are the test before the lock, the test with the lock held, the predicate of
  \<open>wait_for\<close> and its last evaluation after a timeout.
\<close>

fun ta_return :: "ta_ctx \<Rightarrow> bool \<Rightarrow> sem_pc" where
  "ta_return K_try b = S_ret b"
| "ta_return (K_spin i spins) b = (if b then S_ret True else S_spin_read i spins)"
| "ta_return K_wait1 b = (if b then S_ret True else S_lock)"
| "ta_return K_wait2 b = (if b then S_unlock True else S_inc)"
| "ta_return K_pred b = (if b then S_dec True else S_block)"
| "ta_return K_final b = S_dec b"

text \<open>The head of the \<open>do\<close> loop of \<open>try_acquire\<close>, on the value it has just read.\<close>

definition ta_test :: "ta_ctx \<Rightarrow> int \<Rightarrow> sem_pc" where
  "ta_test k old_count =
     (if old_count < 0 then S_assert k
      else if old_count = 0 then ta_return k False
      else S_cas k old_count)"

text \<open>The head of the \<open>for\<close> loop of \<open>spin_acquire\<close>.\<close>

definition spin_head :: "int \<Rightarrow> int \<Rightarrow> sem_pc" where
  "spin_head i spins = (if i < spins then S_load (K_spin i spins) else S_ret False)"

fun sem_start :: "sem_call \<Rightarrow> sem_pc" where
  "sem_start C_try_acquire = S_load K_try"
| "sem_start (C_spin_acquire spins) = spin_head 0 spins"
| "sem_start C_wait_acquire = S_load K_wait1"
| "sem_start (C_release amount) = (if amount > 0 then S_add amount else S_assert_release)"

definition sem_try_step :: "semaphore \<Rightarrow> ta_ctx \<Rightarrow> int \<Rightarrow> semaphore \<times> sem_pc" where
  "sem_try_step sh k old_count =
     (if m_count sh = old_count
      then (sh\<lparr>m_count := old_count - 1, g_acquired := g_acquired sh + 1\<rparr>, ta_return k True)
      else (sh, ta_test k (m_count sh)))"

fun sem_exec :: "tid \<Rightarrow> semaphore \<Rightarrow> sem_pc \<Rightarrow> (semaphore \<times> sem_pc) option" where
  "sem_exec t sh (S_load k) = Some (sh, ta_test k (m_count sh))"
| "sem_exec t sh (S_cas k old_count) = Some (sem_try_step sh k old_count)"
| "sem_exec t sh (S_spin_read i spins) =
     Some (sh, if m_count sh = 0 \<and> i < spins then S_spin_read (i + 1) spins
               else spin_head (i + 1) spins)"
| "sem_exec t sh S_lock =
     (if sem_CS sh = None then Some (sh\<lparr>sem_CS := Some t\<rparr>, S_load K_wait2) else None)"
| "sem_exec t sh S_inc = Some (sh\<lparr>m_waiters := wrap32 (m_waiters sh + 1)\<rparr>, S_load K_pred)"
| "sem_exec t sh S_block =
     Some (sh\<lparr>sem_CS := None, sem_cond := sem_cond sh @ [t]\<rparr>, S_blocked)"
| "sem_exec t sh S_blocked =
     (if t \<in> set (sem_cond sh) then None else Some (sh, S_relock False))"
| "sem_exec t sh (S_relock timed_out) =
     (if sem_CS sh = None
      then Some (sh\<lparr>sem_CS := Some t\<rparr>, S_load (if timed_out then K_final else K_pred))
      else None)"
| "sem_exec t sh (S_dec b) = Some (sh\<lparr>m_waiters := wrap32 (m_waiters sh - 1)\<rparr>, S_unlock b)"
| "sem_exec t sh (S_unlock b) = Some (sh\<lparr>sem_CS := None\<rparr>, S_ret b)"
| "sem_exec t sh (S_add amount) =
     Some (sh\<lparr>m_count := wrap32 (m_count sh + amount), g_released := g_released sh + amount\<rparr>,
           S_rload amount)"
| "sem_exec t sh (S_rload amount) =
     Some (sh, if m_waiters sh \<noteq> 0 then S_rlock amount else S_rret)"
| "sem_exec t sh (S_rlock amount) =
     (if sem_CS sh = None then Some (sh\<lparr>sem_CS := Some t\<rparr>, S_notify amount) else None)"
| "sem_exec t sh (S_notify amount) =
     (if amount = 1
      then if sem_cond sh = [] then Some (sh, S_runlock) else None
      else Some (sh\<lparr>sem_cond := []\<rparr>, S_runlock))"
| "sem_exec t sh S_runlock = Some (sh\<lparr>sem_CS := None\<rparr>, S_rret)"
| "sem_exec t sh _ = None"

text \<open>
  \<open>notify_one\<close> wakes some blocked thread \<open>u\<close> (event \<open>E_notify u\<close>), or nobody when none is
  blocked. \<open>E_timeout\<close>: the timeout of the blocked thread has passed.
\<close>

fun sem_local ::
  "tid \<Rightarrow> sem_event \<Rightarrow> semaphore \<Rightarrow> sem_pc \<Rightarrow> (semaphore \<times> sem_pc) option" where
  "sem_local t (E_call c) sh S_idle = Some (sh, sem_start c)"
| "sem_local t (E_call c) sh (S_ret b) = Some (sh, sem_start c)"
| "sem_local t (E_call c) sh S_rret = Some (sh, sem_start c)"
| "sem_local t (E_call c) sh _ = None"
| "sem_local t E_step sh pc = sem_exec t sh pc"
| "sem_local t (E_notify u) sh (S_notify amount) =
     (if amount = 1 \<and> u \<in> set (sem_cond sh)
      then Some (sh\<lparr>sem_cond := filter (\<lambda>v. v \<noteq> u) (sem_cond sh)\<rparr>, S_runlock)
      else None)"
| "sem_local t (E_notify u) sh _ = None"
| "sem_local t E_spurious sh (S_cas k old_count) = Some (sh, ta_test k (m_count sh))"
| "sem_local t E_spurious sh S_blocked =
     Some (sh\<lparr>sem_cond := filter (\<lambda>v. v \<noteq> t) (sem_cond sh)\<rparr>, S_relock False)"
| "sem_local t E_spurious sh _ = None"
| "sem_local t E_timeout sh S_blocked =
     Some (sh\<lparr>sem_cond := filter (\<lambda>v. v \<noteq> t) (sem_cond sh)\<rparr>, S_relock True)"
| "sem_local t E_timeout sh _ = None"

type_synonym sem_sys = "(semaphore, sem_pc) sys"

abbreviation sem_step :: "sem_sys \<Rightarrow> tid \<times> sem_event \<Rightarrow> sem_sys option" where
  "sem_step \<equiv> sys_step sem_local"

definition sem_init :: "int \<Rightarrow> nat \<Rightarrow> sem_sys" where
  "sem_init amount n = (semaphore_new amount, replicate n S_idle)"

fun_cases sem_start_elims: "sem_start c = pc"

section \<open>Mutual exclusion of \<open>m_CS\<close> and the number of waiters\<close>

fun sem_holds :: "sem_pc \<Rightarrow> bool" where
  "sem_holds (S_load k) = (k \<in> {K_wait2, K_pred, K_final})"
| "sem_holds (S_cas k c) = (k \<in> {K_wait2, K_pred, K_final})"
| "sem_holds (S_assert k) = (k \<in> {K_wait2, K_pred, K_final})"
| "sem_holds S_inc = True"
| "sem_holds S_block = True"
| "sem_holds (S_dec b) = True"
| "sem_holds (S_unlock b) = True"
| "sem_holds (S_notify c) = True"
| "sem_holds S_runlock = True"
| "sem_holds _ = False"

fun sem_waits :: "sem_pc \<Rightarrow> int" where
  "sem_waits (S_load k) = (if k \<in> {K_pred, K_final} then 1 else 0)"
| "sem_waits (S_cas k c) = (if k \<in> {K_pred, K_final} then 1 else 0)"
| "sem_waits (S_assert k) = (if k \<in> {K_pred, K_final} then 1 else 0)"
| "sem_waits S_block = 1"
| "sem_waits S_blocked = 1"
| "sem_waits (S_relock b) = 1"
| "sem_waits (S_dec b) = 1"
| "sem_waits _ = 0"

lemma sem_local_cases:
  assumes "sem_local t e sh pc = Some (sh', pc')"
  obtains (call) c where "e = E_call c" "sh' = sh" "pc' = sem_start c"
      "pc = S_idle \<or> pc = S_rret \<or> (\<exists>b. pc = S_ret b)"
  | (exec) "e = E_step" "sem_exec t sh pc = Some (sh', pc')"
  | (notify) u where "e = E_notify u" "pc = S_notify 1" "u \<in> set (sem_cond sh)"
      "sh' = sh\<lparr>sem_cond := filter (\<lambda>v. v \<noteq> u) (sem_cond sh)\<rparr>" "pc' = S_runlock"
  | (cas) k c where "pc = S_cas k c" "sh' = sh" "pc' = ta_test k (m_count sh)"
  | (wake) b where "pc = S_blocked" "pc' = S_relock b"
      "sh' = sh\<lparr>sem_cond := filter (\<lambda>v. v \<noteq> t) (sem_cond sh)\<rparr>"
proof (cases e)
  case (E_call c)
  then show thesis using assms by (intro call) (cases pc; simp)+
next
  case E_step
  then show thesis using assms by (intro exec) simp_all
next
  case (E_notify u)
  then show thesis using assms notify by (cases pc) (auto split: if_splits)
next
  case E_spurious
  then show thesis using assms cas wake by (cases pc) auto
next
  case E_timeout
  then show thesis using assms wake by (cases pc) auto
qed

lemma ta_return_simps [simp]:
  "sem_holds (ta_return k b) = (k \<in> {K_wait2, K_pred, K_final})"
  "sem_waits (ta_return k b) = (if k \<in> {K_pred, K_final} then 1 else 0)"
  by (cases k; simp)+

lemma ta_test_simps [simp]:
  "sem_holds (ta_test k c) = (k \<in> {K_wait2, K_pred, K_final})"
  "sem_waits (ta_test k c) = (if k \<in> {K_pred, K_final} then 1 else 0)"
  by (auto simp: ta_test_def)

lemma spin_head_simps [simp]:
  "\<not> sem_holds (spin_head i n)" "sem_waits (spin_head i n) = 0"
  by (auto simp: spin_head_def)

lemma sem_start_simps [simp]:
  "\<not> sem_holds (sem_start c)" "sem_waits (sem_start c) = 0"
  by (cases c; simp)+

interpretation sem_mutex: mutex_client sem_local sem_CS sem_holds
proof
  fix t e sh pc sh' pc'
  assume "sem_local t e sh pc = Some (sh', pc')" and "sem_holds pc \<longleftrightarrow> sem_CS sh = Some t"
  then show "(sem_holds pc' \<longleftrightarrow> sem_CS sh' = Some t) \<and>
       (sem_CS sh' = sem_CS sh \<or> sem_CS sh = None \<and> sem_CS sh' = Some t \<or>
        sem_CS sh = Some t \<and> sem_CS sh' = None)"
  proof (cases rule: sem_local_cases)
    case exec
    then show ?thesis
      using \<open>sem_holds pc \<longleftrightarrow> sem_CS sh = Some t\<close>
      by (elim sem_exec.elims) (auto simp: sem_try_step_def split: if_splits)
  qed auto
qed

interpretation sem_wait: wrapped_counter sem_local m_waiters sem_waits
proof
  fix pc show "0 \<le> sem_waits pc \<and> sem_waits pc \<le> 1"
    by (cases pc) auto
next
  fix t e sh pc sh' pc'
  assume "sem_local t e sh pc = Some (sh', pc')"
  then show "m_waiters sh' = m_waiters sh \<and> sem_waits pc' = sem_waits pc \<or>
       m_waiters sh' = wrap32 (m_waiters sh + (sem_waits pc' - sem_waits pc))"
  proof (cases rule: sem_local_cases)
    case exec
    then show ?thesis
      by (elim sem_exec.elims) (auto simp: sem_try_step_def split: if_splits)
  qed auto
qed

section \<open>The invariant\<close>

text \<open>
  Amounts that a release has added but not yet announced, and threads that have been
  woken or have announced themselves as waiters and will look at \<open>m_count\<close> again.
\<close>

fun sem_wake :: "sem_pc \<Rightarrow> int" where
  "sem_wake (S_load k) = (if k \<in> {K_pred, K_final} then 1 else 0)"
| "sem_wake (S_cas k c) = (if k \<in> {K_pred, K_final} then 1 else 0)"
| "sem_wake S_blocked = 1"
| "sem_wake (S_relock b) = 1"
| "sem_wake (S_rload n) = n"
| "sem_wake (S_rlock n) = n"
| "sem_wake (S_notify n) = n"
| "sem_wake _ = 0"

fun sem_pc_ok :: "sem_pc \<Rightarrow> bool" where
  "sem_pc_ok (S_cas k c) = (c > 0)"
| "sem_pc_ok (S_add n) = (n > 0)"
| "sem_pc_ok (S_rload n) = (n > 0)"
| "sem_pc_ok (S_rlock n) = (n > 0)"
| "sem_pc_ok (S_notify n) = (n > 0)"
| "sem_pc_ok _ = True"

definition cond_inv :: "sem_sys \<Rightarrow> bool" where
  "cond_inv s \<longleftrightarrow> distinct (sem_cond (fst s)) \<and>
     (\<forall>t \<in> set (sem_cond (fst s)). t < length (snd s) \<and> snd s ! t = S_blocked)"

definition pcs_ok :: "sem_sys \<Rightarrow> bool" where
  "pcs_ok s \<longleftrightarrow> (\<forall>pc \<in> set (snd s). sem_pc_ok pc)"

definition count_inv :: "int \<Rightarrow> semaphore \<Rightarrow> bool" where
  "count_inv c0 sh \<longleftrightarrow> 0 \<le> c0 \<and> 0 \<le> g_acquired sh \<and> 0 \<le> m_count sh \<and>
     m_count sh = c0 + g_released sh - g_acquired sh"

definition wake_inv :: "sem_sys \<Rightarrow> bool" where
  "wake_inv s \<longleftrightarrow> (sem_cond (fst s) \<noteq> [] \<or> S_block \<in> set (snd s) \<longrightarrow>
     m_count (fst s) \<le> tsum sem_wake (snd s) - int (length (sem_cond (fst s))))"

definition assert_inv :: "sem_sys \<Rightarrow> bool" where
  "assert_inv s \<longleftrightarrow> (\<forall>k. S_assert k \<notin> set (snd s))"

definition sem_inv :: "int \<Rightarrow> sem_sys \<Rightarrow> bool" where
  "sem_inv c0 s \<longleftrightarrow> sem_mutex.owner_inv s \<and> sem_wait.counter_inv s \<and> cond_inv s \<and> pcs_ok s \<and>
     (c0 + g_released (fst s) \<le> INT_MAX \<longrightarrow>
        count_inv c0 (fst s) \<and> wake_inv s \<and> assert_inv s)"

lemmas sem_inv_defs = cond_inv_def pcs_ok_def wake_inv_def

lemma ta_return_ok [simp]: "sem_pc_ok (ta_return k b)"
  by (cases k) auto

lemma sem_pcs_simps [simp]:
  "sem_pc_ok (ta_test k c)" "sem_pc_ok (spin_head i n)" "sem_pc_ok (sem_start call)"
  by (auto simp: ta_test_def spin_head_def) (cases call; auto simp: spin_head_def)

lemma pcs_ok_local:
  assumes "sem_local t e sh pc = Some (sh', pc')" and "sem_pc_ok pc"
  shows "sem_pc_ok pc'"
  using assms
  by (cases rule: sem_local_cases)
     (auto elim!: sem_exec.elims simp: sem_try_step_def split: if_splits)

lemma pcs_ok_step:
  assumes "pcs_ok s" and "sem_step s ev = Some s'"
  shows "pcs_ok s'"
  using assms(2,1)
  by (elim sys_step_Some) (auto simp: pcs_ok_def dest!: set_update_cases pcs_ok_local)

text \<open>A thread leaves the condition variable only when it moves on.\<close>

lemma cond_local:
  assumes "sem_local t e sh pc = Some (sh', pc')"
  shows "set (sem_cond sh') \<subseteq> set (sem_cond sh) \<union> {t}"
    and "pc' \<noteq> S_blocked \<Longrightarrow> pc = S_blocked \<Longrightarrow> t \<notin> set (sem_cond sh')"
    and "t \<in> set (sem_cond sh') \<Longrightarrow> t \<notin> set (sem_cond sh) \<Longrightarrow> pc = S_block \<and> pc' = S_blocked"
    and "distinct (sem_cond sh) \<Longrightarrow> (pc = S_block \<longrightarrow> t \<notin> set (sem_cond sh)) \<Longrightarrow>
      distinct (sem_cond sh')"
  using assms
  by (cases rule: sem_local_cases;
      auto elim!: sem_exec.elims simp: sem_try_step_def split: if_splits)+

lemma cond_inv_step:
  assumes "cond_inv s" and "sem_step s ev = Some s'"
  shows "cond_inv s'"
  using assms(2)
proof (rule sys_step_Some)
  fix sh ts t e sh' pc'
  assume *: "s = (sh, ts)" "ev = (t, e)" "t < length ts"
    "sem_local t e sh (ts ! t) = Some (sh', pc')" "s' = (sh', ts[t := pc'])"
  have c: "distinct (sem_cond sh)" "\<And>u. u \<in> set (sem_cond sh) \<Longrightarrow> u < length ts \<and> ts ! u = S_blocked"
    using assms(1) * by (auto simp: cond_inv_def)
  have "distinct (sem_cond sh')"
    using cond_local(4)[OF *(4)] c by force
  moreover have "u < length ts \<and> ts[t := pc'] ! u = S_blocked" if "u \<in> set (sem_cond sh')" for u
    using that cond_local(1-3)[OF *(4)] c(2)[of u] *(3)
    by (cases "u = t") auto
  ultimately show ?thesis using * by (simp add: cond_inv_def)
qed

lemma count_local:
  assumes "sem_local t e sh pc = Some (sh', pc')" and "sem_pc_ok pc"
    and "c0 + g_released sh' \<le> INT_MAX"
  shows "c0 + g_released sh \<le> INT_MAX" and "count_inv c0 sh \<Longrightarrow> count_inv c0 sh'"
  using assms
  by (cases rule: sem_local_cases;
      auto elim!: sem_exec.elims simp: sem_try_step_def count_inv_def split: if_splits)+

section \<open>No wake-up is lost\<close>

lemma sem_wake_nonneg: "sem_pc_ok pc \<Longrightarrow> 0 \<le> sem_wake pc"
  by (cases pc) auto

lemma sem_wake_return [simp]: "sem_wake (ta_return k b) = 0"
  by (cases k) auto

lemma cond_le_wake:
  assumes "cond_inv (sh, ts)" and "pcs_ok (sh, ts)"
  shows "int (length (sem_cond sh)) \<le> tsum sem_wake ts"
proof -
  have "int (length (sem_cond sh)) \<le> tsum (\<lambda>pc. if pc = S_blocked then 1 else 0) ts"
    using assms(1) by (intro distinct_le_tsum) (auto simp: cond_inv_def)
  also have "\<dots> \<le> tsum sem_wake ts"
    using assms(2) by (intro tsum_mono) (auto simp: pcs_ok_def sem_wake_nonneg)
  finally show ?thesis .
qed

lemma waiting_counted:
  assumes "sem_wait.counter_inv (sh, ts)" and "cond_inv (sh, ts)"
    and "sem_cond sh \<noteq> [] \<or> S_block \<in> set ts"
  shows "m_waiters sh \<noteq> 0"
proof -
  obtain u where u: "u < length ts" "sem_waits (ts ! u) = 1"
  proof (cases "sem_cond sh")
    case Nil
    with assms(3) that show thesis by (auto simp: in_set_conv_nth)
  next
    case (Cons v vs)
    with assms(2) that[of v] show thesis by (auto simp: cond_inv_def)
  qed
  have "sem_waits (ts ! u) \<le> tsum sem_waits ts"
    using u sem_wait.weight_range by (intro tsum_ge_member) auto
  with u assms(1) show ?thesis by (auto simp: sem_wait.counter_inv_def)
qed

text \<open>
  How one step of a thread changes the two sides of \<open>wake_inv\<close>: it keeps the inequality,
  or it finds \<open>m_count\<close> empty, or it is the part of \<open>release\<close> that saw no waiters, or it
  is the announcement itself.
\<close>

lemma wake_local:
  assumes "sem_local t e sh pc = Some (sh', pc')" and "sem_pc_ok pc"
    and "count_inv c0 sh" and "c0 + g_released sh' \<le> INT_MAX"
    and "pc = S_block \<longrightarrow> t \<notin> set (sem_cond sh)"
  shows "m_count sh' - m_count sh \<le> sem_wake pc' - sem_wake pc
           - (int (length (sem_cond sh')) - int (length (sem_cond sh)))
         \<or> m_count sh' = 0
         \<or> (\<exists>n. pc = S_rload n \<and> m_waiters sh = 0 \<and> sh' = sh \<and> pc' = S_rret)
         \<or> sem_holds pc \<and> pc \<noteq> S_block \<and> sem_cond sh' = [] \<and> pc' \<noteq> S_block"
  using assms
proof (cases rule: sem_local_cases)
  case (call c)
  then show ?thesis by (cases c) (auto simp: spin_head_def)
next
  case exec
  then show ?thesis using assms(2-5)
    by (elim sem_exec.elims)
       (auto simp: sem_try_step_def count_inv_def ta_test_def spin_head_def split: if_splits)
next
  case (notify u)
  then have "length (filter (\<lambda>v. v \<noteq> u) (sem_cond sh)) < length (sem_cond sh)"
    by (intro length_filter_less) auto
  then show ?thesis using notify by auto
next
  case (cas k c)
  then show ?thesis using assms(3) by (cases k) (auto simp: ta_test_def count_inv_def)
next
  case (wake b)
  then show ?thesis by (auto simp: length_filter_le)
qed

lemma S_block_simps [simp]:
  "ta_return k b = S_block \<longleftrightarrow> k = K_pred \<and> \<not> b"
  "ta_test k c = S_block \<longleftrightarrow> k = K_pred \<and> c = 0"
  "spin_head i n \<noteq> S_block" "sem_start call \<noteq> S_block"
proof -
  show r: "ta_return k b = S_block \<longleftrightarrow> k = K_pred \<and> \<not> b" for k b
    by (cases k) auto
  show "ta_test k c = S_block \<longleftrightarrow> k = K_pred \<and> c = 0"
    by (auto simp: ta_test_def r)
  show s: "spin_head i n \<noteq> S_block" for i n
    by (simp add: spin_head_def)
  show "sem_start call \<noteq> S_block"
    by (cases call) (auto simp: s)
qed

lemma wake_local_block:
  assumes "sem_local t e sh pc = Some (sh', pc')"
  shows "pc' = S_block \<longrightarrow> m_count sh' = 0"
    and "sem_cond sh' \<noteq> [] \<longrightarrow> sem_cond sh \<noteq> [] \<or> pc = S_block"
proof -
  show "pc' = S_block \<longrightarrow> m_count sh' = 0"
    using assms
  proof (cases rule: sem_local_cases)
    case exec
    then show ?thesis
      by (cases pc) (auto simp: sem_try_step_def split: if_splits)
  qed auto
  show "sem_cond sh' \<noteq> [] \<longrightarrow> sem_cond sh \<noteq> [] \<or> pc = S_block"
    using assms
  proof (cases rule: sem_local_cases)
    case exec
    then show ?thesis
      by (cases pc) (auto simp: sem_try_step_def split: if_splits)
  qed auto
qed

lemma wake_inv_step:
  assumes "sem_mutex.owner_inv s" "sem_wait.counter_inv s" "cond_inv s" "pcs_ok s"
    and "count_inv c0 (fst s)" and "wake_inv s"
    and step: "sem_step s ev = Some s'" and bound: "c0 + g_released (fst s') \<le> INT_MAX"
  shows "wake_inv s'"
  using step
proof (rule sys_step_Some)
  fix sh ts t e sh' pc'
  assume *: "s = (sh, ts)" "ev = (t, e)" "t < length ts"
    "sem_local t e sh (ts ! t) = Some (sh', pc')" "s' = (sh', ts[t := pc'])"
  let ?pc = "ts ! t"
  have ok: "sem_pc_ok ?pc" using assms(4) * by (auto simp: pcs_ok_def)
  have nb: "?pc = S_block \<longrightarrow> t \<notin> set (sem_cond sh)"
    using assms(3) * by (auto simp: cond_inv_def)
  have le: "int (length (sem_cond sh')) \<le> tsum sem_wake (ts[t := pc'])"
    using cond_inv_step[OF assms(3) step] pcs_ok_step[OF assms(4) step] *(5)
    by (auto intro: cond_le_wake)
  have sum: "tsum sem_wake (ts[t := pc']) = tsum sem_wake ts - sem_wake ?pc + sem_wake pc'"
    using *(3) by simp
  have alone: "S_block \<notin> set (ts[t := pc'])" if h: "sem_holds ?pc" "?pc \<noteq> S_block" "pc' \<noteq> S_block"
  proof
    assume "S_block \<in> set (ts[t := pc'])"
    then obtain u where "u < length ts" "u \<noteq> t" "ts ! u = S_block"
      using h(3) by (auto dest!: set_update_cases)
    then show False
      using sem_mutex.owner_unique[OF assms(1), of t u] h * by auto
  qed
  have was: "sem_cond sh \<noteq> [] \<or> S_block \<in> set ts"
    if "sem_cond sh' \<noteq> [] \<or> S_block \<in> set (ts[t := pc'])" "m_count sh' \<noteq> 0"
    using that *(3) wake_local_block[OF *(4)]
    by (auto dest!: set_update_cases intro: nth_mem) (metis nth_mem)+
  show ?thesis
    unfolding wake_inv_def *(5) fst_conv snd_conv
  proof
    assume waiting: "sem_cond sh' \<noteq> [] \<or> S_block \<in> set (ts[t := pc'])"
    show "m_count sh' \<le> tsum sem_wake (ts[t := pc']) - int (length (sem_cond sh'))"
    proof (cases "m_count sh' = 0")
      case True
      with le show ?thesis by simp
    next
      case False
      from was[OF waiting False] have w0: "sem_cond sh \<noteq> [] \<or> S_block \<in> set ts" .
      have old: "m_count sh \<le> tsum sem_wake ts - int (length (sem_cond sh))"
        using assms(6) w0 * by (simp add: wake_inv_def)
      have mw: "m_waiters sh \<noteq> 0"
        using waiting_counted[of sh ts] assms(2,3) w0 * by simp
      show ?thesis
        using wake_local[OF *(4) ok _ _ nb, of c0] assms(5) bound * False old sum mw alone waiting
        by auto
    qed
  qed
qed

lemma S_assert_simps [simp]:
  "ta_return k b \<noteq> S_assert k'" "spin_head i n \<noteq> S_assert k'" "sem_start call \<noteq> S_assert k'"
proof -
  show r: "ta_return k b \<noteq> S_assert k'" for k b
    by (cases k) auto
  show s: "spin_head i n \<noteq> S_assert k'" for i n
    by (simp add: spin_head_def)
  show "sem_start call \<noteq> S_assert k'"
    by (cases call) (auto simp: s)
qed

lemma assert_local:
  assumes "sem_local t e sh pc = Some (sh', pc')" and "0 \<le> m_count sh"
  shows "pc' \<noteq> S_assert k"
  using assms
proof (cases rule: sem_local_cases)
  case exec
  then show ?thesis using assms(2)
    by (cases pc) (auto simp: sem_try_step_def ta_test_def split: if_splits)
qed (use assms(2) in \<open>auto simp: ta_test_def\<close>)

lemma sem_inv_step:
  assumes "sem_inv c0 s" and step: "sem_step s ev = Some s'"
  shows "sem_inv c0 s'"
proof -
  have i: "sem_mutex.owner_inv s" "sem_wait.counter_inv s" "cond_inv s" "pcs_ok s"
    using assms(1) by (auto simp: sem_inv_def)
  have "count_inv c0 (fst s') \<and> wake_inv s' \<and> assert_inv s'"
    if b: "c0 + g_released (fst s') \<le> INT_MAX"
    using step
  proof (rule sys_step_Some)
    fix sh ts t e sh' pc'
    assume *: "s = (sh, ts)" "ev = (t, e)" "t < length ts"
      "sem_local t e sh (ts ! t) = Some (sh', pc')" "s' = (sh', ts[t := pc'])"
    have ok: "sem_pc_ok (ts ! t)" using i(4) * by (auto simp: pcs_ok_def)
    have b0: "c0 + g_released sh \<le> INT_MAX"
      using count_local(1)[OF *(4) ok] b * by simp
    then have c: "count_inv c0 sh" "wake_inv s" "assert_inv s"
      using assms(1) * by (auto simp: sem_inv_def)
    have "count_inv c0 sh'"
      using count_local(2)[OF *(4) ok _ c(1)] b * by simp
    moreover have "wake_inv s'"
      using wake_inv_step[OF i _ c(2) step b] c(1) * by simp
    moreover have "assert_inv s'"
      using c(1,3) * assert_local[OF *(4)]
      by (auto simp: assert_inv_def count_inv_def dest!: set_update_cases)
    ultimately show ?thesis using * by simp
  qed
  then show ?thesis
    using sem_mutex.owner_inv_step[OF i(1) step] sem_wait.counter_inv_step[OF i(2) step]
      cond_inv_step[OF i(3) step] pcs_ok_step[OF i(4) step]
    by (simp add: sem_inv_def)
qed

interpretation sem_invariant: step_invariant sem_step "\<lambda>_. True" "sem_inv c0" for c0
  by unfold_locales (rule sem_inv_step)

lemma sem_inv_init:
  assumes "0 \<le> c0" and "int n \<le> INT_MAX"
  shows "sem_inv c0 (sem_init c0 n)"
  using assms
  by (auto simp: sem_inv_def sem_init_def semaphore_new_def sem_mutex.owner_inv_def
      sem_wait.counter_inv_def cond_inv_def pcs_ok_def count_inv_def wake_inv_def assert_inv_def)

lemmas sem_reach_inv = sem_invariant.reach_inv[OF _ sem_inv_init]

section \<open>Progress\<close>

definition sem_enabled :: "sem_sys \<Rightarrow> bool" where
  "sem_enabled s \<longleftrightarrow> (\<exists>u. sem_step s (u, E_step) \<noteq> None \<or> (\<exists>v. sem_step s (u, E_notify v) \<noteq> None))"

lemma sem_enabledI:
  "u < length ts \<Longrightarrow> sem_exec u sh (ts ! u) \<noteq> None \<Longrightarrow> sem_enabled (sh, ts)"
  unfolding sem_enabled_def sys_step_enabled by (rule exI[of _ u]) simp

lemma sem_enabled_notifyI:
  "u < length ts \<Longrightarrow> sem_local u (E_notify v) sh (ts ! u) \<noteq> None \<Longrightarrow> sem_enabled (sh, ts)"
  unfolding sem_enabled_def sys_step_enabled by blast

lemma assert_inv_nth: "assert_inv (sh, ts) \<Longrightarrow> u < length ts \<Longrightarrow> ts ! u \<noteq> S_assert k"
  unfolding assert_inv_def by (metis nth_mem snd_conv)

lemma sem_enabled_holder:
  assumes "u < length ts" "sem_holds (ts ! u)" "\<And>k. ts ! u \<noteq> S_assert k"
  shows "sem_enabled (sh, ts)"
proof (cases "ts ! u")
  case (S_notify n)
  show ?thesis
  proof (cases "n = 1 \<and> sem_cond sh \<noteq> []")
    case True
    then show ?thesis
      using assms S_notify by (intro sem_enabled_notifyI[of u _ "hd (sem_cond sh)"]) auto
  next
    case False
    then show ?thesis using assms S_notify by (intro sem_enabledI[of u]) auto
  qed
qed (use assms in \<open>auto intro!: sem_enabledI[of u]\<close>)

lemma sem_progress:
  assumes inv: "sem_inv c0 (sh, ts)" and b: "c0 + g_released sh \<le> INT_MAX"
    and pos: "m_count sh > 0" and t: "t < length ts" "ts ! t = S_blocked"
  shows "sem_enabled (sh, ts)"
proof (rule ccontr)
  assume stuck: "\<not> sem_enabled (sh, ts)"
  have i: "sem_mutex.owner_inv (sh, ts)" "cond_inv (sh, ts)" "pcs_ok (sh, ts)" "wake_inv (sh, ts)"
    "assert_inv (sh, ts)"
    using inv b by (auto simp: sem_inv_def)
  have free: "sem_CS sh = None"
  proof (cases "sem_CS sh")
    case (Some v)
    then have "v < length ts" "sem_holds (ts ! v)"
      using i(1) by (auto simp: sem_mutex.owner_inv_def)
    then show ?thesis
      using sem_enabled_holder[of v ts sh] assert_inv_nth[OF i(5)] stuck by blast
  qed
  have blocked: "u \<in> set (sem_cond sh)" if "u < length ts" "ts ! u = S_blocked" for u
  proof (rule ccontr)
    assume "u \<notin> set (sem_cond sh)"
    with that have "sem_exec u sh (ts ! u) \<noteq> None" by simp
    with that(1) stuck show False using sem_enabledI by blast
  qed
  let ?ind = "\<lambda>pc. if pc = S_blocked then 1 else (0::int)"
  have "set (sem_cond sh) = {u. u < length ts \<and> ts ! u = S_blocked}"
    using blocked i(2) by (auto simp: cond_inv_def)
  then have ind: "tsum ?ind ts = int (length (sem_cond sh))"
    using i(2) by (intro tsum_eq_distinct) (auto simp: cond_inv_def)
  have "m_count sh \<le> tsum sem_wake ts - int (length (sem_cond sh))"
    using i(4) blocked[OF t] by (auto simp: wake_inv_def)
  then have "0 < tsum (\<lambda>pc. sem_wake pc + - ?ind pc) ts"
    using pos ind tsum_add[of sem_wake "\<lambda>pc. - ?ind pc" ts] tsum_neg[of ?ind ts] by simp
  then obtain u where u: "u < length ts" "0 < sem_wake (ts ! u) + - ?ind (ts ! u)"
    using tsum_pos_member by fastforce
  then have "sem_enabled (sh, ts)"
  proof (cases "sem_holds (ts ! u)")
    case True
    then show ?thesis
      using sem_enabled_holder[of u ts sh] assert_inv_nth[OF i(5)] u(1) by blast
  next
    case False
    then have "sem_exec u sh (ts ! u) \<noteq> None"
      using u(2) free by (cases "ts ! u") auto
    then show ?thesis using u(1) by (rule sem_enabledI[rotated])
  qed
  with stuck show False by simp
qed

section \<open>Refinement of an atomic counter\<close>

text \<open>
  The specification the thread pool relies on: a counter with an atomic acquire, enabled
  when the counter is positive, and an atomic release. \<open>sem_act\<close> names the step of the
  detailed model that takes effect.
\<close>

datatype counter_act = A_none | A_acquire | A_release int

fun counter_apply :: "counter_act \<Rightarrow> int \<Rightarrow> int option" where
  "counter_apply A_none c = Some c"
| "counter_apply A_acquire c = (if c > 0 then Some (c - 1) else None)"
| "counter_apply (A_release n) c = (if n > 0 then Some (c + n) else None)"

fun sem_act :: "semaphore \<Rightarrow> sem_pc \<Rightarrow> sem_event \<Rightarrow> counter_act" where
  "sem_act sh (S_cas k c) E_step = (if m_count sh = c then A_acquire else A_none)"
| "sem_act sh (S_add n) E_step = A_release n"
| "sem_act sh _ _ = A_none"

lemma sem_act_none: "sem_act sh pc e = A_none \<Longrightarrow> sem_local t e sh pc = Some (sh', pc') \<Longrightarrow>
    m_count sh' = m_count sh"
  by (erule sem_local_cases; cases pc) (auto simp: sem_try_step_def split: if_splits)

text \<open>An acquire is the last thing before \<open>try_acquire\<close> returns true to its caller.\<close>

fun sem_pending :: "sem_pc \<Rightarrow> ta_ctx option" where
  "sem_pending (S_cas k c) = Some k"
| "sem_pending _ = None"

lemma sem_refines_local:
  assumes "sem_local t e sh pc = Some (sh', pc')" and "sem_pc_ok pc"
    and "count_inv c0 sh" and "c0 + g_released sh' \<le> INT_MAX"
  shows "counter_apply (sem_act sh pc e) (m_count sh) = Some (m_count sh')"
    and "sem_act sh pc e = A_acquire \<Longrightarrow> \<exists>k. sem_pending pc = Some k \<and> pc' = ta_return k True"
  using assms
  by (cases rule: sem_act.cases[of "(sh, pc, e)"];
      auto simp: sem_try_step_def count_inv_def split: if_splits dest: sem_act_none[rotated])+

section \<open>Properties\<close>

text \<open>
  In every execution of any number of threads calling \<open>try_acquire\<close>,
  \<open>spin_acquire\<close>, \<open>wait_acquire\<close> and \<open>release\<close> in any interleaving, with spurious failures
  of \<open>compare_exchange_weak\<close>, spurious wake-ups and timeouts: the count is the initial
  count plus everything released minus the number of successful acquisitions, it is never
  negative, and the assertion of \<open>try_acquire\<close> never fails, as long as no more than
  \<open>INT_MAX\<close> was ever released.
\<close>

theorem semaphore_conservation:
  assumes "reach sem_step (\<lambda>_. True) (sem_init c0 n) s"
    and "0 \<le> c0" and "int n \<le> INT_MAX" and "c0 + g_released (fst s) \<le> INT_MAX"
  shows "m_count (fst s) = c0 + g_released (fst s) - g_acquired (fst s) \<and>
         0 \<le> m_count (fst s) \<and> (\<forall>k. S_assert k \<notin> set (snd s))"
  using sem_reach_inv[OF assms(1-3)] assms(4)
  by (auto simp: sem_inv_def count_inv_def assert_inv_def)

definition sem_demo :: "(tid \<times> sem_event) list" where
  "sem_demo =
     [(0, E_call C_wait_acquire), (0, E_step), (0, E_step), (0, E_step), (0, E_step),
      (0, E_step), (0, E_step), (1, E_call (C_release 1)), (1, E_step)]"

definition sem_demo_state :: sem_sys where
  "sem_demo_state =
     (\<lparr>m_count = 1, m_waiters = 1, sem_CS = None, sem_cond = [0], g_released = 1, g_acquired = 0\<rparr>,
      [S_blocked, S_rload 1])"

lemma sem_demo_reach: "reach sem_step (\<lambda>_. True) (sem_init 0 2) sem_demo_state"
proof (rule reach_run[where es = sem_demo])
  show "run sem_step (sem_init 0 2) sem_demo = Some sem_demo_state"
    by (simp add: sem_demo_def sem_demo_state_def sem_init_def semaphore_new_def ta_test_def
        numeral_2_eq_2)
qed (simp add: sem_demo_def)

theorem semaphore_conservation_witness:
  "m_count (fst sem_demo_state) = 0 + g_released (fst sem_demo_state) - g_acquired (fst sem_demo_state) \<and>
   0 \<le> m_count (fst sem_demo_state) \<and> (\<forall>k. S_assert k \<notin> set (snd sem_demo_state))"
  by (rule semaphore_conservation[OF sem_demo_reach]) (simp_all add: sem_demo_state_def)

text \<open>
  C11. No wake-up is lost: whenever a thread is blocked in \<open>wait_acquire\<close> while the count is
  positive, some thread can take a step of its own (without a timeout and without a
  spurious wake-up). So the system never comes to rest with a permit available and a
  waiter asleep.
\<close>

theorem semaphore_no_lost_wakeup:
  assumes "reach sem_step (\<lambda>_. True) (sem_init c0 n) s"
    and "0 \<le> c0" and "int n \<le> INT_MAX" and "c0 + g_released (fst s) \<le> INT_MAX"
    and "t < length (snd s)" and "snd s ! t = S_blocked" and "m_count (fst s) > 0"
  shows "\<exists>u e s'. sem_step s (u, e) = Some s' \<and> (e = E_step \<or> (\<exists>v. e = E_notify v))"
proof -
  have "sem_enabled s"
    using sem_progress[of c0 "fst s" "snd s" t] sem_reach_inv[OF assms(1-3)] assms(4-7) by simp
  then show ?thesis unfolding sem_enabled_def by blast
qed

theorem semaphore_no_lost_wakeup_witness:
  "\<exists>u e s'. sem_step sem_demo_state (u, e) = Some s' \<and> (e = E_step \<or> (\<exists>v. e = E_notify v))"
  by (rule semaphore_no_lost_wakeup[OF sem_demo_reach, where t = 0])
     (simp_all add: sem_demo_state_def)

text \<open>
  C10. The semaphore refines an atomic counter: every step of every thread in every
  execution either leaves the count alone, or is an atomic acquire from a positive count
  (and the acquiring thread's \<open>try_acquire\<close> then returns true), or is an atomic release.
\<close>

theorem semaphore_refines_counter:
  assumes "reach sem_step (\<lambda>_. True) (sem_init c0 n) (sh, ts)"
    and "0 \<le> c0" and "int n \<le> INT_MAX"
    and "sem_step (sh, ts) (t, e) = Some (sh', ts')" and "c0 + g_released sh' \<le> INT_MAX"
  shows "counter_apply (sem_act sh (ts ! t) e) (m_count sh) = Some (m_count sh') \<and>
         (sem_act sh (ts ! t) e = A_acquire \<longrightarrow>
            (\<exists>k. sem_pending (ts ! t) = Some k \<and> ts' ! t = ta_return k True))"
proof -
  note inv = sem_reach_inv[OF assms(1-3)]
  obtain pc' where t: "t < length ts" "sem_local t e sh (ts ! t) = Some (sh', pc')"
    "ts' = ts[t := pc']"
    using assms(4) unfolding sys_step_iff by blast
  have ok: "sem_pc_ok (ts ! t)" using inv t(1) by (auto simp: sem_inv_def pcs_ok_def)
  have "count_inv c0 sh"
    using inv count_local(1)[OF t(2) ok assms(5)] by (simp add: sem_inv_def)
  from sem_refines_local[OF t(2) ok this assms(5)] t show ?thesis by simp
qed

definition sem_acq_state :: sem_sys where
  "sem_acq_state =
     (\<lparr>m_count = 1, m_waiters = 0, sem_CS = None, sem_cond = [], g_released = 0, g_acquired = 0\<rparr>,
      [S_cas K_try 1])"

theorem semaphore_refines_counter_witness:
  "counter_apply A_acquire 1 = Some 0 \<and> sem_act (fst sem_acq_state) (S_cas K_try 1) E_step = A_acquire"
proof -
  have r: "reach sem_step (\<lambda>_. True) (sem_init 1 1) sem_acq_state"
    by (rule reach_run[where es = "[(0, E_call C_try_acquire), (0, E_step)]"])
       (simp_all add: sem_acq_state_def sem_init_def semaphore_new_def ta_test_def)
  show ?thesis
    using semaphore_refines_counter[of 1 1 "fst sem_acq_state" "snd sem_acq_state" 0 E_step] r
    by (simp add: sem_acq_state_def sem_try_step_def)
qed

lemma spin_read_gives_up:
  assumes "m_count sh = 0" and "i \<le> spins" and "k = nat (spins - i)"
  shows "solo (sem_exec t) (Suc k) (sh, S_spin_read i spins) = Some (sh, S_ret False)"
  using assms(2,3)
proof (induction k arbitrary: i)
  case 0
  then show ?case using assms(1) by (simp add: spin_head_def)
next
  case (Suc k)
  then have "i < spins" "i + 1 \<le> spins" "k = nat (spins - (i + 1))" by auto
  then show ?case using assms(1) Suc.IH[of "i + 1"] by simp
qed

text \<open>
  \<open>spin_acquire(spins)\<close> terminates: while the count stays zero, the calling thread
  gives up and returns false after \<open>spins\<close> readings, having changed nothing.
\<close>

theorem spin_acquire_gives_up:
  assumes "m_count sh = 0" and "spins > 0"
  shows "solo (sem_exec t) (nat spins + 2) (sh, sem_start (C_spin_acquire spins)) =
         Some (sh, S_ret False)"
  using spin_read_gives_up[OF assms(1), of 0 spins "nat spins" t] assms
  by (simp add: spin_head_def ta_test_def numeral_2_eq_2)

theorem spin_acquire_gives_up_witness:
  "solo (sem_exec 0) (nat 1000 + 2) (semaphore_new 0, sem_start (C_spin_acquire 1000)) =
   Some (semaphore_new 0, S_ret False)"
  by (rule spin_acquire_gives_up) (simp_all add: semaphore_new_def)

end
