(* ===== verification/Barrier.thy ===== *)
theory Barrier
  imports Types
begin

text \<open>
  The one-shot completion barrier (\<open>include/xdispatch/impl/lightweight_barrier.h\<close>,
  \<open>src/lightweight_barrier.cpp\<close>) and the operation that completes one when it is executed
  (\<open>include/xdispatch/barrier_operation.h\<close>, \<open>src/barrier_operation.cpp\<close>).

  \<open>m_owner\<close> is the atomic pointer: \<open>kNoOwner\<close>, \<open>kCompleted\<close>, or the waiter object that
  thread \<open>t\<close> has allocated and published. At most one waiter object is ever published;
  its fields are \<open>wt_done\<close>, \<open>wt_mutex\<close> and \<open>wt_cond\<close> (the threads blocked in its condition
  variable). A spurious failure of \<open>compare_exchange_weak\<close> is the event \<open>BE_cas_fail\<close>.
\<close>

section \<open>The model\<close>

datatype barrier_owner = kNoOwner | kCompleted | Owner_waiter tid

record lightweight_barrier =
  m_owner :: barrier_owner
  wt_done :: bool
  wt_mutex :: "tid option"
  wt_cond :: "tid list"

definition lightweight_barrier_new :: lightweight_barrier where
  "lightweight_barrier_new = \<lparr>m_owner = kNoOwner, wt_done = False, wt_mutex = None, wt_cond = []\<rparr>"

text \<open>The destructor deletes the waiter object, if one was published.\<close>

definition lightweight_barrier_delete :: "lightweight_barrier \<Rightarrow> tid option" where
  "lightweight_barrier_delete b =
     (case m_owner b of Owner_waiter u \<Rightarrow> Some u | _ \<Rightarrow> None)"

datatype bar_pc =
  B_idle
| B_wload milliseconds
| B_wcas milliseconds
| B_wt_lock milliseconds
| B_wt_test milliseconds
| B_blocked milliseconds
| B_relock milliseconds bool
| B_wt_final
| B_wt_unlock bool
| B_ccas
| B_c_lock
| B_c_set
| B_c_unlock
| B_cret
| B_qload
| B_q_lock
| B_q_read
| B_ret bool
| B_null

datatype bar_call = BC_wait milliseconds | BC_complete | BC_was_completed

datatype bar_event =
  BE_call bar_call
| BE_step
| BE_cas_fail
| BE_wake
| BE_timeout

fun bar_start :: "bar_call \<Rightarrow> bar_pc" where
  "bar_start (BC_wait timeout) = B_wload timeout"
| "bar_start BC_complete = B_ccas"
| "bar_start BC_was_completed = B_qload"

text \<open>
  \<open>lightweight_barrier::wait\<close> (\<open>B_wload\<close>, \<open>B_wcas\<close>) and \<open>waiter::wait\<close> (\<open>B_wt_lock\<close> to
  \<open>B_wt_unlock\<close>); \<open>lightweight_barrier::complete\<close> (\<open>B_ccas\<close>) and \<open>waiter::complete\<close>;
  \<open>was_completed\<close> of both.
\<close>

fun bar_exec ::
  "tid \<Rightarrow> lightweight_barrier \<Rightarrow> bar_pc \<Rightarrow> (lightweight_barrier \<times> bar_pc) option" where
  "bar_exec t b (B_wload timeout) =
     Some (b, if m_owner b = kCompleted then B_ret True else B_wcas timeout)"
| "bar_exec t b (B_wcas timeout) =
     (case m_owner b of
        kNoOwner \<Rightarrow> Some (b\<lparr>m_owner := Owner_waiter t, wt_done := False\<rparr>, B_wt_lock timeout)
      | kCompleted \<Rightarrow> Some (b, B_ret True)
      | Owner_waiter u \<Rightarrow> Some (b, B_wt_lock timeout))"
| "bar_exec t b (B_wt_lock timeout) =
     (if wt_mutex b = None then Some (b\<lparr>wt_mutex := Some t\<rparr>, B_wt_test timeout) else None)"
| "bar_exec t b (B_wt_test timeout) =
     (if wt_done b then Some (b, B_wt_unlock True)
      else Some (b\<lparr>wt_mutex := None, wt_cond := wt_cond b @ [t]\<rparr>, B_blocked timeout))"
| "bar_exec t b (B_blocked timeout) =
     (if t \<in> set (wt_cond b) then None else Some (b, B_relock timeout False))"
| "bar_exec t b (B_relock timeout timed_out) =
     (if wt_mutex b = None
      then Some (b\<lparr>wt_mutex := Some t\<rparr>, if timed_out then B_wt_final else B_wt_test timeout)
      else None)"
| "bar_exec t b B_wt_final = Some (b, B_wt_unlock (wt_done b))"
| "bar_exec t b (B_wt_unlock r) = Some (b\<lparr>wt_mutex := None\<rparr>, B_ret r)"
| "bar_exec t b B_ccas =
     (case m_owner b of
        kNoOwner \<Rightarrow> Some (b\<lparr>m_owner := kCompleted\<rparr>, B_cret)
      | kCompleted \<Rightarrow> Some (b, B_cret)
      | Owner_waiter u \<Rightarrow> Some (b, B_c_lock))"
| "bar_exec t b B_c_lock =
     (if wt_mutex b = None then Some (b\<lparr>wt_mutex := Some t\<rparr>, B_c_set) else None)"
| "bar_exec t b B_c_set = Some (b\<lparr>wt_done := True, wt_cond := []\<rparr>, B_c_unlock)"
| "bar_exec t b B_c_unlock = Some (b\<lparr>wt_mutex := None\<rparr>, B_cret)"
| "bar_exec t b B_qload =
     Some (b, case m_owner b of
        kNoOwner \<Rightarrow> B_ret False | kCompleted \<Rightarrow> B_ret True | Owner_waiter u \<Rightarrow> B_q_lock)"
| "bar_exec t b B_q_lock =
     (if wt_mutex b = None then Some (b\<lparr>wt_mutex := Some t\<rparr>, B_q_read) else None)"
| "bar_exec t b B_q_read = Some (b, B_wt_unlock (wt_done b))"
| "bar_exec t b _ = None"

text \<open>
  A spurious failure leaves \<open>previous\<close> at the value that was read, \<open>kNoOwner\<close>, the null
  pointer: \<open>wait\<close> then calls \<open>previous->wait\<close> (\<open>B_null\<close>), and \<open>complete\<close> takes none of its
  branches.
\<close>

fun bar_local ::
  "tid \<Rightarrow> bar_event \<Rightarrow> lightweight_barrier \<Rightarrow> bar_pc \<Rightarrow> (lightweight_barrier \<times> bar_pc) option" where
  "bar_local t (BE_call c) b B_idle = Some (b, bar_start c)"
| "bar_local t (BE_call c) b (B_ret r) = Some (b, bar_start c)"
| "bar_local t (BE_call c) b B_cret = Some (b, bar_start c)"
| "bar_local t (BE_call c) b _ = None"
| "bar_local t BE_step b pc = bar_exec t b pc"
| "bar_local t BE_cas_fail b (B_wcas timeout) =
     (if m_owner b = kNoOwner then Some (b, B_null) else None)"
| "bar_local t BE_cas_fail b B_ccas =
     (if m_owner b = kNoOwner then Some (b, B_cret) else None)"
| "bar_local t BE_cas_fail b _ = None"
| "bar_local t BE_wake b (B_blocked timeout) =
     Some (b\<lparr>wt_cond := filter (\<lambda>v. v \<noteq> t) (wt_cond b)\<rparr>, B_relock timeout False)"
| "bar_local t BE_wake b _ = None"
| "bar_local t BE_timeout b (B_blocked timeout) =
     (if timeout \<noteq> -1
      then Some (b\<lparr>wt_cond := filter (\<lambda>v. v \<noteq> t) (wt_cond b)\<rparr>, B_relock timeout True)
      else None)"
| "bar_local t BE_timeout b _ = None"

type_synonym bar_sys = "(lightweight_barrier, bar_pc) sys"

abbreviation bar_step :: "bar_sys \<Rightarrow> tid \<times> bar_event \<Rightarrow> bar_sys option" where
  "bar_step \<equiv> sys_step bar_local"

definition bar_init :: "nat \<Rightarrow> bar_sys" where
  "bar_init n = (lightweight_barrier_new, replicate n B_idle)"

text \<open>\<open>barrier_operation\<close>: an operation whose execution completes its barrier.\<close>

datatype barrier_operation_call = BO_execute | BO_wait milliseconds | BO_has_passed

fun barrier_operation :: "barrier_operation_call \<Rightarrow> bar_call" where
  "barrier_operation BO_execute = BC_complete"
| "barrier_operation (BO_wait timeout) = BC_wait timeout"
| "barrier_operation BO_has_passed = BC_was_completed"

section \<open>The invariant\<close>

definition bar_completed :: "lightweight_barrier \<Rightarrow> bool" where
  "bar_completed b \<longleftrightarrow> m_owner b = kCompleted \<or> (\<exists>u. m_owner b = Owner_waiter u) \<and> wt_done b"

fun bar_holds :: "bar_pc \<Rightarrow> bool" where
  "bar_holds (B_wt_test timeout) = True"
| "bar_holds B_wt_final = True"
| "bar_holds (B_wt_unlock r) = True"
| "bar_holds B_c_set = True"
| "bar_holds B_c_unlock = True"
| "bar_holds B_q_read = True"
| "bar_holds _ = False"

text \<open>Control states inside a method of the waiter object.\<close>

fun bar_in_waiter :: "bar_pc \<Rightarrow> bool" where
  "bar_in_waiter (B_wt_lock timeout) = True"
| "bar_in_waiter (B_blocked timeout) = True"
| "bar_in_waiter (B_relock timeout r) = True"
| "bar_in_waiter B_c_lock = True"
| "bar_in_waiter B_q_lock = True"
| "bar_in_waiter pc = bar_holds pc"

text \<open>What a control state says about the barrier, kept by the steps of other threads.\<close>

definition bar_pc_ok :: "lightweight_barrier \<Rightarrow> bar_pc \<Rightarrow> bool" where
  "bar_pc_ok b pc \<longleftrightarrow>
     (bar_in_waiter pc \<longrightarrow> (\<exists>u. m_owner b = Owner_waiter u)) \<and>
     (pc \<in> {B_ret True, B_wt_unlock True, B_c_unlock} \<longrightarrow> bar_completed b)"

lemma bar_local_cases:
  assumes "bar_local t e b pc = Some (b', pc')"
  obtains (call) c where "e = BE_call c" "b' = b" "pc' = bar_start c"
      "pc = B_idle \<or> pc = B_cret \<or> (\<exists>r. pc = B_ret r)"
  | (exec) "e = BE_step" "bar_exec t b pc = Some (b', pc')"
  | (cas_wait) timeout where "e = BE_cas_fail" "pc = B_wcas timeout" "m_owner b = kNoOwner"
      "b' = b" "pc' = B_null"
  | (cas_complete) "e = BE_cas_fail" "pc = B_ccas" "m_owner b = kNoOwner" "b' = b" "pc' = B_cret"
  | (wake) timeout r where "e \<noteq> BE_cas_fail" "pc = B_blocked timeout" "pc' = B_relock timeout r"
      "b' = b\<lparr>wt_cond := filter (\<lambda>v. v \<noteq> t) (wt_cond b)\<rparr>"
proof (cases e)
  case (BE_call c)
  then show thesis using assms by (intro call) (cases pc; simp)+
next
  case BE_step
  then show thesis using assms by (intro exec) simp_all
next
  case BE_cas_fail
  then show thesis using assms cas_wait cas_complete by (cases pc) (auto split: if_splits)
next
  case BE_wake
  then show thesis using assms by (cases pc) (auto intro: wake)
next
  case BE_timeout
  then show thesis using assms by (cases pc) (auto intro: wake split: if_splits)
qed

lemma bar_start_simps [simp]:
  "\<not> bar_holds (bar_start c)" "\<not> bar_in_waiter (bar_start c)"
  "bar_start c \<noteq> B_ret r" "bar_start c \<noteq> B_wt_unlock r" "bar_start c \<noteq> B_c_unlock"
  "bar_start c \<noteq> B_null" "bar_start c \<noteq> B_cret"
  by (cases c; simp)+

interpretation bar_mutex: mutex_client bar_local wt_mutex bar_holds
proof
  fix t e b pc b' pc'
  assume "bar_local t e b pc = Some (b', pc')" and "bar_holds pc \<longleftrightarrow> wt_mutex b = Some t"
  then show "(bar_holds pc' \<longleftrightarrow> wt_mutex b' = Some t) \<and>
       (wt_mutex b' = wt_mutex b \<or> wt_mutex b = None \<and> wt_mutex b' = Some t \<or>
        wt_mutex b = Some t \<and> wt_mutex b' = None)"
  proof (cases rule: bar_local_cases)
    case exec
    then show ?thesis
      using \<open>bar_holds pc \<longleftrightarrow> wt_mutex b = Some t\<close>
      by (cases pc) (auto split: if_splits barrier_owner.splits)
  qed auto
qed

text \<open>The pointer is written once, and a completed barrier stays completed.\<close>

lemma bar_local_mono:
  assumes "bar_local t e b pc = Some (b', pc')" and "bar_pc_ok b pc"
  shows "(m_owner b \<noteq> kNoOwner \<longrightarrow> m_owner b' = m_owner b) \<and>
         (bar_completed b \<longrightarrow> bar_completed b') \<and> bar_pc_ok b' pc'"
  using assms(1)
proof (cases rule: bar_local_cases)
  case exec
  show ?thesis
    using exec(2) assms(2)
    by (cases pc; auto simp: bar_completed_def bar_pc_ok_def split: if_splits barrier_owner.splits)
qed (use assms(2) in \<open>auto simp: bar_completed_def bar_pc_ok_def\<close>)

lemma bar_pc_ok_mono:
  assumes "bar_pc_ok b pc" and "m_owner b \<noteq> kNoOwner \<longrightarrow> m_owner b' = m_owner b"
    and "bar_completed b \<longrightarrow> bar_completed b'"
  shows "bar_pc_ok b' pc"
  using assms by (auto simp: bar_pc_ok_def)

definition bar_cond_inv :: "bar_sys \<Rightarrow> bool" where
  "bar_cond_inv s \<longleftrightarrow> (wt_done (fst s) \<longrightarrow> wt_cond (fst s) = [] \<and> m_owner (fst s) \<noteq> kNoOwner) \<and>
     (\<forall>t \<in> set (wt_cond (fst s)). t < length (snd s) \<and> (\<exists>timeout. snd s ! t = B_blocked timeout))"

definition bar_inv :: "bar_sys \<Rightarrow> bool" where
  "bar_inv s \<longleftrightarrow> bar_mutex.owner_inv s \<and> (\<forall>pc \<in> set (snd s). bar_pc_ok (fst s) pc)"

lemma bar_inv_step:
  assumes "bar_inv s" and step: "bar_step s ev = Some s'"
  shows "bar_inv s'"
  using step
proof (rule sys_step_Some)
  fix b ts t e b' pc'
  assume *: "s = (b, ts)" "ev = (t, e)" "t < length ts"
    "bar_local t e b (ts ! t) = Some (b', pc')" "s' = (b', ts[t := pc'])"
  have ok: "\<And>pc. pc \<in> set ts \<Longrightarrow> bar_pc_ok b pc" using assms(1) * by (auto simp: bar_inv_def)
  note m = bar_local_mono[OF *(4) ok[OF nth_mem[OF *(3)]]]
  have "bar_pc_ok b' pc" if "pc \<in> set (ts[t := pc'])" for pc
    using set_update_cases[OF that] m bar_pc_ok_mono[OF ok] by blast
  then show ?thesis
    using bar_mutex.owner_inv_step[OF _ step] assms(1) * by (simp add: bar_inv_def)
qed

interpretation bar_invariant: step_invariant bar_step ok bar_inv for ok
  by unfold_locales (rule bar_inv_step)

lemma bar_inv_init: "bar_inv (bar_init n)"
  by (auto simp: bar_inv_def bar_init_def lightweight_barrier_new_def bar_mutex.owner_inv_def
      bar_pc_ok_def)

lemmas bar_reach_inv = bar_invariant.reach_inv[OF _ bar_inv_init]

lemma bar_cond_local:
  assumes "bar_local t e b pc = Some (b', pc')"
  shows "set (wt_cond b') \<subseteq> set (wt_cond b) \<union> {t} \<and>
    (t \<in> set (wt_cond b') \<longrightarrow>
       (\<exists>timeout. pc' = B_blocked timeout) \<or> (\<forall>timeout. pc \<noteq> B_blocked timeout) \<and> t \<in> set (wt_cond b)) \<and>
    ((wt_done b \<longrightarrow> wt_cond b = [] \<and> m_owner b \<noteq> kNoOwner) \<longrightarrow> bar_pc_ok b pc \<longrightarrow>
       wt_done b' \<longrightarrow> wt_cond b' = [] \<and> m_owner b' \<noteq> kNoOwner)"
  using assms
proof (cases rule: bar_local_cases)
  case exec
  then show ?thesis
    by (cases pc) (auto simp: bar_pc_ok_def split: if_splits barrier_owner.splits)
qed (auto split: if_splits)

lemma bar_cond_inv_step:
  assumes "bar_cond_inv s" and "bar_inv s" and step: "bar_step s ev = Some s'"
  shows "bar_cond_inv s'"
  using step
proof (rule sys_step_Some)
  fix b ts t e b' pc'
  assume *: "s = (b, ts)" "ev = (t, e)" "t < length ts"
    "bar_local t e b (ts ! t) = Some (b', pc')" "s' = (b', ts[t := pc'])"
  have c: "wt_done b \<longrightarrow> wt_cond b = [] \<and> m_owner b \<noteq> kNoOwner"
    "\<And>u. u \<in> set (wt_cond b) \<Longrightarrow> u < length ts \<and> (\<exists>timeout. ts ! u = B_blocked timeout)"
    using assms(1) * by (auto simp: bar_cond_inv_def)
  have ok: "bar_pc_ok b (ts ! t)" using assms(2) * by (auto simp: bar_inv_def)
  note l = bar_cond_local[OF *(4)]
  have "u < length ts \<and> (\<exists>timeout. ts[t := pc'] ! u = B_blocked timeout)"
    if "u \<in> set (wt_cond b')" for u
    using that l c(2)[of u] *(3) by (cases "u = t") auto
  then show ?thesis using l c(1) ok * by (simp add: bar_cond_inv_def)
qed

interpretation bar_cond_invariant: step_invariant bar_step ok "\<lambda>s. bar_inv s \<and> bar_cond_inv s" for ok
  by unfold_locales (auto intro: bar_inv_step bar_cond_inv_step)

lemma bar_reach_cond:
  assumes "reach bar_step ok (bar_init n) s"
  shows "bar_cond_inv s"
proof -
  have "bar_cond_inv (bar_init n)"
    by (simp add: bar_cond_inv_def bar_init_def lightweight_barrier_new_def)
  then show ?thesis
    using bar_cond_invariant.reach_inv[OF assms] bar_inv_init by blast
qed

text \<open>Without spurious failures, \<open>complete\<close> takes effect before it returns.\<close>

definition bar_strong :: "tid \<times> bar_event \<Rightarrow> bool" where
  "bar_strong ev \<longleftrightarrow> snd ev \<noteq> BE_cas_fail"

definition bar_effect_inv :: "bar_sys \<Rightarrow> bool" where
  "bar_effect_inv s \<longleftrightarrow> bar_inv s \<and> B_null \<notin> set (snd s) \<and>
     (B_cret \<in> set (snd s) \<longrightarrow> bar_completed (fst s))"

lemma bar_effect_local:
  assumes "bar_local t e b pc = Some (b', pc')" and "bar_pc_ok b pc" and "e \<noteq> BE_cas_fail"
  shows "pc' \<noteq> B_null \<and> (pc' = B_cret \<longrightarrow> bar_completed b')"
  using assms(1)
proof (cases rule: bar_local_cases)
  case exec
  then show ?thesis using assms(2)
    by (cases pc) (auto simp: bar_completed_def bar_pc_ok_def split: if_splits barrier_owner.splits)
qed (use assms(3) in auto)

lemma bar_effect_inv_step:
  assumes "bar_effect_inv s" and "bar_strong ev" and step: "bar_step s ev = Some s'"
  shows "bar_effect_inv s'"
  using step
proof (rule sys_step_Some)
  fix b ts t e b' pc'
  assume *: "s = (b, ts)" "ev = (t, e)" "t < length ts"
    "bar_local t e b (ts ! t) = Some (b', pc')" "s' = (b', ts[t := pc'])"
  have i: "bar_inv s" "B_null \<notin> set ts" "B_cret \<in> set ts \<longrightarrow> bar_completed b"
    using assms(1) * by (auto simp: bar_effect_inv_def)
  have ok: "bar_pc_ok b (ts ! t)" using i(1) * by (auto simp: bar_inv_def)
  have "e \<noteq> BE_cas_fail" using assms(2) * by (simp add: bar_strong_def)
  note l = bar_effect_local[OF *(4) ok this] bar_local_mono[OF *(4) ok]
  show ?thesis
    using bar_inv_step[OF i(1) step] i(2,3) l * set_update_cases[of B_null ts t pc']
      set_update_cases[of B_cret ts t pc']
    by (auto simp: bar_effect_inv_def)
qed

interpretation bar_effect: step_invariant bar_step bar_strong bar_effect_inv
  by unfold_locales (rule bar_effect_inv_step)

lemma bar_effect_init: "bar_effect_inv (bar_init n)"
  using bar_inv_init[of n] by (auto simp: bar_effect_inv_def bar_init_def)

section \<open>A waiter returns once the barrier is completed\<close>

fun bar_waiting :: "bar_pc \<Rightarrow> bool" where
  "bar_waiting (B_wload timeout) = True"
| "bar_waiting (B_wcas timeout) = True"
| "bar_waiting (B_wt_lock timeout) = True"
| "bar_waiting (B_wt_test timeout) = True"
| "bar_waiting (B_blocked timeout) = True"
| "bar_waiting (B_relock timeout r) = True"
| "bar_waiting B_wt_final = True"
| "bar_waiting _ = False"

lemma bar_holder_steps: "bar_holds pc \<Longrightarrow> bar_exec t b pc \<noteq> None"
  by (cases pc) auto

fun bar_wait_steps :: "lightweight_barrier \<Rightarrow> bar_pc \<Rightarrow> nat" where
  "bar_wait_steps b (B_wload timeout) = (if m_owner b = kCompleted then 1 else 5)"
| "bar_wait_steps b (B_wcas timeout) = (if m_owner b = kCompleted then 1 else 4)"
| "bar_wait_steps b (B_blocked timeout) = 4"
| "bar_wait_steps b (B_wt_lock timeout) = 3"
| "bar_wait_steps b (B_relock timeout r) = 3"
| "bar_wait_steps b _ = 2"

lemma bar_wait_steps_le: "bar_wait_steps b pc \<le> 5"
  by (cases pc) auto

lemma bar_waiter_returns:
  assumes "bar_completed b" and "bar_pc_ok b pc" and "bar_waiting pc" and "t \<notin> set (wt_cond b)"
    and "wt_mutex b = (if bar_holds pc then Some t else None)"
  shows "\<exists>b'. solo (bar_exec t) (bar_wait_steps b pc) (b, pc) = Some (b', B_ret True)"
  using assms
  by (cases pc) (auto simp: bar_completed_def bar_pc_ok_def eval_nat_numeral split: barrier_owner.splits)

lemma bar_cond_empty:
  assumes "bar_inv (b, ts)" and "bar_cond_inv (b, ts)" and "bar_completed b"
  shows "wt_cond b = []"
proof (rule ccontr)
  assume "wt_cond b \<noteq> []"
  then obtain u where "u < length ts" "\<exists>timeout. ts ! u = B_blocked timeout"
    using assms(2) by (cases "wt_cond b") (auto simp: bar_cond_inv_def)
  then have "\<exists>v. m_owner b = Owner_waiter v"
    using assms(1) nth_mem by (fastforce simp: bar_inv_def bar_pc_ok_def)
  then show False
    using assms(2,3) \<open>wt_cond b \<noteq> []\<close> by (auto simp: bar_completed_def bar_cond_inv_def)
qed

section \<open>Properties\<close>

text \<open>
  In every execution, spurious failures included, \<open>wait\<close> and \<open>was_completed\<close> return
  true only if the barrier has been completed.
\<close>

theorem barrier_true_only_if_completed:
  assumes "reach bar_step (\<lambda>_. True) (bar_init n) s" and "B_ret True \<in> set (snd s)"
  shows "bar_completed (fst s)"
  using bar_reach_inv[OF assms(1)] assms(2) by (auto simp: bar_inv_def bar_pc_ok_def)

definition bar_demo_state :: bar_sys where
  "bar_demo_state =
     (\<lparr>m_owner = Owner_waiter 0, wt_done = True, wt_mutex = None, wt_cond = []\<rparr>,
      [B_ret True, B_cret])"

definition bar_demo :: "(tid \<times> bar_event) list" where
  "bar_demo =
     [(0, BE_call (BC_wait (-1))), (0, BE_step), (0, BE_step), (0, BE_step), (0, BE_step),
      (1, BE_call BC_complete), (1, BE_step), (1, BE_step), (1, BE_step), (1, BE_step),
      (0, BE_step), (0, BE_step), (0, BE_step), (0, BE_step)]"

lemma bar_demo_run: "run bar_step (bar_init 2) bar_demo = Some bar_demo_state"
  by (simp add: bar_demo_def bar_demo_state_def bar_init_def lightweight_barrier_new_def
      numeral_2_eq_2)

lemma bar_demo_reach: "list_all ok bar_demo \<Longrightarrow> reach bar_step ok (bar_init 2) bar_demo_state"
  by (rule reach_run[OF bar_demo_run])

theorem barrier_true_only_if_completed_witness: "bar_completed (fst bar_demo_state)"
  by (rule barrier_true_only_if_completed[OF bar_demo_reach])
     (simp_all add: bar_demo_def bar_demo_state_def)

text \<open>
  C19. On a machine whose \<open>compare_exchange_weak\<close> does not fail spuriously: when a call of
  \<open>complete\<close> has returned, the barrier is completed, and no thread ever dereferences the
  null owner.
\<close>

theorem barrier_complete_takes_effect:
  assumes "reach bar_step bar_strong (bar_init n) s"
  shows "(B_cret \<in> set (snd s) \<longrightarrow> bar_completed (fst s)) \<and> B_null \<notin> set (snd s)"
  using bar_effect.reach_inv[OF assms bar_effect_init] by (simp add: bar_effect_inv_def)

theorem barrier_complete_takes_effect_witness: "bar_completed (fst bar_demo_state)"
  by (rule barrier_complete_takes_effect[OF bar_demo_reach, THEN conjunct1, THEN mp])
     (simp_all add: bar_demo_def bar_strong_def bar_demo_state_def)

text \<open>
  C20. Once the barrier is completed, every call of \<open>wait\<close> returns: the waiting thread needs
  at most five more steps of its own and then returns true, or else the mutex of the
  waiter object is held by another thread, and that thread can take a step.
\<close>

theorem barrier_wait_returns:
  assumes "reach bar_step (\<lambda>_. True) (bar_init n) (b, ts)" and "bar_completed b"
    and "t < length ts" and "bar_waiting (ts ! t)"
  shows "(\<exists>k \<le> 5. \<exists>b'. solo (bar_exec t) k (b, ts ! t) = Some (b', B_ret True)) \<or>
         (\<exists>v. v \<noteq> t \<and> wt_mutex b = Some v \<and> bar_step (b, ts) (v, BE_step) \<noteq> None)"
proof -
  have inv: "bar_mutex.owner_inv (b, ts)" "bar_pc_ok b (ts ! t)" "bar_cond_inv (b, ts)"
    using bar_reach_inv[OF assms(1)] bar_reach_cond[OF assms(1)] assms(3)
    by (auto simp: bar_inv_def)
  show ?thesis
  proof (cases "wt_mutex b = None \<or> wt_mutex b = Some t")
    case True
    then have m: "wt_mutex b = (if bar_holds (ts ! t) then Some t else None)"
      using inv(1) assms(3) by (auto simp: bar_mutex.owner_inv_def)
    have "t \<notin> set (wt_cond b)"
      using bar_cond_empty[OF bar_reach_inv[OF assms(1)] inv(3) assms(2)] by simp
    from bar_waiter_returns[OF assms(2) inv(2) assms(4) this m] show ?thesis
      using bar_wait_steps_le by blast
  next
    case False
    then obtain v where "v \<noteq> t" "wt_mutex b = Some v" by auto
    moreover from this have "v < length ts" "bar_holds (ts ! v)"
      using inv(1) by (auto simp: bar_mutex.owner_inv_def)
    ultimately show ?thesis
      using bar_holder_steps[of "ts ! v" v b] unfolding sys_step_enabled by auto
  qed
qed

theorem barrier_wait_returns_witness:
  "(\<exists>k \<le> 5. \<exists>b'. solo (bar_exec 0) k (lightweight_barrier_new\<lparr>m_owner := kCompleted\<rparr>, B_wload 7)
      = Some (b', B_ret True)) \<or>
   (\<exists>v. v \<noteq> 0 \<and> wt_mutex (lightweight_barrier_new\<lparr>m_owner := kCompleted\<rparr>) = Some v \<and>
      bar_step (lightweight_barrier_new\<lparr>m_owner := kCompleted\<rparr>, [B_wload 7, B_cret]) (v, BE_step) \<noteq> None)"
proof -
  let ?b = "lightweight_barrier_new\<lparr>m_owner := kCompleted\<rparr>"
  have "reach bar_step (\<lambda>_. True) (bar_init 2) (?b, [B_wload 7, B_cret])"
    by (rule reach_run[where es = "[(1, BE_call BC_complete), (1, BE_step), (0, BE_call (BC_wait 7))]"])
       (simp_all add: bar_init_def lightweight_barrier_new_def numeral_2_eq_2)
  from barrier_wait_returns[OF this, of 0] show ?thesis
    by (simp add: bar_completed_def)
qed

text \<open>
  With a spurious failure the completion is lost: there is an execution in which a call
  of \<open>complete\<close> has returned, a thread that waits without a timeout is blocked, the
  barrier is not completed, and no thread can take a step. Another execution dereferences
  the null owner in \<open>wait\<close>.
\<close>

theorem barrier_weak_cas_loses_completion:
  "(\<exists>b. reach bar_step (\<lambda>_. True) (bar_init 2) (b, [B_cret, B_blocked (-1)]) \<and>
        \<not> bar_completed b \<and> (\<forall>t. bar_step (b, [B_cret, B_blocked (-1)]) (t, BE_step) = None)) \<and>
   (\<exists>b. reach bar_step (\<lambda>_. True) (bar_init 1) (b, [B_null]))"
proof
  let ?b = "\<lparr>m_owner = Owner_waiter 1, wt_done = False, wt_mutex = None, wt_cond = [1]\<rparr>"
  have "reach bar_step (\<lambda>_. True) (bar_init 2) (?b, [B_cret, B_blocked (-1)])"
    by (rule reach_run[where es = "[(0, BE_call BC_complete), (0, BE_cas_fail),
          (1, BE_call (BC_wait (-1))), (1, BE_step), (1, BE_step), (1, BE_step), (1, BE_step)]"])
       (simp_all add: bar_init_def lightweight_barrier_new_def numeral_2_eq_2)
  moreover have "bar_step (?b, [B_cret, B_blocked (-1)]) (t, BE_step) = None" for t
    by (cases t) (auto simp: less_Suc_eq nth_Cons')
  ultimately show "\<exists>b. reach bar_step (\<lambda>_. True) (bar_init 2) (b, [B_cret, B_blocked (-1)]) \<and>
        \<not> bar_completed b \<and> (\<forall>t. bar_step (b, [B_cret, B_blocked (-1)]) (t, BE_step) = None)"
    by (intro exI[of _ ?b]) (simp add: bar_completed_def)
  have "reach bar_step (\<lambda>_. True) (bar_init 1) (lightweight_barrier_new, [B_null])"
    by (rule reach_run[where es = "[(0, BE_call (BC_wait 0)), (0, BE_step), (0, BE_cas_fail)]"])
       (simp_all add: bar_init_def lightweight_barrier_new_def)
  then show "\<exists>b. reach bar_step (\<lambda>_. True) (bar_init 1) (b, [B_null])" by blast
qed

end
