(* ===== verification/Cancelable.thy ===== *)
theory Cancelable
  imports Barrier
begin

text \<open>
  The cancellation guard of timers, notifiers and signal handlers
  (\<open>include/xdispatch/impl/cancelable.h\<close>, \<open>src/cancelable.cpp\<close>): \<open>enter\<close>, \<open>leave\<close> and
  \<open>disable\<close>, with \<open>cancelable_scope\<close> as the control states between \<open>enter\<close> and the end of
  \<open>leave\<close>.

  The barrier is used through its specification: the flag \<open>can_barrier\<close> is
  \<open>bar_completed\<close> of theory \<open>Barrier\<close>, \<open>complete\<close> sets it and \<open>wait\<close> (without a timeout)
  returns once it is set. The thread-local set \<open>current_c\<close> contains this object exactly
  in the control states \<open>CP_body\<close> and \<open>CP_nested\<close>: \<open>enter\<close> inserts it and \<open>leave\<close> erases it
  before its \<open>compare_exchange\<close>.
\<close>

section \<open>The model\<close>

datatype active_state = active_disabled | active_enabled | active_running

record cancelable =
  m_active :: active_state
  can_barrier :: bool

definition cancelable_new :: cancelable where
  "cancelable_new = \<lparr>m_active = active_enabled, can_barrier = False\<rparr>"

datatype can_pc =
  CP_idle
| CP_enter
| CP_refused
| CP_body
| CP_nested
| CP_leave
| CP_complete
| CP_disable
| CP_dwait
| CP_dret active_state

datatype can_event = CE_enter | CE_disable | CE_leave | CE_step

text \<open>
  \<open>CE_enter\<close> constructs a \<open>cancelable_scope\<close>, \<open>CE_leave\<close> ends the guarded body, \<open>CE_disable\<close>
  calls \<open>disable\<close>, from outside (\<open>CP_disable\<close>) or from within the body (\<open>CP_nested\<close>, the
  recursion branch). A nested \<open>enter\<close> from within the body runs the same
  \<open>compare_exchange\<close>; the body goes on whether it is refused or not. A thread that was refused
  or has returned from \<open>disable\<close> goes on with its own work (\<open>CP_idle\<close>).
\<close>

fun can_exec :: "cancelable \<Rightarrow> can_pc \<Rightarrow> (cancelable \<times> can_pc) option" where
  "can_exec c CP_enter =
     (if m_active c = active_enabled then Some (c\<lparr>m_active := active_running\<rparr>, CP_body)
      else Some (c, CP_refused))"
| "can_exec c CP_nested = Some (c\<lparr>m_active := active_disabled\<rparr>, CP_body)"
| "can_exec c CP_leave =
     (if m_active c = active_running then Some (c\<lparr>m_active := active_enabled\<rparr>, CP_idle)
      else Some (c, CP_complete))"
| "can_exec c CP_complete = Some (c\<lparr>can_barrier := True\<rparr>, CP_idle)"
| "can_exec c CP_disable =
     (let current = m_active c
      in Some (c\<lparr>m_active := active_disabled\<rparr>,
               if current = active_running then CP_dwait else CP_dret current))"
| "can_exec c CP_dwait = (if can_barrier c then Some (c, CP_dret active_running) else None)"
| "can_exec c CP_refused = Some (c, CP_idle)"
| "can_exec c (CP_dret a) = Some (c, CP_idle)"
| "can_exec c _ = None"

fun can_local :: "tid \<Rightarrow> can_event \<Rightarrow> cancelable \<Rightarrow> can_pc \<Rightarrow> (cancelable \<times> can_pc) option" where
  "can_local t CE_enter c pc =
     (if pc \<in> {CP_idle, CP_refused} \<or> (\<exists>a. pc = CP_dret a) then Some (c, CP_enter)
      else if pc = CP_body
      then Some (if m_active c = active_enabled then c\<lparr>m_active := active_running\<rparr> else c, CP_body)
      else None)"
| "can_local t CE_disable c pc =
     (if pc \<in> {CP_idle, CP_refused} \<or> (\<exists>a. pc = CP_dret a) then Some (c, CP_disable)
      else if pc = CP_body then Some (c, CP_nested)
      else None)"
| "can_local t CE_leave c pc = (if pc = CP_body then Some (c, CP_leave) else None)"
| "can_local t CE_step c pc = can_exec c pc"

type_synonym can_sys = "(cancelable, can_pc) sys"

abbreviation can_step :: "can_sys \<Rightarrow> tid \<times> can_event \<Rightarrow> can_sys option" where
  "can_step \<equiv> sys_step can_local"

definition can_init :: "nat \<Rightarrow> can_sys" where
  "can_init n = (cancelable_new, replicate n CP_idle)"

section \<open>The invariant\<close>

fun can_inside :: "can_pc \<Rightarrow> bool" where
  "can_inside CP_body = True"
| "can_inside CP_nested = True"
| "can_inside CP_leave = True"
| "can_inside _ = False"

text \<open>
  \<open>n\<close> threads are between \<open>enter\<close> and the \<open>compare_exchange\<close> of \<open>leave\<close> (region \<open>True\<close>), \<open>m\<close>
  threads are about to complete the barrier (region \<open>False\<close>).
\<close>

definition can_weight :: "bool \<Rightarrow> can_pc \<Rightarrow> int" where
  "can_weight k pc = (if (if k then can_inside pc else pc = CP_complete) then 1 else 0)"

definition can_shared_ok :: "cancelable \<Rightarrow> int \<Rightarrow> int \<Rightarrow> bool" where
  "can_shared_ok c n m \<longleftrightarrow>
     (m_active c = active_enabled \<longrightarrow> n + m = 0) \<and> (m_active c = active_running \<longrightarrow> n = 1) \<and>
     n + m \<le> 1 \<and> (can_barrier c \<longrightarrow> m_active c = active_disabled \<and> n + m = 0)"

definition can_pc_ok :: "cancelable \<Rightarrow> int \<Rightarrow> can_pc \<Rightarrow> bool" where
  "can_pc_ok c m pc \<longleftrightarrow>
     (pc = CP_dwait \<longrightarrow> m_active c = active_disabled \<and> (can_barrier c \<or> m = 1)) \<and>
     (pc = CP_dret active_enabled \<longrightarrow> m_active c = active_disabled \<and> m = 0) \<and>
     (pc = CP_dret active_running \<longrightarrow> can_barrier c) \<and>
     (pc = CP_complete \<longrightarrow> m_active c = active_disabled)"

lemma can_local_ok:
  assumes "can_local t e c pc = Some (c', pc')"
    and "can_shared_ok c (n + can_weight True pc) (m + can_weight False pc)"
    and "can_pc_ok c (n + can_weight True pc + (m + can_weight False pc)) pc"
    and "0 \<le> n" "0 \<le> m"
  shows "can_shared_ok c' (n + can_weight True pc') (m + can_weight False pc') \<and>
         can_pc_ok c' (n + can_weight True pc' + (m + can_weight False pc')) pc' \<and>
         (\<forall>q. can_pc_ok c (n + can_weight True pc + (m + can_weight False pc)) q \<longrightarrow>
              can_pc_ok c' (n + can_weight True pc' + (m + can_weight False pc')) q)"
proof (cases e)
  case CE_enter
  then show ?thesis using assms
    by (cases pc; simp add: can_weight_def split: if_splits; simp add: can_shared_ok_def can_pc_ok_def; force)
next
  case CE_disable
  then show ?thesis using assms
    by (cases pc; simp add: can_weight_def split: if_splits; simp add: can_shared_ok_def can_pc_ok_def; force)
next
  case CE_leave
  then show ?thesis using assms
    by (simp add: can_weight_def split: if_splits; simp add: can_shared_ok_def can_pc_ok_def; force)
next
  case CE_step
  then show ?thesis using assms
    by (cases pc; cases "m_active c"; simp add: Let_def can_weight_def split: if_splits;
        simp add: can_shared_ok_def can_pc_ok_def; force)
qed

interpretation can_invariant: counting_system can_local ok can_weight
  "\<lambda>c n. can_shared_ok c (n True) (n False)" "\<lambda>c n. can_pc_ok c (n True + n False)" for ok
proof
  fix k pc show "0 \<le> can_weight k pc" by (simp add: can_weight_def)
next
  fix t e c pc c' pc' and n :: "bool \<Rightarrow> int"
  assume "can_local t e c pc = Some (c', pc')" "\<And>k. 0 \<le> n k"
    "can_shared_ok c (n True + can_weight True pc) (n False + can_weight False pc)"
    "can_pc_ok c (n True + can_weight True pc + (n False + can_weight False pc)) pc"
  from can_local_ok[OF this(1,3,4)] this(2)
  show "can_shared_ok c' (n True + can_weight True pc') (n False + can_weight False pc') \<and>
      can_pc_ok c' (n True + can_weight True pc' + (n False + can_weight False pc')) pc' \<and>
      (\<forall>p. (\<forall>k. can_weight k p \<le> n k) \<longrightarrow>
         can_pc_ok c (n True + can_weight True pc + (n False + can_weight False pc)) p \<longrightarrow>
         can_pc_ok c' (n True + can_weight True pc' + (n False + can_weight False pc')) p)" by simp
qed

abbreviation can_closing :: "can_pc list \<Rightarrow> int" where
  "can_closing ts \<equiv> tsum (can_weight True) ts + tsum (can_weight False) ts"

lemma can_reach_inv:
  assumes "reach can_step ok (can_init n) s"
  shows "can_shared_ok (fst s) (tsum (can_weight True) (snd s)) (tsum (can_weight False) (snd s))"
    and "\<And>pc. pc \<in> set (snd s) \<Longrightarrow> can_pc_ok (fst s) (can_closing (snd s)) pc"
proof -
  have "can_invariant.count_inv (can_init n)"
    unfolding can_invariant.count_inv_def
    by (auto simp: can_init_def cancelable_new_def can_shared_ok_def can_pc_ok_def can_weight_def)
  from can_invariant.reach_inv[OF assms this]
  show "can_shared_ok (fst s) (tsum (can_weight True) (snd s)) (tsum (can_weight False) (snd s))"
    and "\<And>pc. pc \<in> set (snd s) \<Longrightarrow> can_pc_ok (fst s) (can_closing (snd s)) pc"
    by (auto simp: can_invariant.count_inv_def)
qed

lemma can_closing_nonneg: "0 \<le> tsum (can_weight k) ts"
  by (rule tsum_nonneg) (simp add: can_weight_def)

section \<open>A disabled object stays quiet\<close>

definition can_quiet :: "can_sys \<Rightarrow> bool" where
  "can_quiet s \<longleftrightarrow> m_active (fst s) = active_disabled \<and> (\<forall>pc \<in> set (snd s). \<not> can_inside pc)"

lemma can_quiet_local:
  "can_local t e c pc = Some (c', pc') \<Longrightarrow> m_active c = active_disabled \<Longrightarrow> \<not> can_inside pc \<Longrightarrow>
     m_active c' = active_disabled \<and> \<not> can_inside pc'"
  by (cases e; cases pc) (auto simp: Let_def split: if_splits)

lemma can_quiet_step: "can_quiet s \<Longrightarrow> can_step s ev = Some s' \<Longrightarrow> can_quiet s'"
  by (erule sys_step_Some) (fastforce simp: can_quiet_def dest: can_quiet_local set_update_cases)

interpretation can_quiet: step_invariant can_step ok can_quiet for ok
  by unfold_locales (rule can_quiet_step)

lemma can_no_closing:
  assumes "can_closing ts = 0"
  shows "\<forall>pc \<in> set ts. \<not> can_inside pc"
proof -
  have "tsum (\<lambda>pc. if can_inside pc then 1 else 0) ts = 0"
    using assms can_closing_nonneg[of True ts] can_closing_nonneg[of False ts]
    by (simp add: can_weight_def[abs_def])
  then show ?thesis using tsum_none[of can_inside ts] by blast
qed

lemma can_disabled_quiet:
  assumes "reach can_step ok (can_init n) s"
    and "CP_dret a \<in> set (snd s)" and "a \<noteq> active_disabled"
  shows "can_quiet s"
proof -
  from can_reach_inv[OF assms(1)] assms(2,3)
  have "m_active (fst s) = active_disabled \<and> can_closing (snd s) = 0"
    unfolding can_shared_ok_def can_pc_ok_def by (cases a) auto
  then show ?thesis using can_no_closing[of "snd s"] by (simp add: can_quiet_def)
qed

lemma can_at_most_one:
  assumes "reach can_step ok (can_init n) s"
  shows "card {t. t < length (snd s) \<and> can_inside (snd s ! t)} \<le> 1"
proof -
  have "tsum (can_weight True) (snd s) \<le> 1"
    using can_reach_inv(1)[OF assms] can_closing_nonneg[of False "snd s"]
    unfolding can_shared_ok_def by linarith
  then have "tsum (\<lambda>pc. if can_inside pc then 1 else 0) (snd s) \<le> 1"
    by (simp add: can_weight_def[abs_def])
  then show ?thesis by (simp add: tsum_indicator)
qed

section \<open>Clients\<close>

text \<open>
  A component with a \<open>cancelable\<close> among its members: \<open>can_of\<close> selects it and \<open>pc_of\<close> says where
  a thread of the component is inside it. Every step of the component is a step of the
  \<open>cancelable\<close> or leaves it alone, so executions of the component are executions of it.
\<close>

definition can_moves :: "tid \<Rightarrow> cancelable \<Rightarrow> can_pc \<Rightarrow> cancelable \<Rightarrow> can_pc \<Rightarrow> bool" where
  "can_moves t c cp c' cp' \<longleftrightarrow> c' = c \<and> cp' = cp \<or> (\<exists>ce. can_local t ce c cp = Some (c', cp'))"

lemma can_moves_idle: "c' = c \<Longrightarrow> cp' = cp \<Longrightarrow> can_moves t c cp c' cp'"
  and can_moves_event: "can_local t ce c cp = Some (c', cp') \<Longrightarrow> can_moves t c cp c' cp'"
  unfolding can_moves_def by blast+

lemma can_moves_simps [simp]:
  "can_moves t c cp c cp" "can_moves t c CP_idle c CP_enter" "can_moves t c CP_idle c CP_disable"
  "can_moves t c CP_body c CP_nested" "can_moves t c CP_body c CP_leave"
  using can_moves_event[of t CE_enter c CP_idle c CP_enter] can_moves_event[of t CE_disable c CP_idle c CP_disable]
    can_moves_event[of t CE_disable c CP_body c CP_nested] can_moves_event[of t CE_leave c CP_body c CP_leave]
  by (simp_all add: can_moves_idle)

locale cancelable_client =
  fixes local :: "tid \<Rightarrow> 'e \<Rightarrow> 'sh \<Rightarrow> 'pc \<Rightarrow> ('sh \<times> 'pc) option"
    and can_of :: "'sh \<Rightarrow> cancelable"
    and pc_of :: "'pc \<Rightarrow> can_pc"
  assumes can_view:
    "local t e sh pc = Some (sh', pc') \<Longrightarrow> can_moves t (can_of sh) (pc_of pc) (can_of sh') (pc_of pc')"
begin

definition view :: "('sh, 'pc) sys \<Rightarrow> can_sys" where
  "view s = (can_of (fst s), map pc_of (snd s))"

lemma view_step:
  assumes "sys_step local s ev = Some s'"
  shows "view s' = view s \<or> (\<exists>ce. can_step (view s) ce = Some (view s'))"
  using assms
proof (rule sys_step_Some)
  fix sh ts t e sh' pc'
  assume *: "s = (sh, ts)" "ev = (t, e)" "t < length ts"
    "local t e sh (ts ! t) = Some (sh', pc')" "s' = (sh', ts[t := pc'])"
  show ?thesis
    using can_view[OF *(4)] unfolding can_moves_def
  proof
    assume "can_of sh' = can_of sh \<and> pc_of pc' = pc_of (ts ! t)"
    then have "map pc_of (ts[t := pc']) = map pc_of ts"
      using *(3) by (metis list_update_id map_update)
    then show ?thesis using * \<open>can_of sh' = can_of sh \<and> pc_of pc' = pc_of (ts ! t)\<close> by (simp add: view_def)
  next
    assume "\<exists>ce. can_local t ce (can_of sh) (pc_of (ts ! t)) = Some (can_of sh', pc_of pc')"
    then obtain ce where "can_local t ce (can_of sh) (pc_of (ts ! t)) = Some (can_of sh', pc_of pc')" ..
    then have "can_step (view s) (t, ce) = Some (view s')" using * by (simp add: view_def map_update)
    then show ?thesis by blast
  qed
qed

lemma view_reach: "reach (sys_step local) ok s0 s \<Longrightarrow> reach can_step (\<lambda>_. True) (view s0) (view s)"
proof (induction rule: reach.induct)
  case (reach_step s e t)
  from view_step[OF reach_step(3)] reach_step(4) show ?case by (auto intro: reach.reach_step)
qed simp

lemma client_exclusive:
  assumes "reach (sys_step local) ok s0 s" and "view s0 = can_init n"
  shows "card {t. t < length (snd s) \<and> can_inside (pc_of (snd s ! t))} \<le> 1"
proof -
  have "{t. t < length (snd s) \<and> can_inside (pc_of (snd s ! t))} =
      {t. t < length (snd (view s)) \<and> can_inside (snd (view s) ! t)}" by (auto simp: view_def)
  then show ?thesis using can_at_most_one[OF view_reach[OF assms(1), unfolded assms(2)]] by simp
qed

lemma client_disable_final:
  assumes "reach (sys_step local) ok s0 s" and "view s0 = can_init n"
    and "t < length (snd s)" "pc_of (snd s ! t) = CP_dret a" "a \<noteq> active_disabled"
    and "reach (sys_step local) ok s s'"
  shows "\<forall>pc \<in> set (snd s'). \<not> can_inside (pc_of pc)"
proof -
  have "CP_dret a \<in> set (snd (view s))" using assms(3,4) by (auto simp: view_def image_iff intro!: bexI[of _ "snd s ! t"])
  then have "can_quiet (view s)"
    using can_disabled_quiet[OF view_reach[OF assms(1), unfolded assms(2)]] assms(5) by blast
  then have "can_quiet (view s')" by (rule can_quiet.reach_inv[OF view_reach[OF assms(6)]])
  then show ?thesis by (simp add: can_quiet_def view_def)
qed

end

text \<open>The object is a client of itself.\<close>

interpretation can_self: cancelable_client can_local "\<lambda>c. c" "\<lambda>pc. pc"
  by unfold_locales (rule can_moves_event)

section \<open>Properties\<close>

text \<open>
  At most one thread at a time is between a successful \<open>enter\<close> and the end of its
  \<open>leave\<close>, however many threads enter and disable the object concurrently.
\<close>

theorem cancelable_exclusive:
  assumes "reach can_step (\<lambda>_. True) (can_init n) s"
  shows "card {t. t < length (snd s) \<and> can_inside (snd s ! t)} \<le> 1"
  by (rule can_at_most_one[OF assms])

definition can_demo_running :: can_sys where
  "can_demo_running = (\<lparr>m_active = active_running, can_barrier = False\<rparr>, [CP_idle, CP_body])"

theorem cancelable_exclusive_witness:
  "card {t. t < length (snd can_demo_running) \<and> can_inside (snd can_demo_running ! t)} \<le> 1"
proof (rule cancelable_exclusive)
  show "reach can_step (\<lambda>_. True) (can_init 2) can_demo_running"
    by (rule reach_run[where es = "[(1, CE_enter), (1, CE_step)]"])
       (simp_all add: can_demo_running_def can_init_def cancelable_new_def numeral_2_eq_2)
qed

text \<open>
  C21. When a \<open>disable\<close> from outside the body that found the object enabled or running has
  returned, the object is quiet: no thread is inside the body, and in no continuation of
  the execution does a thread ever get inside again.
\<close>

theorem cancelable_disable_is_final:
  assumes "reach can_step (\<lambda>_. True) (can_init n) s"
    and "CP_dret a \<in> set (snd s)" and "a \<noteq> active_disabled"
    and "reach can_step (\<lambda>_. True) s s'"
  shows "\<forall>pc \<in> set (snd s'). \<not> can_inside pc"
  using can_quiet.reach_inv[OF assms(4) can_disabled_quiet[OF assms(1-3)]] by (simp add: can_quiet_def)

definition can_demo_disabled :: can_sys where
  "can_demo_disabled =
     (\<lparr>m_active = active_disabled, can_barrier = True\<rparr>, [CP_dret active_running, CP_idle])"

lemma can_demo_disabled_reach: "reach can_step (\<lambda>_. True) (can_init 2) can_demo_disabled"
  by (rule reach_run[where es = "[(1, CE_enter), (1, CE_step), (0, CE_disable), (0, CE_step),
        (1, CE_leave), (1, CE_step), (1, CE_step), (0, CE_step)]"])
     (simp_all add: can_demo_disabled_def can_init_def cancelable_new_def numeral_2_eq_2)

theorem cancelable_disable_is_final_witness: "\<not> can_inside (snd can_demo_disabled ! 1)"
proof -
  have "\<forall>pc \<in> set (snd can_demo_disabled). \<not> can_inside pc"
    by (rule cancelable_disable_is_final[OF can_demo_disabled_reach _ _ reach_refl, of active_running])
       (simp_all add: can_demo_disabled_def)
  then show ?thesis by (rule bspec) (simp add: can_demo_disabled_def)
qed

text \<open>
  A thread that waits in \<open>disable\<close> is never stranded: it can return, or there is a
  thread inside the body, or one about to complete the barrier, and that thread can take
  its next step.
\<close>

theorem cancelable_disable_not_stranded:
  assumes "reach can_step (\<lambda>_. True) (can_init n) s"
    and "t < length (snd s)" and "snd s ! t = CP_dwait"
  shows "can_step s (t, CE_step) \<noteq> None \<or>
         (\<exists>u < length (snd s). (can_inside (snd s ! u) \<or> snd s ! u = CP_complete) \<and>
            (can_step s (u, CE_step) \<noteq> None \<or> can_step s (u, CE_leave) \<noteq> None))"
proof (cases "can_barrier (fst s)")
  case True
  then show ?thesis using assms(2,3) by (cases s) auto
next
  case False
  have "CP_dwait \<in> set (snd s)" using assms(2,3) by (metis nth_mem)
  then have "0 < can_closing (snd s)"
    using can_reach_inv(2)[OF assms(1)] False unfolding can_pc_ok_def by force
  then have "0 < tsum (can_weight True) (snd s) \<or> 0 < tsum (can_weight False) (snd s)" by linarith
  then obtain u where "u < length (snd s)" "can_inside (snd s ! u) \<or> snd s ! u = CP_complete"
    by (auto dest!: tsum_pos_member simp: can_weight_def split: if_splits)
  moreover from this have "can_step s (u, CE_step) \<noteq> None \<or> can_step s (u, CE_leave) \<noteq> None"
    by (cases s; cases "snd s ! u") auto
  ultimately show ?thesis by blast
qed

definition can_demo_waiting :: can_sys where
  "can_demo_waiting = (\<lparr>m_active = active_disabled, can_barrier = False\<rparr>, [CP_dwait, CP_body])"

theorem cancelable_disable_not_stranded_witness:
  "\<exists>u < length (snd can_demo_waiting). can_inside (snd can_demo_waiting ! u) \<or> snd can_demo_waiting ! u = CP_complete"
proof -
  have "reach can_step (\<lambda>_. True) (can_init 2) can_demo_waiting"
    by (rule reach_run[where es = "[(1, CE_enter), (1, CE_step), (0, CE_disable), (0, CE_step)]"])
       (simp_all add: can_demo_waiting_def can_init_def cancelable_new_def numeral_2_eq_2)
  from cancelable_disable_not_stranded[OF this, of 0] show ?thesis
    by (rule disjE) (simp_all add: can_demo_waiting_def, blast)
qed

text \<open>
  A second \<open>disable\<close> gives no such guarantee: there is an execution in which it has
  returned while another thread is still inside the body.
\<close>

theorem cancelable_second_disable_returns_early:
  "\<exists>c. reach can_step (\<lambda>_. True) (can_init 3) (c, [CP_dwait, CP_body, CP_dret active_disabled])"
proof -
  have "reach can_step (\<lambda>_. True) (can_init 3) (\<lparr>m_active = active_disabled, can_barrier = False\<rparr>,
      [CP_dwait, CP_body, CP_dret active_disabled])"
    by (rule reach_run[where es = "[(1, CE_enter), (1, CE_step), (0, CE_disable), (0, CE_step),
          (2, CE_disable), (2, CE_step)]"])
       (simp_all add: can_init_def cancelable_new_def numeral_3_eq_3)
  then show ?thesis by blast
qed

end
