(* ===== verification/Executor.thy ===== *)
theory Executor
  imports Types
begin

text \<open>
  The interface \<open>ithreadpool\<close> (\<open>include/xdispatch/impl/ithreadpool.h\<close>) as its clients rely on it: what was
  handed over waits or has been started, exactly once. \<open>good\<close> describes the states that the
  provider can reach. The thread pool, the manual thread and the operation queue each provide it; an
  executor that also keeps the order is \<open>ordered_executor\<close>.
\<close>

locale executor =
  fixes good :: "'s \<Rightarrow> bool"
    and submitted waiting started :: "'s \<Rightarrow> 'o list"
  assumes conserved: "good s \<Longrightarrow> mset (submitted s) = mset (waiting s) + mset (started s)"
begin

lemma started_once: "good s \<Longrightarrow> distinct (submitted s) \<Longrightarrow> distinct (started s) \<and> set (started s) \<inter> set (waiting s) = {}"
proof -
  assume "good s" "distinct (submitted s)"
  then have "distinct (waiting s @ started s)"
    using conserved[of s] by (metis mset_append mset_eq_imp_distinct_iff)
  then show ?thesis by auto
qed

lemma started_submitted: "good s \<Longrightarrow> x \<in> set (started s) \<Longrightarrow> x \<in> set (submitted s)"
  using conserved[of s] by (metis Un_iff set_mset_mset set_mset_union)

lemma all_started: "good s \<Longrightarrow> waiting s = [] \<Longrightarrow> mset (started s) = mset (submitted s)"
  using conserved[of s] by simp

end

locale ordered_executor =
  fixes good :: "'s \<Rightarrow> bool"
    and submitted waiting started :: "'s \<Rightarrow> 'o list"
  assumes in_order: "good s \<Longrightarrow> submitted s = started s @ waiting s"

sublocale ordered_executor \<subseteq> executor good submitted waiting started
  by unfold_locales (simp add: in_order)

context ordered_executor begin

lemma started_prefix: "good s \<Longrightarrow> started s = take (length (started s)) (submitted s)"
  by (simp add: in_order)

end

end
