(* ===== verification/Operation_Queue.thy ===== *)
theory Operation_Queue
  imports Executor
begin

text \<open>
  The queue that serialises operations onto a thread pool
  (\<open>src/naive/naive_operation_queue.{h,cpp}\<close>) together with the way its owner uses it
  (\<open>serial_queue_impl\<close> of \<open>src/naive/naive_serial_queue.cpp\<close>: attach in the constructor, detach in
  the destructor) and its end of life.

  The fields \<open>m_jobs\<close>, \<open>m_active_drain\<close>, \<open>m_is_attached\<close> and \<open>m_notify_operation\<close> are only
  accessed with \<open>m_CS\<close> held, so a critical section is one step between the steps that lock
  and unlock the mutex. \<open>drain\<close> releases the mutex around each job
  (\<open>inverse_lock_guard\<close>), and the job itself may call the queue again.

  Parts of the state that the code keeps elsewhere:

  \<^item> \<open>oq_pool\<close>: the \<open>m_notify_operation\<close>s handed to \<open>m_threadpool->execute\<close> that no thread has
    started yet (with their priority);
  \<^item> \<open>oq_refs\<close>: the calls of \<open>async\<close> in flight, each of which keeps the owner alive;
    \<open>oq_owner\<close>: the owner has not been destroyed; \<open>oq_handle\<close>: its \<open>shared_ptr\<close> to the queue exists;
  \<^item> \<open>oq_unregistered\<close>: \<open>operation_queue_manager::detach\<close> was called, so the manager may release
    its \<open>shared_ptr\<close>; \<open>oq_destroying\<close>, \<open>oq_freed\<close>: the destructor has started, has ended;
  \<^item> \<open>oq_accepted\<close>, \<open>oq_started\<close>: the jobs in the order in which they were queued and started;
    \<open>oq_dropped\<close>: \<open>notify_unsafe\<close> took the branch that prints the warning.
\<close>

section \<open>The model\<close>

datatype 'j oq_job = Job 'j | Detach_op

record 'j operation_queue =
  m_label :: string
  m_priority :: queue_priority
  m_jobs :: "'j oq_job option list"
  m_CS :: "tid option"
  m_active_drain :: bool
  m_is_attached :: bool
  m_notify_operation :: bool
  oq_pool :: "queue_priority list"
  oq_refs :: nat
  oq_owner :: bool
  oq_handle :: bool
  oq_unregistered :: bool
  oq_destroying :: bool
  oq_freed :: bool
  oq_accepted :: "'j oq_job list"
  oq_started :: "'j oq_job list"
  oq_dropped :: bool

definition operation_queue_new :: "string \<Rightarrow> queue_priority \<Rightarrow> 'j operation_queue" where
  "operation_queue_new label priority =
     \<lparr>m_label = label, m_priority = priority, m_jobs = [], m_CS = None, m_active_drain = False,
      m_is_attached = False, m_notify_operation = True, oq_pool = [], oq_refs = 0, oq_owner = True,
      oq_handle = True, oq_unregistered = False, oq_destroying = False, oq_freed = False,
      oq_accepted = [], oq_started = [], oq_dropped = False\<rparr>"

definition oq_attach :: "'j operation_queue \<Rightarrow> 'j operation_queue" where
  "oq_attach q = q\<lparr>m_is_attached := True\<rparr>"

definition serial_queue_new :: "string \<Rightarrow> queue_priority \<Rightarrow> 'j operation_queue" where
  "serial_queue_new label priority = oq_attach (operation_queue_new label priority)"

definition notify_unsafe :: "'j operation_queue \<Rightarrow> 'j operation_queue" where
  "notify_unsafe q =
     (if m_notify_operation q then q\<lparr>oq_pool := oq_pool q @ [m_priority q]\<rparr>
      else q\<lparr>oq_dropped := True\<rparr>)"

definition async_unsafe :: "'j oq_job \<Rightarrow> 'j operation_queue \<Rightarrow> 'j operation_queue" where
  "async_unsafe job q =
     (let notify = (m_jobs q = []);
          q = q\<lparr>m_jobs := m_jobs q @ [Some job], oq_accepted := oq_accepted q @ [job]\<rparr>
      in if notify \<and> m_is_attached q then notify_unsafe q else q)"

definition oq_detach :: "'j operation_queue \<Rightarrow> 'j operation_queue" where
  "oq_detach q =
     (let q = (if m_jobs q = [] then q\<lparr>oq_unregistered := True\<rparr> else async_unsafe Detach_op q)
      in q\<lparr>m_is_attached := False\<rparr>)"

definition kMaxOpsPerDrain :: nat where "kMaxOpsPerDrain = 10"

datatype 'j oq_call = OC_async 'j | OC_detach

text \<open>
  Control states. A call made from within a job carries the number of jobs that the
  interrupted \<open>drain\<close> still has to do.
\<close>

datatype 'j oq_pc =
  OQ_idle
| OQ_lock "'j oq_call" "nat option"
| OQ_crit "'j oq_call" "nat option"
| OQ_unlock "'j oq_call" "nat option"
| D_lock
| D_begin
| D_loop nat
| D_unlock nat "'j oq_job option"
| D_exec nat "'j oq_job option"
| D_body nat
| D_relock nat
| D_pop nat
| D_end
| D_finish
| T_relock nat
| T_pop nat
| T_finish
| T_threw
| X_lock
| X_crit
| X_unlock bool
| X_test bool

datatype 'j oq_event = OE_call "'j oq_call" | OE_drain | OE_destroy | OE_throw | OE_step

fun oq_continue :: "nat option \<Rightarrow> 'j oq_pc" where
  "oq_continue None = OQ_idle"
| "oq_continue (Some r) = D_body r"

fun oq_returned :: "'j oq_call \<Rightarrow> 'j operation_queue \<Rightarrow> 'j operation_queue" where
  "oq_returned (OC_async j) q = q\<lparr>oq_refs := oq_refs q - 1\<rparr>"
| "oq_returned OC_detach q = q\<lparr>oq_handle := False\<rparr>"

fun oq_body :: "'j oq_call \<Rightarrow> 'j operation_queue \<Rightarrow> 'j operation_queue" where
  "oq_body (OC_async j) q = async_unsafe (Job j) q"
| "oq_body OC_detach q = oq_detach q"

fun oq_acquire :: "tid \<Rightarrow> 'j operation_queue \<Rightarrow> 'j oq_pc \<Rightarrow> ('j operation_queue \<times> 'j oq_pc) option" where
  "oq_acquire t q pc = (if m_CS q = None then Some (q\<lparr>m_CS := Some t\<rparr>, pc) else None)"

fun oq_release :: "'j operation_queue \<Rightarrow> 'j oq_pc \<Rightarrow> ('j operation_queue \<times> 'j oq_pc) option" where
  "oq_release q pc = Some (q\<lparr>m_CS := None\<rparr>, pc)"

text \<open>The destructor of \<open>deferred_pop\<close>, with its two assertions.\<close>

definition deferred_pop :: "nat \<Rightarrow> 'j operation_queue \<Rightarrow> ('j operation_queue \<times> nat) option" where
  "deferred_pop remaining q =
     (if remaining > 0 \<and> m_jobs q \<noteq> [] then Some (q\<lparr>m_jobs := tl (m_jobs q)\<rparr>, remaining - 1) else None)"

text \<open>
  \<open>async\<close> and \<open>detach\<close> (\<open>OQ_\<close>), \<open>drain\<close> (\<open>D_\<close>), its unwinding when a job throws (\<open>T_\<close>) and the
  destructor (\<open>X_\<close>). The exception leaves \<open>drain\<close> after the destructors of
  \<open>inverse_lock_guard\<close>, \<open>deferred_pop\<close>, \<open>drain_scope\<close> and \<open>lock_guard\<close> have run.
\<close>

fun oq_exec :: "tid \<Rightarrow> 'j operation_queue \<Rightarrow> 'j oq_pc \<Rightarrow> ('j operation_queue \<times> 'j oq_pc) option" where
  "oq_exec t q (OQ_lock c k) = oq_acquire t q (OQ_crit c k)"
| "oq_exec t q (OQ_crit c k) = Some (oq_body c q, OQ_unlock c k)"
| "oq_exec t q (OQ_unlock c k) = oq_release (oq_returned c q) (oq_continue k)"
| "oq_exec t q D_lock = oq_acquire t q D_begin"
| "oq_exec t q D_begin =
     Some (q\<lparr>m_active_drain := True\<rparr>, D_loop (min (length (m_jobs q)) kMaxOpsPerDrain))"
| "oq_exec t q (D_loop remaining) =
     (if remaining = 0 then Some (q, D_end)
      else case m_jobs q of
             [] \<Rightarrow> None
           | job # rest \<Rightarrow>
               Some (q\<lparr>m_jobs := None # rest,
                       oq_started := oq_started q @ (case job of None \<Rightarrow> [] | Some j \<Rightarrow> [j])\<rparr>,
                     D_unlock remaining job))"
| "oq_exec t q (D_unlock remaining job) = oq_release q (D_exec remaining job)"
| "oq_exec t q (D_exec remaining job) =
     (case job of
        None \<Rightarrow> Some (q, D_relock remaining)
      | Some Detach_op \<Rightarrow> Some (q\<lparr>oq_unregistered := True\<rparr>, D_relock remaining)
      | Some (Job j) \<Rightarrow> Some (q, D_body remaining))"
| "oq_exec t q (D_body remaining) = Some (q, D_relock remaining)"
| "oq_exec t q (D_relock remaining) = oq_acquire t q (D_pop remaining)"
| "oq_exec t q (D_pop remaining) =
     (case deferred_pop remaining q of None \<Rightarrow> None | Some (q', r) \<Rightarrow> Some (q', D_loop r))"
| "oq_exec t q D_end =
     Some ((if m_jobs q = [] then q else notify_unsafe q)\<lparr>m_active_drain := False\<rparr>, D_finish)"
| "oq_exec t q D_finish = oq_release q OQ_idle"
| "oq_exec t q (T_relock remaining) = oq_acquire t q (T_pop remaining)"
| "oq_exec t q (T_pop remaining) =
     (case deferred_pop remaining q of
        None \<Rightarrow> None | Some (q', r) \<Rightarrow> Some (q'\<lparr>m_active_drain := False\<rparr>, T_finish))"
| "oq_exec t q T_finish = oq_release q T_threw"
| "oq_exec t q X_lock = oq_acquire t q X_crit"
| "oq_exec t q X_crit = Some (q\<lparr>m_notify_operation := False\<rparr>, X_unlock (m_active_drain q))"
| "oq_exec t q (X_unlock active_drain) = oq_release q (X_test active_drain)"
| "oq_exec t q (X_test active_drain) =
     (if active_drain then Some (q, X_lock) else Some (q\<lparr>oq_freed := True\<rparr>, OQ_idle))"
| "oq_exec t q _ = None"

text \<open>
  A call of \<open>async\<close> needs the owner and takes a reference to it; \<open>detach\<close> is called by the
  destructor of the owner, once no reference is left. The destructor of the queue runs
  after the manager has been asked to drop its pointer and the owner has dropped its own.
\<close>

fun oq_begin_call ::
  "'j oq_call \<Rightarrow> nat option \<Rightarrow> 'j operation_queue \<Rightarrow> ('j operation_queue \<times> 'j oq_pc) option" where
  "oq_begin_call (OC_async j) k q =
     (if oq_owner q then Some (q\<lparr>oq_refs := oq_refs q + 1\<rparr>, OQ_lock (OC_async j) k) else None)"
| "oq_begin_call OC_detach k q =
     (if oq_owner q \<and> oq_refs q = 0 then Some (q\<lparr>oq_owner := False\<rparr>, OQ_lock OC_detach k) else None)"

fun oq_local ::
  "tid \<Rightarrow> 'j oq_event \<Rightarrow> 'j operation_queue \<Rightarrow> 'j oq_pc \<Rightarrow> ('j operation_queue \<times> 'j oq_pc) option" where
  "oq_local t (OE_call c) q OQ_idle = oq_begin_call c None q"
| "oq_local t (OE_call c) q (D_body r) = oq_begin_call c (Some r) q"
| "oq_local t (OE_call c) q _ = None"
| "oq_local t OE_drain q OQ_idle =
     (case oq_pool q of [] \<Rightarrow> None | p # ps \<Rightarrow> Some (q\<lparr>oq_pool := ps\<rparr>, D_lock))"
| "oq_local t OE_drain q _ = None"
| "oq_local t OE_destroy q OQ_idle =
     (if oq_unregistered q \<and> \<not> oq_handle q \<and> \<not> oq_destroying q
      then Some (q\<lparr>oq_destroying := True\<rparr>, X_lock) else None)"
| "oq_local t OE_destroy q _ = None"
| "oq_local t OE_throw q (D_body r) = Some (q, T_relock r)"
| "oq_local t OE_throw q _ = None"
| "oq_local t OE_step q pc = oq_exec t q pc"

type_synonym 'j oq_sys = "('j operation_queue, 'j oq_pc) sys"

abbreviation oq_step :: "'j oq_sys \<Rightarrow> tid \<times> 'j oq_event \<Rightarrow> 'j oq_sys option" where
  "oq_step \<equiv> sys_step oq_local"

definition oq_init :: "string \<Rightarrow> queue_priority \<Rightarrow> nat \<Rightarrow> 'j oq_sys" where
  "oq_init label priority n = (serial_queue_new label priority, replicate n OQ_idle)"

definition oq_no_throw :: "tid \<times> 'j oq_event \<Rightarrow> bool" where
  "oq_no_throw ev \<longleftrightarrow> snd ev \<noteq> OE_throw"

lemma oq_local_cases:
  assumes "oq_local t e q pc = Some (q', pc')"
  obtains (call) c k where "e = OE_call c" "oq_begin_call c k q = Some (q', pc')" "pc = oq_continue k"
  | (drain) p ps where "e = OE_drain" "pc = OQ_idle" "pc' = D_lock" "oq_pool q = p # ps"
      "q' = q\<lparr>oq_pool := ps\<rparr>"
  | (destroy) "e = OE_destroy" "pc = OQ_idle" "pc' = X_lock" "q' = q\<lparr>oq_destroying := True\<rparr>"
      "oq_unregistered q" "\<not> oq_handle q" "\<not> oq_destroying q"
  | (thrown) r where "e = OE_throw" "pc = D_body r" "pc' = T_relock r" "q' = q"
  | (exec) "e = OE_step" "oq_exec t q pc = Some (q', pc')"
proof (cases e)
  case (OE_call c)
  then show thesis using assms call[of c None] call[of c "Some r" for r] by (cases pc) auto
next
  case OE_drain
  then show thesis using assms drain by (cases pc) (auto split: list.splits)
next
  case OE_destroy
  then show thesis using assms destroy by (cases pc) (auto split: if_splits)
next
  case OE_throw
  then show thesis using assms thrown by (cases pc) auto
next
  case OE_step
  then show thesis using assms exec by simp
qed

fun oq_holds :: "'j oq_pc \<Rightarrow> bool" where
  "oq_holds (OQ_crit c k) = True"
| "oq_holds (OQ_unlock c k) = True"
| "oq_holds D_begin = True"
| "oq_holds (D_loop r) = True"
| "oq_holds (D_unlock r j) = True"
| "oq_holds (D_pop r) = True"
| "oq_holds D_end = True"
| "oq_holds D_finish = True"
| "oq_holds (T_pop r) = True"
| "oq_holds T_finish = True"
| "oq_holds X_crit = True"
| "oq_holds (X_unlock b) = True"
| "oq_holds _ = False"

lemma oq_ops_CS [simp]:
  "m_CS (notify_unsafe q) = m_CS q" "m_CS (async_unsafe j q) = m_CS q" "m_CS (oq_detach q) = m_CS q"
  "m_CS (oq_body c q) = m_CS q" "m_CS (oq_returned c q) = m_CS q"
  by (auto simp: notify_unsafe_def async_unsafe_def oq_detach_def Let_def) (cases c; simp add: notify_unsafe_def async_unsafe_def oq_detach_def Let_def)+

lemma oq_continue_holds [simp]: "\<not> oq_holds (oq_continue k)"
  by (cases k) auto

interpretation oq_mutex: mutex_client oq_local m_CS oq_holds
proof
  fix t e and q :: "'j operation_queue" and pc q' pc'
  assume l: "oq_local t e q pc = Some (q', pc')" and h: "oq_holds pc \<longleftrightarrow> m_CS q = Some t"
  from l show "(oq_holds pc' \<longleftrightarrow> m_CS q' = Some t) \<and>
       (m_CS q' = m_CS q \<or> m_CS q = None \<and> m_CS q' = Some t \<or> m_CS q = Some t \<and> m_CS q' = None)"
  proof (cases rule: oq_local_cases)
    case (call c k)
    then show ?thesis using h by (cases c; cases k) (auto split: if_splits)
  next
    case exec
    then show ?thesis using h
      by (cases pc) (auto simp: deferred_pop_def split: if_splits list.splits option.splits oq_job.splits)
  qed (use h in auto)
qed

section \<open>The invariant\<close>

fun oq_draining :: "'j oq_pc \<Rightarrow> bool" where
  "oq_draining D_lock = True"
| "oq_draining D_begin = True"
| "oq_draining (D_loop r) = True"
| "oq_draining (D_unlock r j) = True"
| "oq_draining (D_exec r j) = True"
| "oq_draining (D_body r) = True"
| "oq_draining (D_relock r) = True"
| "oq_draining (D_pop r) = True"
| "oq_draining D_end = True"
| "oq_draining (OQ_lock c k) = (k \<noteq> None)"
| "oq_draining (OQ_crit c k) = (k \<noteq> None)"
| "oq_draining (OQ_unlock c k) = (k \<noteq> None)"
| "oq_draining _ = False"

fun oq_in_async :: "'j oq_pc \<Rightarrow> bool" where
  "oq_in_async (OQ_lock c k) = (c \<noteq> OC_detach)"
| "oq_in_async (OQ_crit c k) = (c \<noteq> OC_detach)"
| "oq_in_async (OQ_unlock c k) = (c \<noteq> OC_detach)"
| "oq_in_async _ = False"

fun oq_before_detach :: "'j oq_pc \<Rightarrow> bool" where
  "oq_before_detach (OQ_lock c k) = (c = OC_detach)"
| "oq_before_detach (OQ_crit c k) = (c = OC_detach)"
| "oq_before_detach _ = False"

fun oq_in_detach :: "'j oq_pc \<Rightarrow> bool" where
  "oq_in_detach (OQ_unlock c k) = (c = OC_detach)"
| "oq_in_detach pc = oq_before_detach pc"

abbreviation oq_n :: "('j oq_pc \<Rightarrow> bool) \<Rightarrow> 'j oq_pc \<Rightarrow> int" where
  "oq_n P pc \<equiv> (if P pc then 1 else 0)"

definition oq_waiting :: "'j oq_job option list \<Rightarrow> 'j oq_job list" where
  "oq_waiting jobs = concat (map (\<lambda>x. case x of None \<Rightarrow> [] | Some j \<Rightarrow> [j]) jobs)"

text \<open>
  The owner and the end of life: \<open>a\<close> calls of \<open>async\<close> are in flight, \<open>d\<close> calls of \<open>detach\<close>
  have not done their work yet, \<open>e\<close> have not returned.
\<close>

definition oq_life_ok :: "'j operation_queue \<Rightarrow> int \<Rightarrow> int \<Rightarrow> int \<Rightarrow> bool" where
  "oq_life_ok q a d e \<longleftrightarrow>
     int (oq_refs q) = a \<and> (\<not> oq_owner q \<longrightarrow> a = 0) \<and>
     (oq_owner q \<longrightarrow> m_is_attached q \<and> oq_handle q \<and> e = 0) \<and>
     (\<not> oq_owner q \<and> m_is_attached q \<longrightarrow> d = 1) \<and> (\<not> m_is_attached q \<longrightarrow> d = 0) \<and>
     (\<not> oq_owner q \<and> oq_handle q \<longrightarrow> e = 1) \<and> (\<not> oq_handle q \<longrightarrow> e = 0) \<and>
     (oq_unregistered q \<longrightarrow> \<not> m_is_attached q) \<and>
     (\<not> oq_destroying q \<longrightarrow> m_notify_operation q) \<and>
     (oq_destroying q \<longrightarrow> oq_unregistered q \<and> \<not> oq_handle q) \<and>
     (oq_freed q \<longrightarrow> oq_destroying q) \<and> \<not> oq_dropped q"

text \<open>After \<open>detach\<close>, the final operation is queued or has been executed.\<close>

definition oq_detach_queued :: "'j operation_queue \<Rightarrow> bool" where
  "oq_detach_queued q \<longleftrightarrow>
     (\<not> m_is_attached q \<longrightarrow> oq_unregistered q \<or> Some Detach_op \<in> set (m_jobs q))"

text \<open>The token: \<open>w\<close> threads are in \<open>drain\<close>.\<close>

definition oq_token_ok :: "'j operation_queue \<Rightarrow> int \<Rightarrow> bool" where
  "oq_token_ok q w \<longleftrightarrow>
     int (length (oq_pool q)) + w \<le> 1 \<and>
     (m_jobs q \<noteq> [] \<longrightarrow> int (length (oq_pool q)) + w = 1) \<and>
     (oq_pool q \<noteq> [] \<longrightarrow> m_jobs q \<noteq> [] \<and> \<not> oq_unregistered q) \<and>
     (w = 0 \<longrightarrow> \<not> m_active_drain q \<and> None \<notin> set (m_jobs q) \<and> oq_detach_queued q) \<and>
     (w \<noteq> 0 \<and> \<not> m_active_drain q \<longrightarrow> m_jobs q \<noteq> [] \<and> \<not> oq_unregistered q)"

text \<open>The jobs: first in, first out, and \<open>Detach_op\<close> is the last one.\<close>

definition oq_jobs_ok :: "'j operation_queue \<Rightarrow> bool" where
  "oq_jobs_ok q \<longleftrightarrow>
     oq_accepted q = oq_started q @ oq_waiting (m_jobs q) \<and>
     None \<notin> set (tl (m_jobs q)) \<and>
     Some Detach_op \<notin> set (butlast (m_jobs q)) \<and>
     (Some Detach_op \<in> set (m_jobs q) \<longrightarrow> \<not> m_is_attached q \<and> \<not> oq_unregistered q)"

definition oq_slot_ok :: "'j operation_queue \<Rightarrow> nat \<Rightarrow> bool" where
  "oq_slot_ok q r \<longleftrightarrow>
     m_active_drain q \<and> 0 < r \<and> r \<le> kMaxOpsPerDrain \<and> r \<le> length (m_jobs q) \<and>
     m_jobs q \<noteq> [] \<and> hd (m_jobs q) = None"

fun oq_pc_ok :: "'j operation_queue \<Rightarrow> 'j oq_pc \<Rightarrow> bool" where
  "oq_pc_ok q (OQ_lock c k) =
     (k \<noteq> None \<longrightarrow> oq_slot_ok q (the k) \<and> oq_detach_queued q \<and> \<not> oq_unregistered q)"
| "oq_pc_ok q (OQ_crit c k) =
     (k \<noteq> None \<longrightarrow> oq_slot_ok q (the k) \<and> oq_detach_queued q \<and> \<not> oq_unregistered q)"
| "oq_pc_ok q (OQ_unlock c k) =
     (k \<noteq> None \<longrightarrow> oq_slot_ok q (the k) \<and> oq_detach_queued q \<and> \<not> oq_unregistered q)"
| "oq_pc_ok q D_lock = (None \<notin> set (m_jobs q) \<and> oq_detach_queued q \<and> \<not> oq_unregistered q \<and> m_jobs q \<noteq> [])"
| "oq_pc_ok q D_begin = (None \<notin> set (m_jobs q) \<and> oq_detach_queued q \<and> \<not> oq_unregistered q \<and> m_jobs q \<noteq> [])"
| "oq_pc_ok q (D_loop r) =
     (None \<notin> set (m_jobs q) \<and> oq_detach_queued q \<and> m_active_drain q \<and>
      r \<le> kMaxOpsPerDrain \<and> r \<le> length (m_jobs q) \<and> (oq_unregistered q \<longrightarrow> m_jobs q = []))"
| "oq_pc_ok q (D_unlock r j) =
     (oq_slot_ok q r \<and> \<not> oq_unregistered q \<and>
      (if j = Some Detach_op then \<not> m_is_attached q \<and> m_jobs q = [None] else oq_detach_queued q))"
| "oq_pc_ok q (D_exec r j) =
     (oq_slot_ok q r \<and> \<not> oq_unregistered q \<and>
      (if j = Some Detach_op then \<not> m_is_attached q \<and> m_jobs q = [None] else oq_detach_queued q))"
| "oq_pc_ok q (D_body r) = (oq_slot_ok q r \<and> oq_detach_queued q \<and> \<not> oq_unregistered q)"
| "oq_pc_ok q (D_relock r) =
     (oq_slot_ok q r \<and> oq_detach_queued q \<and> (oq_unregistered q \<longrightarrow> m_jobs q = [None]))"
| "oq_pc_ok q (D_pop r) =
     (oq_slot_ok q r \<and> oq_detach_queued q \<and> (oq_unregistered q \<longrightarrow> m_jobs q = [None]))"
| "oq_pc_ok q D_end =
     (None \<notin> set (m_jobs q) \<and> oq_detach_queued q \<and> m_active_drain q \<and> (oq_unregistered q \<longrightarrow> m_jobs q = []))"
| "oq_pc_ok q X_lock = oq_destroying q"
| "oq_pc_ok q X_crit = oq_destroying q"
| "oq_pc_ok q (X_unlock b) = (oq_destroying q \<and> (\<not> b \<longrightarrow> \<not> m_active_drain q))"
| "oq_pc_ok q (X_test b) = (oq_destroying q \<and> (\<not> b \<longrightarrow> \<not> m_active_drain q))"
| "oq_pc_ok q OQ_idle = True"
| "oq_pc_ok q D_finish = True"
| "oq_pc_ok q _ = False"

lemmas oq_ok_defs = oq_life_ok_def oq_token_ok_def oq_jobs_ok_def oq_slot_ok_def oq_detach_queued_def

lemma oq_waiting_simps [simp]:
  "oq_waiting [] = []"
  "oq_waiting (x # jobs) = (case x of None \<Rightarrow> [] | Some j \<Rightarrow> [j]) @ oq_waiting jobs"
  "oq_waiting (jobs @ [Some j]) = oq_waiting jobs @ [j]"
  by (auto simp: oq_waiting_def)

text \<open>What a step of a thread needs to know and keeps.\<close>

definition oq_all_ok :: "'j operation_queue \<Rightarrow> int \<Rightarrow> int \<Rightarrow> int \<Rightarrow> int \<Rightarrow> bool" where
  "oq_all_ok q a d e w \<longleftrightarrow> oq_life_ok q a d e \<and> oq_token_ok q w \<and> oq_jobs_ok q"

lemma oq_body_simps:
  "oq_all_ok q a d e w \<Longrightarrow> oq_owner q \<Longrightarrow>
     oq_body (OC_async j) q =
       q\<lparr>m_jobs := m_jobs q @ [Some (Job j)], oq_accepted := oq_accepted q @ [Job j],
         oq_pool := oq_pool q @ (if m_jobs q = [] then [m_priority q] else [])\<rparr>"
  "m_jobs q = [] \<Longrightarrow> oq_body OC_detach q = q\<lparr>oq_unregistered := True, m_is_attached := False\<rparr>"
  "m_jobs q \<noteq> [] \<Longrightarrow> oq_body OC_detach q =
     q\<lparr>m_jobs := m_jobs q @ [Some Detach_op], oq_accepted := oq_accepted q @ [Detach_op],
       m_is_attached := False\<rparr>"
  by (auto simp: oq_all_ok_def oq_life_ok_def async_unsafe_def notify_unsafe_def oq_detach_def)

lemma oq_async_ok:
  assumes "oq_all_ok q (a + 1) d e w" and "0 \<le> a" "0 \<le> w" and "m_jobs q = [] \<Longrightarrow> w = 0"
  shows "oq_all_ok (oq_body (OC_async j) q) (a + 1) d e w"
proof -
  have o: "oq_owner q" "\<not> oq_unregistered q" "m_is_attached q"
    using assms by (auto simp: oq_all_ok_def oq_life_ok_def)
  have "Some Detach_op \<notin> set (m_jobs q)" "None \<notin> set (tl (m_jobs q))"
    using assms(1) o by (auto simp: oq_all_ok_def oq_jobs_ok_def)
  then show ?thesis
    using assms o unfolding oq_body_simps(1)[OF assms(1) o(1)] oq_all_ok_def
    by (cases "m_jobs q") (auto simp: oq_ok_defs)
qed

lemma oq_detach_ok:
  assumes "oq_all_ok q a (d + 1) (e + 1) w" and "0 \<le> d" "0 \<le> a" "d \<le> e" "0 \<le> w"
  shows "oq_all_ok (oq_body OC_detach q) a d (e + 1) w"
proof -
  have o: "\<not> oq_owner q" "\<not> oq_unregistered q" "m_is_attached q" "Some Detach_op \<notin> set (m_jobs q)"
    using assms by (auto simp: oq_all_ok_def oq_life_ok_def oq_jobs_ok_def)
  show ?thesis
  proof (cases "m_jobs q = []")
    case True
    show ?thesis using assms o True unfolding oq_body_simps(2)[OF True] oq_all_ok_def
      by (auto simp: oq_ok_defs)
  next
    case False
    show ?thesis using assms o False unfolding oq_body_simps(3)[OF False] oq_all_ok_def
      by (cases "m_jobs q") (auto simp: oq_ok_defs)
  qed
qed

lemma oq_async_others:
  assumes "oq_all_ok q (a + 1) d e w" and "0 \<le> a" and "oq_pc_ok q p"
  shows "oq_pc_ok (oq_body (OC_async j) q) p"
proof -
  have o: "oq_owner q" "\<not> oq_unregistered q" "m_is_attached q"
    using assms by (auto simp: oq_all_ok_def oq_life_ok_def)
  show ?thesis
    using assms(3) o unfolding oq_body_simps(1)[OF assms(1) o(1)]
    by (cases p) (auto simp: oq_slot_ok_def oq_detach_queued_def)
qed

lemma oq_detach_others:
  assumes "oq_all_ok q a (d + 1) e w" and "0 \<le> d" "d + 1 \<le> e" and "oq_pc_ok q p"
  shows "oq_pc_ok (oq_body OC_detach q) p"
proof -
  have o: "\<not> oq_owner q" "\<not> oq_unregistered q" "m_is_attached q" "Some Detach_op \<notin> set (m_jobs q)"
    using assms by (auto simp: oq_all_ok_def oq_life_ok_def oq_jobs_ok_def)
  show ?thesis
  proof (cases "m_jobs q = []")
    case True
    show ?thesis using assms(4) o True unfolding oq_body_simps(2)[OF True]
      by (cases p) (auto simp: oq_slot_ok_def oq_detach_queued_def)
  next
    case False
    show ?thesis using assms(4) o False unfolding oq_body_simps(3)[OF False]
      by (cases p) (auto simp: oq_slot_ok_def oq_detach_queued_def)
  qed
qed

definition oq_kept :: "'j operation_queue \<Rightarrow> 'j operation_queue \<Rightarrow> bool" where
  "oq_kept q q' \<longleftrightarrow>
     m_jobs q' = m_jobs q \<and> m_active_drain q' = m_active_drain q \<and> m_is_attached q' = m_is_attached q \<and>
     oq_unregistered q' = oq_unregistered q \<and> (oq_destroying q \<longrightarrow> oq_destroying q')"

lemma oq_kept_pc_ok: "oq_kept q q' \<Longrightarrow> oq_pc_ok q p \<Longrightarrow> oq_pc_ok q' p"
  by (cases p) (auto simp: oq_kept_def oq_slot_ok_def oq_detach_queued_def)

lemma oq_call_life:
  assumes "oq_begin_call c k q = Some (q', pc')" and "oq_life_ok q a d e" and "0 \<le> d" "d \<le> e"
  shows "oq_life_ok q' (a + oq_n oq_in_async pc') (d + oq_n oq_before_detach pc')
           (e + oq_n oq_in_detach pc')"
  using assms by (cases c) (auto simp: oq_life_ok_def split: if_splits)

lemma oq_call_kept:
  assumes "oq_begin_call c k q = Some (q', pc')"
  shows "oq_kept q q' \<and> oq_token_ok q' w = oq_token_ok q w \<and> oq_jobs_ok q' = oq_jobs_ok q"
  using assms
proof (cases c)
  case (OC_async j)
  with assms have "q' = q\<lparr>oq_refs := oq_refs q + 1\<rparr>" by (simp split: if_splits)
  then show ?thesis by (simp add: oq_kept_def oq_token_ok_def oq_jobs_ok_def oq_detach_queued_def)
next
  case OC_detach
  with assms have "q' = q\<lparr>oq_owner := False\<rparr>" by (simp split: if_splits)
  then show ?thesis by (simp add: oq_kept_def oq_token_ok_def oq_jobs_ok_def oq_detach_queued_def)
qed

lemma oq_call_pc:
  assumes "oq_begin_call c k q = Some (q', pc')"
  shows "oq_draining pc' = oq_draining (oq_continue k) \<and> (oq_pc_ok q (oq_continue k) \<longrightarrow> oq_pc_ok q pc')"
  using assms by (cases c; cases k) (auto split: if_splits)

lemma oq_returned_life:
  assumes "oq_life_ok q (a + (if c = OC_detach then 0 else 1)) d (e + (if c = OC_detach then 1 else 0))"
    and "0 \<le> a" "0 \<le> d" "d \<le> e"
  shows "oq_life_ok (oq_returned c q) a d e"
  using assms by (cases c) (auto simp: oq_life_ok_def)

lemma oq_set_CS [simp]:
  "oq_life_ok (q\<lparr>m_CS := x\<rparr>) a d e = oq_life_ok q a d e"
  "oq_token_ok (q\<lparr>m_CS := x\<rparr>) w = oq_token_ok q w" "oq_jobs_ok (q\<lparr>m_CS := x\<rparr>) = oq_jobs_ok q"
  "oq_all_ok (q\<lparr>m_CS := x\<rparr>) a d e w = oq_all_ok q a d e w" "oq_pc_ok (q\<lparr>m_CS := x\<rparr>) p = oq_pc_ok q p"
  by (simp_all add: oq_all_ok_def oq_ok_defs)
     (cases p; simp add: oq_slot_ok_def oq_detach_queued_def)

lemma oq_n_cases:
  "oq_in_async (oq_continue k) = False" "oq_before_detach (oq_continue k) = False"
  "oq_in_detach (oq_continue k) = False" "oq_draining (oq_continue k) = (k \<noteq> None)"
  by (cases k; simp)+

definition oq_step_ok ::
  "'j operation_queue \<Rightarrow> 'j oq_pc \<Rightarrow> 'j operation_queue \<Rightarrow> int \<Rightarrow> int \<Rightarrow> int \<Rightarrow> int \<Rightarrow> 'j oq_pc \<Rightarrow> bool" where
  "oq_step_ok q pc q' a d e w pc' \<longleftrightarrow>
     oq_all_ok q' (a + oq_n oq_in_async pc') (d + oq_n oq_before_detach pc')
       (e + oq_n oq_in_detach pc') (w + oq_n oq_draining pc') \<and>
     oq_pc_ok q' pc' \<and> (\<forall>p. oq_pc_ok q p \<longrightarrow> (oq_draining p \<longrightarrow> 1 \<le> w) \<longrightarrow> oq_pc_ok q' p)"

lemma oq_step_okI:
  assumes "oq_all_ok q' (a + oq_n oq_in_async pc') (d + oq_n oq_before_detach pc')
       (e + oq_n oq_in_detach pc') (w + oq_n oq_draining pc')" and "oq_pc_ok q' pc'"
    and "\<And>p. oq_pc_ok q p \<Longrightarrow> (oq_draining p \<Longrightarrow> 1 \<le> w) \<Longrightarrow> oq_pc_ok q' p"
  shows "oq_step_ok q pc q' a d e w pc'"
  using assms by (simp add: oq_step_ok_def)

text \<open>A step that changes nothing but the mutex.\<close>

lemma oq_step_mutex:
  assumes "oq_all_ok q (a + oq_n oq_in_async pc) (d + oq_n oq_before_detach pc)
       (e + oq_n oq_in_detach pc) (w + oq_n oq_draining pc)" and "oq_pc_ok q pc'"
    and "oq_in_async pc' = oq_in_async pc" "oq_before_detach pc' = oq_before_detach pc"
      "oq_in_detach pc' = oq_in_detach pc" "oq_draining pc' = oq_draining pc"
    and "q' = q\<lparr>m_CS := x\<rparr>"
  shows "oq_step_ok q pc q' a d e w pc'"
  using assms by (simp add: oq_step_ok_def)

lemma oq_crit_ok:
  assumes "oq_all_ok q (a + oq_n oq_in_async (OQ_crit c k)) (d + oq_n oq_before_detach (OQ_crit c k))
       (e + oq_n oq_in_detach (OQ_crit c k)) (w + oq_n oq_draining (OQ_crit c k))"
    and "oq_pc_ok q (OQ_crit c k)" and "0 \<le> a" "0 \<le> d" "d \<le> e" "0 \<le> w" and "m_jobs q = [] \<Longrightarrow> w = 0"
  shows "oq_step_ok q (OQ_crit c k) (oq_body c q) a d e w (OQ_unlock c k)"
proof (cases c)
  case (OC_async j)
  let ?w = "w + oq_n oq_draining (OQ_crit c k)"
  have ok: "oq_all_ok q (a + 1) d e ?w" using assms(1) OC_async by simp
  have "m_jobs q = [] \<Longrightarrow> ?w = 0" using assms(2,7) by (cases k) (auto simp: oq_slot_ok_def)
  from oq_async_ok[OF ok assms(3) _ this] oq_async_others[OF ok assms(3)] assms(2,6)
  show ?thesis unfolding oq_step_ok_def OC_async by fastforce
next
  case OC_detach
  let ?w = "w + oq_n oq_draining (OQ_crit c k)"
  have ok: "oq_all_ok q a (d + 1) (e + 1) ?w" using assms(1) OC_detach by simp
  from oq_detach_ok[OF ok assms(4,3,5)] oq_detach_others[OF ok assms(4)] assms(2,5,6)
  show ?thesis unfolding oq_step_ok_def OC_detach by fastforce
qed

lemma oq_unlock_ok:
  assumes "oq_all_ok q (a + oq_n oq_in_async (OQ_unlock c k)) (d + oq_n oq_before_detach (OQ_unlock c k))
       (e + oq_n oq_in_detach (OQ_unlock c k)) (w + oq_n oq_draining (OQ_unlock c k))"
    and "oq_pc_ok q (OQ_unlock c k)" and "0 \<le> a" "0 \<le> d" "d \<le> e" "0 \<le> w"
  shows "oq_step_ok q (OQ_unlock c k) ((oq_returned c q)\<lparr>m_CS := None\<rparr>) a d e w (oq_continue k)"
proof -
  have "oq_life_ok (oq_returned c q) a d e"
    using assms(1,3-5) by (intro oq_returned_life) (auto simp: oq_all_ok_def)
  moreover have "oq_kept q (oq_returned c q) \<and>
      (oq_token_ok q w \<longrightarrow> oq_token_ok (oq_returned c q) w) \<and> (oq_jobs_ok q \<longrightarrow> oq_jobs_ok (oq_returned c q))" for w
    by (cases c) (simp_all add: oq_kept_def oq_token_ok_def oq_jobs_ok_def oq_detach_queued_def)
  moreover have "oq_pc_ok q (oq_continue k)" using assms(2) by (cases k) auto
  ultimately show ?thesis
    using assms(1) oq_kept_pc_ok unfolding oq_step_ok_def oq_set_CS oq_n_cases oq_all_ok_def by auto
qed

text \<open>The steps of \<open>drain\<close> and of the destructor that change the queue.\<close>

lemma oq_step_drainI:
  assumes "oq_all_ok q a d e (w + 1)" and "0 \<le> w"
    and "oq_destroying q \<Longrightarrow> oq_destroying q' \<and> (m_active_drain q' \<longrightarrow> m_active_drain q)"
    and "\<not> oq_in_async pc'" "\<not> oq_in_detach pc'" "\<not> oq_before_detach pc'"
    and "oq_life_ok q' a d e" "oq_token_ok q' (w + oq_n oq_draining pc')" "oq_jobs_ok q'" "oq_pc_ok q' pc'"
  shows "oq_step_ok q pc q' a d e w pc'"
proof (rule oq_step_okI)
  fix p assume p: "oq_pc_ok q p" "oq_draining p \<Longrightarrow> 1 \<le> w"
  have "\<not> 1 \<le> w" using assms(1) by (auto simp: oq_all_ok_def oq_token_ok_def)
  then have "\<not> oq_draining p" using p(2) by blast
  then show "oq_pc_ok q' p" using p(1) assms(3) by (cases p) auto
qed (use assms in \<open>simp_all add: oq_all_ok_def\<close>)

lemma oq_token_drainer: "oq_all_ok q a d e (w + 1) \<Longrightarrow> 0 \<le> w \<Longrightarrow> oq_pool q = [] \<and> w = 0"
  by (cases "oq_pool q") (auto simp: oq_all_ok_def oq_token_ok_def)

lemma oq_begin_ok:
  assumes "oq_all_ok q a d e (w + 1)" and "oq_pc_ok q D_begin" and "0 \<le> w"
  shows "oq_step_ok q D_begin (q\<lparr>m_active_drain := True\<rparr>) a d e w
           (D_loop (min (length (m_jobs q)) kMaxOpsPerDrain))"
  by (rule oq_step_drainI[OF assms(1,3)]) (use assms in \<open>auto simp: oq_all_ok_def oq_ok_defs\<close>)

lemma oq_swap_ok:
  assumes "oq_all_ok q a d e (w + 1)" and "oq_pc_ok q (D_loop r)" and "0 \<le> w"
    and "m_jobs q = job # rest" and "0 < r"
  shows "oq_step_ok q (D_loop r)
           (q\<lparr>m_jobs := None # rest, oq_started := oq_started q @ (case job of None \<Rightarrow> [] | Some j \<Rightarrow> [j])\<rparr>)
           a d e w (D_unlock r job)"
proof (rule oq_step_drainI[OF assms(1,3)])
  let ?q = "q\<lparr>m_jobs := None # rest, oq_started := oq_started q @ (case job of None \<Rightarrow> [] | Some j \<Rightarrow> [j])\<rparr>"
  have last: "job = Some Detach_op \<longrightarrow> rest = []" "None \<notin> set rest"
    using assms(1,4) by (cases rest; auto simp: oq_all_ok_def oq_jobs_ok_def)+
  show "oq_pc_ok ?q (D_unlock r job)"
    using assms last
    by (cases job) (auto simp: oq_all_ok_def oq_jobs_ok_def oq_slot_ok_def oq_detach_queued_def)
  show "oq_jobs_ok ?q"
    using assms(1,4) last(2)
    by (cases "rest = []") (auto simp: oq_all_ok_def oq_jobs_ok_def split: option.splits)
  show "oq_token_ok ?q (w + oq_n oq_draining (D_unlock r job))"
    using assms by (auto simp: oq_all_ok_def oq_token_ok_def)
qed (use assms in \<open>auto simp: oq_all_ok_def oq_life_ok_def\<close>)

lemma oq_unregister_ok:
  assumes "oq_all_ok q a d e (w + 1)" and "oq_pc_ok q (D_exec r (Some Detach_op))" and "0 \<le> w"
  shows "oq_step_ok q (D_exec r (Some Detach_op)) (q\<lparr>oq_unregistered := True\<rparr>) a d e w (D_relock r)"
  by (rule oq_step_drainI[OF assms(1,3)]) (use assms oq_token_drainer[OF assms(1,3)] in \<open>auto simp: oq_all_ok_def oq_ok_defs\<close>)

lemma oq_pop_ok:
  assumes "oq_all_ok q a d e (w + 1)" and "oq_pc_ok q (D_pop r)" and "0 \<le> w"
  shows "oq_step_ok q (D_pop r) (q\<lparr>m_jobs := tl (m_jobs q)\<rparr>) a d e w (D_loop (r - 1))"
proof (rule oq_step_drainI[OF assms(1,3)])
  obtain rest where rest: "m_jobs q = None # rest"
    using assms(2) by (cases "m_jobs q") (auto simp: oq_slot_ok_def)
  have none: "None \<notin> set rest" using assms(1) rest by (simp add: oq_all_ok_def oq_jobs_ok_def)
  then show "oq_pc_ok (q\<lparr>m_jobs := tl (m_jobs q)\<rparr>) (D_loop (r - 1))"
    using assms(2) rest by (auto simp: oq_slot_ok_def oq_detach_queued_def)
  show "oq_jobs_ok (q\<lparr>m_jobs := tl (m_jobs q)\<rparr>)"
    using assms(1) rest none
    by (auto simp: oq_all_ok_def oq_jobs_ok_def split: if_splits dest: list.set_sel(2))
  show "oq_token_ok (q\<lparr>m_jobs := tl (m_jobs q)\<rparr>) (w + oq_n oq_draining (D_loop (r - 1)))"
    using assms rest none oq_token_drainer[OF assms(1,3)]
    by (auto simp: oq_all_ok_def oq_token_ok_def oq_slot_ok_def)
qed (use assms in \<open>auto simp: oq_all_ok_def oq_life_ok_def\<close>)

lemma oq_end_ok:
  assumes "oq_all_ok q a d e (w + 1)" and "oq_pc_ok q D_end" and "0 \<le> w"
  shows "oq_step_ok q D_end ((if m_jobs q = [] then q else notify_unsafe q)\<lparr>m_active_drain := False\<rparr>)
           a d e w D_finish"
proof -
  have "m_jobs q \<noteq> [] \<longrightarrow> m_notify_operation q"
    using assms by (auto simp: oq_all_ok_def oq_life_ok_def)
  then have q: "(if m_jobs q = [] then q else notify_unsafe q)\<lparr>m_active_drain := False\<rparr> =
      q\<lparr>m_active_drain := False, oq_pool := oq_pool q @ (if m_jobs q = [] then [] else [m_priority q])\<rparr>"
    by (simp add: notify_unsafe_def)
  show ?thesis unfolding q
    by (rule oq_step_drainI[OF assms(1,3)])
       (use assms in \<open>auto simp: oq_all_ok_def oq_token_ok_def oq_jobs_ok_def oq_life_ok_def oq_detach_queued_def\<close>)
qed

lemma oq_exec_ok:
  assumes "oq_exec t q pc = Some (q', pc')"
    and ok: "oq_all_ok q (a + oq_n oq_in_async pc) (d + oq_n oq_before_detach pc)
       (e + oq_n oq_in_detach pc) (w + oq_n oq_draining pc)"
    and pc: "oq_pc_ok q pc" and nn: "0 \<le> a" "0 \<le> d" "d \<le> e" "0 \<le> w"
    and lock: "oq_holds pc \<Longrightarrow> m_jobs q = [] \<Longrightarrow> w = 0"
  shows "oq_step_ok q pc q' a d e w pc'"
proof (cases pc)
  case (OQ_crit c k)
  then show ?thesis using assms oq_crit_ok[of q a c k d e w] by simp
next
  case (OQ_unlock c k)
  then show ?thesis using assms oq_unlock_ok[of q a c k d e w] by simp
next
  case D_begin
  then show ?thesis using assms oq_begin_ok[of q a d e w] by simp
next
  case (D_loop r)
  show ?thesis
  proof (cases "r = 0")
    case True
    then show ?thesis using assms D_loop by (intro oq_step_mutex[where x = "m_CS q"]) auto
  next
    case False
    then obtain job rest where "m_jobs q = job # rest"
      using assms(1) D_loop by (cases "m_jobs q") auto
    then show ?thesis using assms D_loop False oq_swap_ok[of q a d e w r job rest] by simp
  qed
next
  case (D_exec r job)
  show ?thesis
  proof (cases "job = Some Detach_op")
    case True
    then show ?thesis using assms D_exec oq_unregister_ok[of q a d e w r] by simp
  next
    case False
    then show ?thesis using assms D_exec
      by (intro oq_step_mutex[where x = "m_CS q"]) (auto split: option.splits oq_job.splits)
  qed
next
  case (D_pop r)
  then show ?thesis
    using assms oq_pop_ok[of q a d e w r] by (simp add: deferred_pop_def split: if_splits)
next
  case D_end
  then show ?thesis using assms oq_end_ok[of q a d e w] by simp
next
  case X_crit
  then have "q' = q\<lparr>m_notify_operation := False\<rparr>" "pc' = X_unlock (m_active_drain q)"
    using assms(1) by simp_all
  moreover from this have "oq_kept q q'" by (simp add: oq_kept_def)
  ultimately show ?thesis
    using ok pc X_crit oq_kept_pc_ok[of q q']
    by (intro oq_step_okI) (auto simp: oq_all_ok_def oq_ok_defs)
next
  case (X_test b)
  show ?thesis
  proof (cases b)
    case True
    then show ?thesis using assms X_test by (intro oq_step_mutex[where x = "m_CS q"]) auto
  next
    case False
    then have "q' = q\<lparr>oq_freed := True\<rparr>" "pc' = OQ_idle"
      using assms(1) X_test by simp_all
    moreover from this have "oq_kept q q'" by (simp add: oq_kept_def)
    ultimately show ?thesis
      using ok pc X_test oq_kept_pc_ok[of q q']
      by (intro oq_step_okI) (auto simp: oq_all_ok_def oq_ok_defs)
  qed
next
  case (D_unlock r job)
  then show ?thesis using assms by (intro oq_step_mutex[where x = None]) auto
next
  case (X_unlock b)
  then show ?thesis using assms by (intro oq_step_mutex[where x = None]) auto
next
  case D_finish
  then show ?thesis using assms by (intro oq_step_mutex[where x = None]) auto
next
  case (D_body r)
  then show ?thesis using assms by (intro oq_step_mutex[where x = "m_CS q"]) auto
qed (use assms in \<open>auto split: if_splits intro!: oq_step_mutex[where x = "Some t"]\<close>)

lemma oq_step_keptI:
  assumes "oq_kept q q'" and "oq_life_ok q' (a + oq_n oq_in_async pc') (d + oq_n oq_before_detach pc')
       (e + oq_n oq_in_detach pc')" and "oq_token_ok q' (w + oq_n oq_draining pc')" and "oq_jobs_ok q'"
    and "oq_pc_ok q' pc'"
  shows "oq_step_ok q pc q' a d e w pc'"
  using assms oq_kept_pc_ok[OF assms(1)] by (intro oq_step_okI) (simp_all add: oq_all_ok_def)

lemma oq_local_ok:
  assumes "oq_local t ev q pc = Some (q', pc')" and "ev \<noteq> OE_throw"
    and ok: "oq_all_ok q (a + oq_n oq_in_async pc) (d + oq_n oq_before_detach pc)
       (e + oq_n oq_in_detach pc) (w + oq_n oq_draining pc)"
    and pc: "oq_pc_ok q pc" and nn: "0 \<le> a" "0 \<le> d" "d \<le> e" "0 \<le> w"
    and lock: "oq_holds pc \<Longrightarrow> m_jobs q = [] \<Longrightarrow> w = 0"
  shows "oq_step_ok q pc q' a d e w pc'"
  using assms(1)
proof (cases rule: oq_local_cases)
  case (call c k)
  note kept = oq_call_kept[OF call(2), of "w + oq_n oq_draining pc"]
  show ?thesis
  proof (rule oq_step_okI)
    show "oq_all_ok q' (a + oq_n oq_in_async pc') (d + oq_n oq_before_detach pc')
       (e + oq_n oq_in_detach pc') (w + oq_n oq_draining pc')"
      using ok nn kept oq_call_pc[OF call(2)] oq_call_life[OF call(2), of a d e] call(3)
      by (simp add: oq_all_ok_def oq_n_cases)
    show "oq_pc_ok q' pc'"
      using kept pc oq_call_pc[OF call(2)] oq_kept_pc_ok call(3) by blast
  qed (use kept oq_kept_pc_ok in blast)
next
  case (drain p ps)
  then have "oq_kept q q'" by (simp add: oq_kept_def)
  moreover have "ps = []" "w = 0"
    using ok drain nn by (cases ps; auto simp: oq_all_ok_def oq_token_ok_def)+
  moreover have "oq_life_ok q' a d e" using ok drain(2,5) by (simp add: oq_all_ok_def oq_life_ok_def)
  moreover have "oq_token_ok q' 1" "oq_jobs_ok q'" "oq_pc_ok q' D_lock"
    using ok drain \<open>w = 0\<close> \<open>ps = []\<close>
    by (auto simp: oq_all_ok_def oq_token_ok_def oq_jobs_ok_def oq_detach_queued_def)
  ultimately show ?thesis using drain(3) by (intro oq_step_keptI) simp_all
next
  case destroy
  then have "oq_kept q q'" by (simp add: oq_kept_def)
  moreover have "oq_life_ok q' a d e" using ok destroy by (simp add: oq_all_ok_def oq_life_ok_def)
  moreover have "oq_token_ok q' w" "oq_jobs_ok q'"
    using ok destroy by (auto simp: oq_all_ok_def oq_token_ok_def oq_jobs_ok_def oq_detach_queued_def)
  ultimately show ?thesis using destroy(3,4) by (intro oq_step_keptI) simp_all
next
  case exec
  show ?thesis by (rule oq_exec_ok[OF exec(2) ok pc nn lock])
qed (use assms(2) in simp)

definition oq_inv :: "'j oq_sys \<Rightarrow> bool" where
  "oq_inv s \<longleftrightarrow> oq_mutex.owner_inv s \<and>
     oq_all_ok (fst s) (tsum (oq_n oq_in_async) (snd s)) (tsum (oq_n oq_before_detach) (snd s))
       (tsum (oq_n oq_in_detach) (snd s)) (tsum (oq_n oq_draining) (snd s)) \<and>
     (\<forall>pc \<in> set (snd s). oq_pc_ok (fst s) pc)"

lemma oq_before_in_detach: "oq_before_detach pc \<Longrightarrow> oq_in_detach pc"
  by (cases pc) auto

lemma oq_empty_drainer: "oq_pc_ok q pc \<Longrightarrow> oq_draining pc \<Longrightarrow> m_jobs q = [] \<Longrightarrow> oq_holds pc"
  by (cases pc) (auto simp: oq_slot_ok_def)

lemma oq_inv_step:
  assumes inv: "oq_inv s" and "oq_no_throw ev" and step: "oq_step s ev = Some s'"
  shows "oq_inv s'"
  using step
proof (rule sys_step_Some)
  fix q ts t e q' pc'
  assume *: "s = (q, ts)" "ev = (t, e)" "t < length ts"
    "oq_local t e q (ts ! t) = Some (q', pc')" "s' = (q', ts[t := pc'])"
  define rest where "rest = ts[t := OQ_idle]"
  let ?n = "\<lambda>P. tsum (oq_n P) rest"
  have sums: "tsum (oq_n P) ts = ?n P + oq_n P (ts ! t)"
    "tsum (oq_n P) (ts[t := pc']) = ?n P + oq_n P pc'" if "\<not> P OQ_idle" for P
    using *(3) that by (auto simp: rest_def)
  have nn: "0 \<le> ?n P" for P by (rule tsum_nonneg) auto
  have de: "?n oq_before_detach \<le> ?n oq_in_detach"
    by (rule tsum_mono) (auto simp: oq_before_in_detach)
  have ok: "\<And>p. p \<in> set ts \<Longrightarrow> oq_pc_ok q p" and own: "oq_mutex.owner_inv (q, ts)"
    using inv *(1) by (auto simp: oq_inv_def)
  have "?n oq_draining = 0" if "oq_holds (ts ! t)" "m_jobs q = []"
  proof (rule ccontr)
    assume "?n oq_draining \<noteq> 0"
    then have "0 < ?n oq_draining" using nn[of oq_draining] by linarith
    then obtain u where u: "u < length rest" "oq_draining (rest ! u)"
      by (auto dest: tsum_pos_member split: if_splits)
    then have "u \<noteq> t" "u < length ts" "oq_draining (ts ! u)"
      using *(3) by (auto simp: rest_def nth_list_update split: if_splits)
    then show False
      using oq_mutex.owner_unique[OF own] that(1) *(3) oq_empty_drainer[OF ok[OF nth_mem] _ that(2)]
      by auto
  qed
  then have l: "oq_step_ok q (ts ! t) q' (?n oq_in_async) (?n oq_before_detach) (?n oq_in_detach)
      (?n oq_draining) pc'"
    using inv assms(2) * nn de sums ok
    by (intro oq_local_ok[OF *(4)]) (auto simp: oq_inv_def oq_no_throw_def)
  have "oq_pc_ok q' p" if "p \<in> set (ts[t := pc'])" for p
    using set_update_cases[OF that]
  proof
    assume "p \<in> set ts \<and> (\<exists>u<length ts. u \<noteq> t \<and> ts ! u = p)"
    then obtain u where u: "p \<in> set ts" "u < length rest" "rest ! u = p" by (auto simp: rest_def)
    have "oq_n oq_draining (rest ! u) \<le> ?n oq_draining" by (rule tsum_ge_member[OF u(2)]) auto
    then show ?thesis using l ok[OF u(1)] u(3) by (auto simp: oq_step_ok_def)
  qed (use l in \<open>simp add: oq_step_ok_def\<close>)
  then show ?thesis
    using l sums *(1,5) oq_mutex.owner_inv_step[OF _ step] inv by (simp add: oq_inv_def oq_step_ok_def)
qed

interpretation oq_invariant: step_invariant oq_step oq_no_throw oq_inv
  by unfold_locales (rule oq_inv_step)

lemma oq_inv_init: "oq_inv (oq_init label priority n)"
  by (auto simp: oq_inv_def oq_init_def serial_queue_new_def oq_attach_def operation_queue_new_def
      oq_mutex.owner_inv_def oq_all_ok_def oq_ok_defs)

lemmas oq_reach_inv = oq_invariant.reach_inv[OF _ oq_inv_init]

section \<open>Consequences\<close>

lemma oq_holder_steps: "oq_pc_ok q pc \<Longrightarrow> oq_holds pc \<Longrightarrow> oq_exec t q pc \<noteq> None"
  by (cases pc) (auto simp: oq_slot_ok_def deferred_pop_def split: list.splits)

lemma oq_drainer_exec:
  "oq_pc_ok q pc \<Longrightarrow> oq_draining pc \<Longrightarrow> m_CS q = None \<or> oq_holds pc \<Longrightarrow> oq_exec t q pc \<noteq> None"
  using oq_holder_steps[of q pc t] by (cases pc) (auto split: option.splits oq_job.splits)

lemma oq_drainer_steps:
  assumes "oq_inv (q, ts)" and "t < length ts" and "oq_draining (ts ! t)"
  shows "\<exists>u < length ts. oq_step (q, ts) (u, OE_step) \<noteq> None"
proof (cases "m_CS q")
  case None
  then have "oq_exec t q (ts ! t) \<noteq> None"
    using assms by (intro oq_drainer_exec) (auto simp: oq_inv_def)
  then show ?thesis using assms(2) unfolding sys_step_enabled by auto
next
  case (Some u)
  then have "u < length ts" "oq_holds (ts ! u)"
    using assms(1) by (auto simp: oq_inv_def oq_mutex.owner_inv_def)
  moreover from this have "oq_exec u q (ts ! u) \<noteq> None"
    using assms(1) by (intro oq_holder_steps) (auto simp: oq_inv_def)
  ultimately show ?thesis unfolding sys_step_enabled by auto
qed

lemma oq_drainer_unique:
  assumes "oq_inv (q, ts)" and "t < length ts" "u < length ts" "oq_draining (ts ! t)" "oq_draining (ts ! u)"
  shows "t = u"
proof (rule ccontr)
  assume "t \<noteq> u"
  then have "int (length [t, u]) \<le> tsum (oq_n oq_draining) ts"
    using assms by (intro distinct_le_tsum) auto
  moreover have "int (length (oq_pool q)) + tsum (oq_n oq_draining) ts \<le> 1"
    using assms(1) by (simp add: oq_inv_def oq_all_ok_def oq_token_ok_def)
  ultimately show False by simp
qed

lemma oq_one_drainer:
  assumes "reach oq_step oq_no_throw (oq_init label priority n) (q, ts)"
    and "t < length ts" and "oq_draining (ts ! t)"
  shows "(\<forall>u < length ts. oq_draining (ts ! u) \<longrightarrow> u = t) \<and> oq_pool q = []"
proof -
  note inv = oq_reach_inv[OF assms(1)]
  have "1 \<le> tsum (oq_n oq_draining) ts"
    using tsum_ge_member[OF assms(2), of "oq_n oq_draining"] assms(3) by simp
  then have "oq_pool q = []"
    using inv by (cases "oq_pool q") (auto simp: oq_inv_def oq_all_ok_def oq_token_ok_def)
  then show ?thesis using oq_drainer_unique[OF inv] assms(2,3) by blast
qed

lemma oq_wakeup_or_drain:
  assumes "reach oq_step oq_no_throw (oq_init label priority n) (q, ts)" and "m_jobs q \<noteq> []"
  shows "oq_pool q \<noteq> [] \<or>
         (\<exists>t < length ts. oq_draining (ts ! t)) \<and> (\<exists>u < length ts. oq_step (q, ts) (u, OE_step) \<noteq> None)"
proof (cases "oq_pool q = []")
  case True
  note inv = oq_reach_inv[OF assms(1)]
  have "tsum (oq_n oq_draining) ts = 1"
    using inv assms(2) True by (simp add: oq_inv_def oq_all_ok_def oq_token_ok_def)
  then obtain t where "t < length ts" "oq_draining (ts ! t)"
    using tsum_pos_member[of "oq_n oq_draining" ts] by (auto split: if_splits)
  then show ?thesis using oq_drainer_steps[OF inv] by blast
qed simp

section \<open>Properties\<close>

text \<open>
  C5. Serial execution: in every execution without a throwing job, at most one thread is
  inside \<open>drain\<close>, so no two jobs of a queue run at the same time. If a wake-up is still
  queued in the pool, no thread is inside \<open>drain\<close>.
\<close>

theorem operation_queue_serial:
  assumes "reach oq_step oq_no_throw (oq_init label priority n) (q, ts)"
    and "t < length ts" and "oq_draining (ts ! t)"
  shows "(\<forall>u < length ts. oq_draining (ts ! u) \<longrightarrow> u = t) \<and> oq_pool q = []"
  by (rule oq_one_drainer[OF assms])

definition oq_demo :: "(tid \<times> nat oq_event) list" where
  "oq_demo =
     [(0, OE_call (OC_async 7)), (0, OE_step), (0, OE_step), (0, OE_step),
      (1, OE_drain), (1, OE_step), (1, OE_step), (1, OE_step), (1, OE_step), (1, OE_step)]"

definition oq_demo_queue :: "nat operation_queue" where
  "oq_demo_queue =
     (operation_queue_new [] UTILITY)
       \<lparr>m_jobs := [None], m_active_drain := True, m_is_attached := True,
        oq_accepted := [Job 7], oq_started := [Job 7]\<rparr>"

definition oq_demo_threads :: "nat oq_pc list" where
  "oq_demo_threads = [OQ_idle, D_body 1]"

lemmas oq_demo_defs = oq_demo_def oq_demo_threads_def oq_demo_queue_def oq_init_def serial_queue_new_def oq_attach_def
  operation_queue_new_def async_unsafe_def notify_unsafe_def oq_detach_def deferred_pop_def
  kMaxOpsPerDrain_def numeral_2_eq_2

lemma oq_demo_run:
  "run oq_step (oq_init [] UTILITY 2) oq_demo = Some (oq_demo_queue, oq_demo_threads)"
  by (simp add: oq_demo_defs)

lemma oq_demo_reach: "reach oq_step oq_no_throw (oq_init [] UTILITY 2) (oq_demo_queue, oq_demo_threads)"
  by (rule reach_run[OF oq_demo_run]) (simp add: oq_demo_def oq_no_throw_def)

theorem operation_queue_serial_witness: "oq_pool oq_demo_queue = []"
  by (rule operation_queue_serial[OF oq_demo_reach, of 1, THEN conjunct2]) (simp_all add: oq_demo_threads_def)

abbreviation oq_good :: "'j oq_sys \<Rightarrow> bool" where
  "oq_good s \<equiv> \<exists>label priority n. reach oq_step oq_no_throw (oq_init label priority n) s"

interpretation oq_executor: ordered_executor oq_good
  "\<lambda>s. oq_accepted (fst s)" "\<lambda>s. oq_waiting (m_jobs (fst s))" "\<lambda>s. oq_started (fst s)"
  by unfold_locales (auto dest!: oq_reach_inv simp: oq_inv_def oq_all_ok_def oq_jobs_ok_def)

lemma oq_one_token:
  assumes "reach oq_step oq_no_throw (oq_init label priority n) (q, ts)" and "m_jobs q \<noteq> []"
  shows "length (oq_pool q) + card {t. t < length ts \<and> oq_draining (ts ! t)} = 1"
proof -
  have "int (length (oq_pool q)) + tsum (oq_n oq_draining) ts = 1"
    using oq_reach_inv[OF assms(1)] assms(2) by (simp add: oq_inv_def oq_all_ok_def oq_token_ok_def)
  then show ?thesis unfolding tsum_indicator by linarith
qed

text \<open>
  C2. First in, first out, exactly once: in every execution in which no operation throws, the jobs that were queued are, in
  order, those that have been started followed by those still in \<open>m_jobs\<close>; none is lost, duplicated or overtaken. While
  \<open>m_jobs\<close> is not empty there is exactly one wake-up: either one \<open>m_notify_operation\<close> waits in the pool and
  no thread is in \<open>drain\<close>, or none waits and exactly one thread is.
\<close>

theorem operation_queue_fifo:
  assumes "reach oq_step oq_no_throw (oq_init label priority n) (q, ts)"
  shows "oq_accepted q = oq_started q @ oq_waiting (m_jobs q) \<and>
     (m_jobs q \<noteq> [] \<longrightarrow> length (oq_pool q) + card {t. t < length ts \<and> oq_draining (ts ! t)} = 1)"
  using oq_executor.in_order[of "(q, ts)"] oq_one_token[OF assms] assms by auto

theorem operation_queue_fifo_witness:
  "oq_accepted oq_demo_queue = oq_started oq_demo_queue @ oq_waiting (m_jobs oq_demo_queue) \<and>
   length (oq_pool oq_demo_queue) + card {t. t < length oq_demo_threads \<and> oq_draining (oq_demo_threads ! t)} = 1"
proof -
  have "m_jobs oq_demo_queue \<noteq> []" by (simp add: oq_demo_queue_def)
  then show ?thesis using operation_queue_fifo[OF oq_demo_reach] by blast
qed

text \<open>
  C1. No lost wake-up: in every execution in which no operation throws, as long as a job is queued, a wake-up for the queue is in
  the pool or a thread is in \<open>drain\<close> and the execution can go on. With a throwing operation this is false, see
  \<open>operation_queue_throw_strands_jobs\<close> below.
\<close>

theorem operation_queue_no_lost_wakeup:
  assumes "reach oq_step oq_no_throw (oq_init label priority n) (q, ts)" and "m_jobs q \<noteq> []"
  shows "oq_pool q \<noteq> [] \<or>
         (\<exists>t < length ts. oq_draining (ts ! t)) \<and> (\<exists>u < length ts. oq_step (q, ts) (u, OE_step) \<noteq> None)"
  by (rule oq_wakeup_or_drain[OF assms])

theorem operation_queue_no_lost_wakeup_witness:
  "\<exists>t < length oq_demo_threads. oq_draining (oq_demo_threads ! t)"
proof -
  have "m_jobs oq_demo_queue \<noteq> []" by (simp add: oq_demo_queue_def)
  from operation_queue_no_lost_wakeup[OF oq_demo_reach this] show ?thesis
    by (rule disjE) (simp add: oq_demo_queue_def operation_queue_new_def, blast)
qed

section \<open>The end of life\<close>

lemma oq_body_fields [simp]:
  "oq_freed (oq_body c q) = oq_freed q" "m_active_drain (oq_body c q) = m_active_drain q"
  by (cases c; simp add: notify_unsafe_def async_unsafe_def oq_detach_def Let_def)+

definition oq_gone_inv :: "'j oq_sys \<Rightarrow> bool" where
  "oq_gone_inv s \<longleftrightarrow> oq_inv s \<and>
     (oq_freed (fst s) \<longrightarrow> \<not> m_active_drain (fst s)) \<and>
     (oq_freed (fst s) \<or> X_unlock False \<in> set (snd s) \<or> X_test False \<in> set (snd s) \<longrightarrow>
      D_finish \<notin> set (snd s))"

lemma oq_gone_local:
  assumes "oq_local t e q pc = Some (q', pc')" and "e \<noteq> OE_throw" and "oq_pc_ok q pc"
    and "oq_destroying q \<longrightarrow> oq_unregistered q" and "oq_freed q \<longrightarrow> oq_destroying q"
  shows "(oq_freed q' \<longrightarrow> oq_freed q \<or> pc = X_test False \<and> \<not> m_active_drain q \<and> q' = q\<lparr>oq_freed := True\<rparr>) \<and>
    (m_active_drain q' \<longrightarrow> m_active_drain q \<or> \<not> oq_destroying q) \<and>
    (pc' = D_finish \<longrightarrow> m_active_drain q) \<and>
    (pc' = X_unlock False \<longrightarrow> oq_holds pc \<and> \<not> m_active_drain q) \<and>
    (pc' = X_test False \<longrightarrow> pc = X_unlock False)"
  using assms(1)
proof (cases rule: oq_local_cases)
  case (call c k)
  then show ?thesis by (cases c) (auto split: if_splits)
next
  case exec
  show ?thesis
  proof (cases pc)
    case (OQ_crit c k)
    then show ?thesis using exec by auto
  next
    case (OQ_unlock c k)
    then show ?thesis using exec by (cases c; cases k) auto
  next
    case D_end
    then show ?thesis using exec assms(3) by (auto simp: notify_unsafe_def split: if_splits)
  qed (use exec assms(3-) in \<open>auto simp: deferred_pop_def split: if_splits list.splits option.splits oq_job.splits\<close>)
qed (use assms(2) in auto)

lemma oq_gone_step:
  assumes "oq_gone_inv s" and "oq_no_throw ev" and step: "oq_step s ev = Some s'"
  shows "oq_gone_inv s'"
  using step
proof (rule sys_step_Some)
  fix q ts t e q' pc'
  assume *: "s = (q, ts)" "ev = (t, e)" "t < length ts"
    "oq_local t e q (ts ! t) = Some (q', pc')" "s' = (q', ts[t := pc'])"
  have inv: "oq_inv (q, ts)" and gone: "oq_freed q \<longrightarrow> \<not> m_active_drain q"
    "oq_freed q \<or> X_unlock False \<in> set ts \<or> X_test False \<in> set ts \<longrightarrow> D_finish \<notin> set ts"
    using assms(1) * by (auto simp: oq_gone_inv_def)
  have ok: "p \<in> set ts \<Longrightarrow> oq_pc_ok q p" for p using inv by (simp add: oq_inv_def)
  have life: "oq_destroying q \<longrightarrow> oq_unregistered q" "oq_freed q \<longrightarrow> oq_destroying q"
    using inv by (auto simp: oq_inv_def oq_all_ok_def oq_life_ok_def)
  have "e \<noteq> OE_throw" using assms(2) * by (simp add: oq_no_throw_def)
  note l = oq_gone_local[OF *(4) this ok[OF nth_mem[OF *(3)]] life]
  have act: "\<not> m_active_drain q" if "oq_freed q \<or> X_unlock False \<in> set ts \<or> X_test False \<in> set ts"
    using that ok[of "X_unlock False"] ok[of "X_test False"] gone(1) by auto
  have fin: "u = t" if "oq_holds (ts ! t)" "u < length ts" "ts ! u = D_finish" for u
    using oq_mutex.owner_unique[of "(q, ts)" u t] inv that *(3) by (auto simp: oq_inv_def)
  have "D_finish \<notin> set (ts[t := pc'])"
    if "oq_freed q' \<or> X_unlock False \<in> set (ts[t := pc']) \<or> X_test False \<in> set (ts[t := pc'])"
  proof
    assume D: "D_finish \<in> set (ts[t := pc'])"
    consider "pc' = D_finish" | u where "u < length ts" "u \<noteq> t" "ts ! u = D_finish"
      using set_update_cases[OF D] by blast
    note cases = this
    have gone':  "oq_freed q \<or> X_unlock False \<in> set ts \<or> X_test False \<in> set ts \<or> pc' = X_unlock False"
    proof -
      have "X_test False \<in> set ts" if "ts ! t = X_test False" using that nth_mem[OF *(3)] by simp
      moreover have "X_unlock False \<in> set ts" if "ts ! t = X_unlock False" using that nth_mem[OF *(3)] by simp
      moreover have "X_unlock False \<in> set (ts[t := pc']) \<longrightarrow> X_unlock False \<in> set ts \<or> pc' = X_unlock False"
        "X_test False \<in> set (ts[t := pc']) \<longrightarrow> X_test False \<in> set ts \<or> pc' = X_test False"
        using set_update_cases by fast+
      ultimately show ?thesis using that l by blast
    qed
    show False
    proof (cases rule: cases)
      case 1
      then show False using gone' l act by auto
    next
      case (2 u)
      then show False using gone' l fin[of u] gone(2) nth_mem[OF 2(1)] by auto
    qed
  qed
  moreover have "oq_freed q' \<longrightarrow> \<not> m_active_drain q'"
    using l gone(1) life by auto
  ultimately show ?thesis
    using oq_inv_step[OF _ assms(2) step] inv * by (simp add: oq_gone_inv_def)
qed

interpretation oq_gone: step_invariant oq_step oq_no_throw oq_gone_inv
  by unfold_locales (rule oq_gone_step)

lemma oq_gone_init: "oq_gone_inv (oq_init label priority n)"
  using oq_inv_init[of label priority n]
  by (auto simp: oq_gone_inv_def oq_init_def serial_queue_new_def oq_attach_def operation_queue_new_def)

text \<open>
  C6. The end of life is safe: once the destructor has returned, no thread is in any method
  of the queue or about to run its wake-up operation, and every job that was ever queued has
  been executed.
\<close>

theorem operation_queue_safe_destruction:
  assumes "reach oq_step oq_no_throw (oq_init label priority n) (q, ts)" and "oq_freed q"
  shows "(\<forall>pc \<in> set ts. \<not> oq_draining pc \<and> pc \<noteq> D_finish \<and> \<not> oq_in_async pc \<and> \<not> oq_in_detach pc) \<and>
         oq_pool q = [] \<and> m_jobs q = [] \<and> oq_started q = oq_accepted q"
proof -
  have inv: "oq_inv (q, ts)" and "\<not> m_active_drain q" and fin: "D_finish \<notin> set ts"
    using oq_gone.reach_inv[OF assms(1) oq_gone_init] assms(2) by (auto simp: oq_gone_inv_def)
  have life: "oq_unregistered q" "\<not> m_is_attached q" "\<not> oq_owner q" "\<not> oq_handle q"
    using inv assms(2) by (auto simp: oq_inv_def oq_all_ok_def oq_life_ok_def)
  then have zero: "tsum (oq_n oq_draining) ts = 0" "tsum (oq_n oq_in_async) ts = 0"
    "tsum (oq_n oq_in_detach) ts = 0" and pool: "oq_pool q = []"
    using inv \<open>\<not> m_active_drain q\<close> by (auto simp: oq_inv_def oq_all_ok_def oq_life_ok_def oq_token_ok_def)
  have "m_jobs q = []"
    using inv zero(1) pool by (auto simp: oq_inv_def oq_all_ok_def oq_token_ok_def)
  then show ?thesis
    using tsum_none[OF zero(1)] tsum_none[OF zero(2)] tsum_none[OF zero(3)] fin pool inv
    by (auto simp: oq_inv_def oq_all_ok_def oq_jobs_ok_def)
qed

definition oq_demo_freed :: "nat operation_queue" where
  "oq_demo_freed =
     (operation_queue_new [] UTILITY)
       \<lparr>m_notify_operation := False, oq_owner := False, oq_handle := False, oq_unregistered := True,
        oq_destroying := True, oq_freed := True, oq_accepted := [Job 7, Detach_op],
        oq_started := [Job 7, Detach_op]\<rparr>"

definition oq_demo_end :: "(tid \<times> nat oq_event) list" where
  "oq_demo_end =
     [(0, OE_call OC_detach), (0, OE_step), (0, OE_step), (0, OE_step),
      (1, OE_step), (1, OE_step), (1, OE_step), (1, OE_step), (1, OE_step), (1, OE_step),
      (1, OE_drain), (1, OE_step), (1, OE_step), (1, OE_step), (1, OE_step), (1, OE_step),
      (0, OE_destroy), (0, OE_step), (0, OE_step), (0, OE_step), (0, OE_step),
      (1, OE_step), (1, OE_step), (1, OE_step), (1, OE_step), (1, OE_step),
      (0, OE_step), (0, OE_step), (0, OE_step), (0, OE_step)]"

theorem operation_queue_safe_destruction_witness:
  "oq_pool oq_demo_freed = [] \<and> m_jobs oq_demo_freed = [] \<and>
   oq_started oq_demo_freed = oq_accepted oq_demo_freed"
proof (rule operation_queue_safe_destruction[THEN conjunct2])
  have "run oq_step (oq_demo_queue, oq_demo_threads) oq_demo_end = Some (oq_demo_freed, [OQ_idle, OQ_idle])"
    by (simp add: oq_demo_defs oq_demo_end_def oq_demo_freed_def)
  then have "reach oq_step oq_no_throw (oq_demo_queue, oq_demo_threads) (oq_demo_freed, [OQ_idle, OQ_idle])"
    by (rule reach_run) (simp add: oq_demo_end_def oq_no_throw_def)
  from reach_trans[OF this oq_demo_reach]
  show "reach oq_step oq_no_throw (oq_init [] UTILITY 2) (oq_demo_freed, [OQ_idle, OQ_idle])" .
qed (simp add: oq_demo_freed_def)

section \<open>One drain\<close>

lemma oq_drain_one:
  assumes "m_CS q = Some t" and "m_jobs q = Some (Job j) # rest" and "0 < r"
  shows "solo (oq_exec t) 6 (q, D_loop r) =
           Some (q\<lparr>m_jobs := rest, oq_started := oq_started q @ [Job j]\<rparr>, D_loop (r - 1))"
  using assms by (simp add: eval_nat_numeral deferred_pop_def)

lemma oq_drain_loop:
  assumes "m_CS q = Some t" and "m_jobs q = map (Some \<circ> Job) js" and "r \<le> length js"
  shows "solo (oq_exec t) (6 * r) (q, D_loop r) =
           Some (q\<lparr>m_jobs := map (Some \<circ> Job) (drop r js),
                   oq_started := oq_started q @ map Job (take r js)\<rparr>, D_loop 0)"
  using assms
proof (induction r arbitrary: q js)
  case 0
  then show ?case by simp
next
  case (Suc r)
  then obtain j rest where js: "js = j # rest" by (cases js) auto
  let ?q = "q\<lparr>m_jobs := map (Some \<circ> Job) rest, oq_started := oq_started q @ [Job j]\<rparr>"
  have "solo (oq_exec t) 6 (q, D_loop (Suc r)) = Some (?q, D_loop r)"
    using oq_drain_one[of q t j "map (Some \<circ> Job) rest" "Suc r"] Suc.prems js by simp
  moreover have "solo (oq_exec t) (6 * r) (?q, D_loop r) =
      Some (?q\<lparr>m_jobs := map (Some \<circ> Job) (drop r rest),
              oq_started := oq_started ?q @ map Job (take r rest)\<rparr>, D_loop 0)"
    using Suc.prems js by (intro Suc.IH) simp_all
  ultimately show ?case
    using js solo_add[of "oq_exec t" 6 "6 * r" "(q, D_loop (Suc r))"] by (simp add: add.commute)
qed

lemma oq_drain_finish:
  "solo (oq_exec t) 3 (q, D_loop 0) =
     Some ((if m_jobs q = [] then q else notify_unsafe q)\<lparr>m_active_drain := False, m_CS := None\<rparr>, OQ_idle)"
  by (simp add: eval_nat_numeral)

text \<open>
  A drain is fair and terminates: if the mutex is free, a thread that runs \<open>drain\<close> without
  interference executes exactly the first \<open>kMaxOpsPerDrain\<close> jobs in order, returns after
  \<open>6 * m + 5\<close> steps, and queues another wake-up at the queue's priority exactly if jobs remain.
\<close>

theorem operation_queue_drain:
  assumes "m_CS q = None" and "m_jobs q = map (Some \<circ> Job) js" and "m_notify_operation q"
  shows "solo (oq_exec t) (6 * min (length js) kMaxOpsPerDrain + 5) (q, D_lock) =
     Some (q\<lparr>m_jobs := map (Some \<circ> Job) (drop kMaxOpsPerDrain js),
             oq_started := oq_started q @ map Job (take kMaxOpsPerDrain js),
             m_active_drain := False,
             oq_pool := oq_pool q @ (if kMaxOpsPerDrain < length js then [m_priority q] else [])\<rparr>,
           OQ_idle)"
proof -
  define m where "m = min (length js) kMaxOpsPerDrain"
  define q1 where "q1 = q\<lparr>m_CS := Some t, m_active_drain := True\<rparr>"
  have "solo (oq_exec t) 2 (q, D_lock) = Some (q1, D_loop m)"
    using assms(1,2) by (simp add: eval_nat_numeral q1_def m_def)
  moreover have "solo (oq_exec t) (6 * m) (q1, D_loop m) =
      Some (q1\<lparr>m_jobs := map (Some \<circ> Job) (drop m js),
              oq_started := oq_started q1 @ map Job (take m js)\<rparr>, D_loop 0)"
    using assms(2) by (intro oq_drain_loop) (simp_all add: q1_def m_def)
  moreover have "take m js = take kMaxOpsPerDrain js" "drop m js = drop kMaxOpsPerDrain js"
    by (simp_all add: m_def min_def)
  ultimately have "solo (oq_exec t) (2 + (6 * m + 3)) (q, D_lock) =
     solo (oq_exec t) 3 (q1\<lparr>m_jobs := map (Some \<circ> Job) (drop kMaxOpsPerDrain js),
       oq_started := oq_started q1 @ map Job (take kMaxOpsPerDrain js)\<rparr>, D_loop 0)"
    by (simp only: solo_add option.case)
  also have "\<dots> =
     Some (q\<lparr>m_jobs := map (Some \<circ> Job) (drop kMaxOpsPerDrain js),
             oq_started := oq_started q @ map Job (take kMaxOpsPerDrain js),
             m_active_drain := False,
             oq_pool := oq_pool q @ (if kMaxOpsPerDrain < length js then [m_priority q] else [])\<rparr>,
           OQ_idle)"
    unfolding oq_drain_finish using assms(1,3) by (cases q) (simp add: notify_unsafe_def q1_def)
  finally show ?thesis
    unfolding m_def[symmetric] using add.commute[of "6 * m" 5] by (simp only: ac_simps) simp
qed

theorem operation_queue_drain_witness:
  "solo (oq_exec 3) (6 * min (length [1::nat ..< 13]) kMaxOpsPerDrain + 5)
     ((operation_queue_new [] UTILITY)\<lparr>m_jobs := map (Some \<circ> Job) [1 ..< 13]\<rparr>, D_lock) =
   Some ((operation_queue_new [] UTILITY)\<lparr>m_jobs := map (Some \<circ> Job) (drop kMaxOpsPerDrain [1 ..< 13]),
           oq_started := [] @ map Job (take kMaxOpsPerDrain [1 ..< 13]),
           oq_pool := [] @ (if kMaxOpsPerDrain < length [1::nat ..< 13] then [UTILITY] else [])\<rparr>, OQ_idle)"
proof -
  let ?q = "(operation_queue_new [] UTILITY)\<lparr>m_jobs := map (Some \<circ> Job) [1 ..< 13]\<rparr>"
  have "solo (oq_exec 3) (6 * min (length [1::nat ..< 13]) kMaxOpsPerDrain + 5) (?q, D_lock) =
     Some (?q\<lparr>m_jobs := map (Some \<circ> Job) (drop kMaxOpsPerDrain [1 ..< 13]),
             oq_started := oq_started ?q @ map Job (take kMaxOpsPerDrain [1 ..< 13]),
             m_active_drain := False,
             oq_pool := oq_pool ?q @ (if kMaxOpsPerDrain < length [1::nat ..< 13] then [m_priority ?q] else [])\<rparr>,
           OQ_idle)"
    by (rule operation_queue_drain) (simp_all add: operation_queue_new_def)
  then show ?thesis by (simp add: operation_queue_new_def)
qed

text \<open>
  An exception that leaves a job strands the queue: \<open>drain\<close> unwinds without queueing the
  wake-up for the remaining jobs. In the execution below the first of two jobs throws; the
  second stays in \<open>m_jobs\<close>, no wake-up is pending, and the next \<open>async\<close>, which finds
  the queue not empty, does not notify the pool either.
\<close>

theorem operation_queue_throw_strands_jobs:
  "\<exists>q. reach oq_step (\<lambda>_. True) (oq_init [] UTILITY 2) (q, [OQ_idle, T_threw]) \<and>
       m_jobs q = [Some (Job (2::nat)), Some (Job 3)] \<and> oq_pool q = [] \<and> \<not> m_active_drain q \<and> m_is_attached q"
proof -
  let ?async = "\<lambda>j. [(0, OE_call (OC_async j)), (0, OE_step), (0, OE_step), (0, OE_step)]"
  let ?es = "?async 1 @ ?async 2 @ [(1, OE_drain), (1, OE_step), (1, OE_step), (1, OE_step), (1, OE_step),
    (1, OE_step), (1, OE_throw), (1, OE_step), (1, OE_step), (1, OE_step)] @ ?async 3"
  let ?q = "(operation_queue_new [] UTILITY)
    \<lparr>m_jobs := [Some (Job (2::nat)), Some (Job 3)], m_is_attached := True,
     oq_accepted := [Job 1, Job 2, Job 3], oq_started := [Job 1]\<rparr>"
  have "run oq_step (oq_init [] UTILITY 2) ?es = Some (?q, [OQ_idle, T_threw])"
    by (simp add: oq_demo_defs)
  then have "reach oq_step (\<lambda>_. True) (oq_init [] UTILITY 2) (?q, [OQ_idle, T_threw])"
    by (rule reach_run) simp
  then show ?thesis by (intro exI[of _ ?q]) (simp add: operation_queue_new_def)
qed

end
