(* ===== verification/Consumable.thy ===== *)
theory Consumable
  imports Types
begin

text \<open>
  The countdown of outstanding work (\<open>src/naive/naive_consumable.{h,cpp}\<close>), the operations that
  consume from it (\<open>src/naive/naive_operations.{h,cpp}\<close>) and \<open>apply\<close> of the serial and parallel
  queues (\<open>src/naive/naive_serial_queue.cpp\<close>, \<open>src/naive/naive_parallel_queue.cpp\<close>), which waits for
  one.

  \<open>m_resources\<close> is the \<open>std::atomic<size_t>\<close>; it counts objects in memory, so an increment
  does not wrap, while the decrement of zero is written out. The barrier is used through its
  specification, \<open>con_barrier\<close> is \<open>bar_completed\<close> of theory \<open>Barrier\<close>. \<open>con_drained\<close> and \<open>con_reused\<close>
  are history: a decrement reached zero, and a resource was added after that.
\<close>

section \<open>The consumable\<close>

record consumable =
  m_preceeding :: "nat option"
  m_resources :: nat
  con_barrier :: bool
  con_drained :: bool
  con_reused :: bool

definition consumable_new :: "nat \<Rightarrow> nat option \<Rightarrow> consumable" where
  "consumable_new resources preceeding =
     \<lparr>m_preceeding = preceeding, m_resources = resources, con_barrier = False, con_drained = False,
      con_reused = False\<rparr>"

definition add_resource :: "consumable \<Rightarrow> consumable" where
  "add_resource c = c\<lparr>m_resources := m_resources c + 1, con_reused := con_reused c \<or> con_drained c\<rparr>"

text \<open>
  \<open>consume_resource\<close> is three steps: the assertion, the decrement, and the completion of the
  barrier by the thread whose decrement found 1.
\<close>

definition consume_assert :: "consumable \<Rightarrow> bool" where
  "consume_assert c \<longleftrightarrow> m_resources c > 0"

definition consume_sub :: "consumable \<Rightarrow> consumable \<times> bool" where
  "consume_sub c =
     (c\<lparr>m_resources := (if m_resources c = 0 then 2 ^ 64 - 1 else m_resources c - 1),
        con_drained := con_drained c \<or> m_resources c = 1\<rparr>,
      m_resources c = 1)"

definition consume_complete :: "consumable \<Rightarrow> consumable" where
  "consume_complete c = c\<lparr>con_barrier := True\<rparr>"

text \<open>A wait on the consumable itself needs no barrier when nothing is left.\<close>

definition consumed_at_once :: "consumable \<Rightarrow> bool" where
  "consumed_at_once c \<longleftrightarrow> m_resources c = 0"

lemmas consumable_defs = consumable_new_def add_resource_def consume_assert_def consume_sub_def
  consume_complete_def consumed_at_once_def

section \<open>Operations with a consumable\<close>

text \<open>
  The effects of the three operations of \<open>naive_operations.cpp\<close>, in the order of the code.
  The consumable is optional in each; \<open>delayed_operation\<close> also cancels and releases its
  timer, which breaks the ownership cycle between the two.
\<close>

datatype 'o op_effect = Execute 'o | Execute_index 'o nat | Consume | Cancel_timer | Release_timer

definition apply_operation :: "nat \<Rightarrow> 'o \<Rightarrow> bool \<Rightarrow> 'o op_effect list" where
  "apply_operation index op has_consumable =
     [Execute_index op index] @ (if has_consumable then [Consume] else [])"

definition consuming_operation :: "'o \<Rightarrow> bool \<Rightarrow> 'o op_effect list" where
  "consuming_operation op has_consumable = [Execute op] @ (if has_consumable then [Consume] else [])"

record 'o delayed_operation =
  do_timer :: bool
  do_op :: 'o
  do_consumable :: bool

definition delayed_operation_run :: "'o delayed_operation \<Rightarrow> 'o op_effect list \<times> 'o delayed_operation" where
  "delayed_operation_run d =
     ([Execute (do_op d)] @ (if do_consumable d then [Consume] else []) @
      (if do_timer d then [Cancel_timer, Release_timer] else []),
      d\<lparr>do_timer := False\<rparr>)"

section \<open>apply\<close>

text \<open>
  \<open>apply(times, op)\<close>: the caller queues one \<open>apply_operation\<close> per index and waits for the
  consumable. \<open>ap_queued\<close> holds the indices handed to the queue, which any
  thread may take in any order; \<open>ap_running\<close> those being executed and \<open>ap_done\<close> those
  whose iteration has returned. \<open>ap_i\<close> is the loop variable.
\<close>

record apply_state =
  ap_times :: nat
  ap_i :: nat
  completed :: consumable
  ap_queued :: "nat list"
  ap_running :: "nat list"
  ap_done :: "nat list"

datatype apply_pc =
  AP_loop
| AP_test
| AP_block
| AP_ret
| AW_idle
| AW_run nat
| AW_assert
| AW_sub
| AW_complete
| AW_terminated

datatype apply_event = AE_take nat | AE_step

fun apply_exec :: "apply_state \<Rightarrow> apply_pc \<Rightarrow> (apply_state \<times> apply_pc) option" where
  "apply_exec s AP_loop =
     (if ap_i s < ap_times s then Some (s\<lparr>ap_queued := ap_queued s @ [ap_i s], ap_i := ap_i s + 1\<rparr>, AP_loop)
      else Some (s, AP_test))"
| "apply_exec s AP_test = Some (s, if consumed_at_once (completed s) then AP_ret else AP_block)"
| "apply_exec s AP_block = (if con_barrier (completed s) then Some (s, AP_ret) else None)"
| "apply_exec s (AW_run i) =
     Some (s\<lparr>ap_running := remove1 i (ap_running s), ap_done := ap_done s @ [i]\<rparr>, AW_assert)"
| "apply_exec s AW_assert = Some (s, if consume_assert (completed s) then AW_sub else AW_terminated)"
| "apply_exec s AW_sub =
     (let (c, final) = consume_sub (completed s)
      in Some (s\<lparr>completed := c\<rparr>, if final then AW_complete else AW_idle))"
| "apply_exec s AW_complete = Some (s\<lparr>completed := consume_complete (completed s)\<rparr>, AW_idle)"
| "apply_exec s _ = None"

fun apply_local :: "tid \<Rightarrow> apply_event \<Rightarrow> apply_state \<Rightarrow> apply_pc \<Rightarrow> (apply_state \<times> apply_pc) option" where
  "apply_local t (AE_take k) s pc =
     (if pc = AW_idle \<and> k < length (ap_queued s)
      then Some (s\<lparr>ap_queued := take k (ap_queued s) @ drop (Suc k) (ap_queued s),
                   ap_running := ap_queued s ! k # ap_running s\<rparr>, AW_run (ap_queued s ! k))
      else None)"
| "apply_local t AE_step s pc = apply_exec s pc"

type_synonym apply_sys = "(apply_state, apply_pc) sys"

abbreviation apply_step :: "apply_sys \<Rightarrow> tid \<times> apply_event \<Rightarrow> apply_sys option" where
  "apply_step \<equiv> sys_step apply_local"

definition apply_init :: "nat \<Rightarrow> nat \<Rightarrow> apply_sys" where
  "apply_init k workers =
     (\<lparr>ap_times = k, ap_i = 0, completed = consumable_new k None, ap_queued = [],
       ap_running = [], ap_done = []\<rparr>,
      AP_loop # replicate workers AW_idle)"

section \<open>The invariant of apply\<close>

datatype apply_key = AK_hold | AK_last | AK_loop | AK_run nat

fun apply_weight :: "apply_key \<Rightarrow> apply_pc \<Rightarrow> int" where
  "apply_weight AK_hold pc = (if pc = AW_assert \<or> pc = AW_sub then 1 else 0)"
| "apply_weight AK_last pc = (if pc = AW_complete then 1 else 0)"
| "apply_weight AK_loop pc = (if pc = AP_loop then 1 else 0)"
| "apply_weight (AK_run i) pc = (if pc = AW_run i then 1 else 0)"

definition apply_count_ok :: "apply_state \<Rightarrow> (apply_key \<Rightarrow> int) \<Rightarrow> bool" where
  "apply_count_ok s n \<longleftrightarrow>
     int (m_resources (completed s)) =
       int (length (ap_queued s)) + int (length (ap_running s)) + n AK_hold + (int (ap_times s) - int (ap_i s)) \<and>
     (\<forall>i. int (count (mset (ap_running s)) i) = n (AK_run i))"

definition apply_sh_ok :: "apply_state \<Rightarrow> (apply_key \<Rightarrow> int) \<Rightarrow> bool" where
  "apply_sh_ok s n \<longleftrightarrow> apply_count_ok s n \<and>
     ap_i s \<le> ap_times s \<and> (ap_i s < ap_times s \<longrightarrow> 0 < n AK_loop) \<and>
     mset (ap_done s) + mset (ap_queued s) + mset (ap_running s) = mset [0 ..< ap_i s] \<and>
     (con_barrier (completed s) \<longrightarrow> con_drained (completed s)) \<and>
     (con_drained (completed s) \<longrightarrow> m_resources (completed s) = 0 \<and> (con_barrier (completed s) \<or> 0 < n AK_last)) \<and>
     \<not> con_reused (completed s)"

definition apply_pc_ok :: "apply_state \<Rightarrow> (apply_key \<Rightarrow> int) \<Rightarrow> apply_pc \<Rightarrow> bool" where
  "apply_pc_ok s n pc \<longleftrightarrow>
     (pc \<in> {AP_test, AP_block, AP_ret} \<longrightarrow> ap_i s = ap_times s) \<and>
     (pc = AP_ret \<longrightarrow> m_resources (completed s) = 0) \<and>
     (pc = AP_block \<longrightarrow> 0 < m_resources (completed s) \<or> con_drained (completed s)) \<and>
     (pc = AW_complete \<longrightarrow> con_drained (completed s)) \<and> pc \<noteq> AW_terminated"

lemma apply_weight_nonneg: "0 \<le> apply_weight k pc"
  by (cases k) auto

lemma mset_take_drop_nth: "k < length xs \<Longrightarrow> add_mset (xs ! k) (mset (take k xs) + mset (drop (Suc k) xs)) = mset xs"
  by (metis id_take_nth_drop mset.simps(2) mset_append union_mset_add_mset_right)

lemma apply_take_ok:
  assumes "k < length (ap_queued s)" and "apply_sh_ok s (\<lambda>x. n x + apply_weight x AW_idle)"
  shows "apply_sh_ok (s\<lparr>ap_queued := take k (ap_queued s) @ drop (Suc k) (ap_queued s),
           ap_running := ap_queued s ! k # ap_running s\<rparr>) (\<lambda>x. n x + apply_weight x (AW_run (ap_queued s ! k)))"
proof -
  have "length (ap_queued s) = Suc (length (take k (ap_queued s) @ drop (Suc k) (ap_queued s)))"
    using assms(1) by simp
  moreover have "mset (ap_queued s) =
      add_mset (ap_queued s ! k) (mset (take k (ap_queued s) @ drop (Suc k) (ap_queued s)))"
    using mset_take_drop_nth[OF assms(1)] by simp
  ultimately show ?thesis using assms(2) by (auto simp: apply_sh_ok_def apply_count_ok_def)
qed

lemma apply_run_ok:
  assumes "apply_sh_ok s (\<lambda>x. n x + apply_weight x (AW_run i))" and "\<And>x. 0 \<le> n x"
  shows "apply_sh_ok (s\<lparr>ap_running := remove1 i (ap_running s), ap_done := ap_done s @ [i]\<rparr>)
           (\<lambda>x. n x + apply_weight x AW_assert)"
proof -
  have "int (count (mset (ap_running s)) i) = n (AK_run i) + 1"
    using assms(1) by (auto simp: apply_sh_ok_def apply_count_ok_def)
  with assms(2)[of "AK_run i"] have "0 < count (mset (ap_running s)) i" by linarith
  then have i: "i \<in> set (ap_running s)" by (simp only: count_greater_zero_iff set_mset_mset)
  define r where "r = remove1 i (ap_running s)"
  have "length (ap_running s) = Suc (length r)"
    using i by (simp add: r_def length_remove1) (metis Suc_pred length_pos_if_in_set)
  moreover have r: "mset (ap_running s) = add_mset i (mset r)"
    using i by (simp add: r_def)
  moreover have "int (count (mset r) x) = n (AK_run x)" for x
  proof -
    have "int (count (mset (ap_running s)) x) = n (AK_run x) + apply_weight (AK_run x) (AW_run i)"
      using assms(1) by (simp only: apply_sh_ok_def apply_count_ok_def)
    then show ?thesis using r by (auto split: if_splits)
  qed
  ultimately show ?thesis
    using assms(1) unfolding r_def[symmetric] by (auto simp: apply_sh_ok_def apply_count_ok_def)
qed

lemma apply_sub_ok:
  assumes "apply_sh_ok s (\<lambda>x. n x + apply_weight x AW_sub)" and "\<And>x. 0 \<le> n x"
    and "consume_sub (completed s) = (c, final)"
  shows "apply_sh_ok (s\<lparr>completed := c\<rparr>) (\<lambda>x. n x + apply_weight x (if final then AW_complete else AW_idle)) \<and>
         m_resources c = m_resources (completed s) - 1 \<and> (con_drained (completed s) \<longrightarrow> con_drained c) \<and>
         (0 < m_resources c \<or> con_drained c)"
proof -
  have "int (m_resources (completed s)) = int (length (ap_queued s)) + int (length (ap_running s)) +
      n AK_hold + 1 + (int (ap_times s) - int (ap_i s))" "ap_i s \<le> ap_times s"
    using assms(1) by (auto simp: apply_sh_ok_def apply_count_ok_def)
  with assms(2)[of AK_hold] have r: "0 < m_resources (completed s)" by linarith
  then show ?thesis
    using assms by (auto simp: apply_sh_ok_def apply_count_ok_def consume_sub_def)
qed

lemma apply_local_ok:
  assumes "apply_local t e s pc = Some (s', pc')" and "\<And>k. 0 \<le> n k"
    and ok: "apply_sh_ok s (\<lambda>k. n k + apply_weight k pc)" and "apply_pc_ok s (\<lambda>k. n k + apply_weight k pc) pc"
  shows "apply_sh_ok s' (\<lambda>k. n k + apply_weight k pc') \<and> apply_pc_ok s' (\<lambda>k. n k + apply_weight k pc') pc' \<and>
         (\<forall>p. apply_pc_ok s (\<lambda>k. n k + apply_weight k pc) p \<longrightarrow> apply_pc_ok s' (\<lambda>k. n k + apply_weight k pc') p)"
proof (cases e)
  case (AE_take k)
  then have *: "pc = AW_idle" "k < length (ap_queued s)" "pc' = AW_run (ap_queued s ! k)"
    "s' = s\<lparr>ap_queued := take k (ap_queued s) @ drop (Suc k) (ap_queued s),
            ap_running := ap_queued s ! k # ap_running s\<rparr>"
    using assms(1) by (simp_all split: if_splits)
  then show ?thesis
    using apply_take_ok[of k s n] ok unfolding * by (simp add: apply_pc_ok_def)
next
  case AE_step
  show ?thesis
  proof (cases pc)
    case AP_loop
    then show ?thesis using assms AE_step
      by (auto simp: atLeastLessThanSuc apply_sh_ok_def apply_count_ok_def apply_pc_ok_def split: if_splits)
  next
    case (AW_run i)
    then have *: "s' = s\<lparr>ap_running := remove1 i (ap_running s), ap_done := ap_done s @ [i]\<rparr>" "pc' = AW_assert"
      using assms(1) AE_step by simp_all
    show ?thesis using ok apply_run_ok[of s n i] assms(2) unfolding AW_run * by (simp add: apply_pc_ok_def)
  next
    case AW_sub
    obtain c final where c: "consume_sub (completed s) = (c, final)" by fastforce
    have s': "s' = s\<lparr>completed := c\<rparr>" "pc' = (if final then AW_complete else AW_idle)"
      using assms(1) AE_step AW_sub c by simp_all
    note sub = apply_sub_ok[OF ok[unfolded AW_sub] assms(2) c]
    have "\<forall>p. apply_pc_ok s (\<lambda>k. n k + apply_weight k pc) p \<longrightarrow> apply_pc_ok s' (\<lambda>k. n k + apply_weight k pc') p"
      using sub s'(1) by (auto simp: apply_pc_ok_def)
    moreover have "apply_pc_ok s' (\<lambda>k. n k + apply_weight k pc') pc'"
      using s' c by (auto simp: apply_pc_ok_def consume_sub_def)
    ultimately show ?thesis using sub unfolding s' by simp
  next
    case AW_assert
    then have "0 < m_resources (completed s)"
      using ok assms(2)[of AK_hold] by (auto simp: apply_sh_ok_def apply_count_ok_def)
    then show ?thesis using assms AE_step AW_assert
      by (auto simp: apply_sh_ok_def apply_count_ok_def apply_pc_ok_def consume_assert_def)
  next
    case AP_test
    then show ?thesis using assms AE_step
      by (auto simp: apply_sh_ok_def apply_count_ok_def apply_pc_ok_def consumed_at_once_def split: if_splits)
  next
    case AP_block
    then show ?thesis using assms AE_step
      by (auto simp: apply_sh_ok_def apply_count_ok_def apply_pc_ok_def split: if_splits)
  next
    case AW_complete
    then show ?thesis using assms AE_step
      by (auto simp: apply_sh_ok_def apply_count_ok_def apply_pc_ok_def consume_complete_def)
  qed (use assms AE_step in auto)
qed

interpretation apply_invariant: counting_system apply_local "\<lambda>_. True" apply_weight apply_sh_ok apply_pc_ok
  by unfold_locales (use apply_weight_nonneg apply_local_ok in blast)+

lemma apply_reach_ok:
  assumes "reach apply_step (\<lambda>_. True) (apply_init k workers) (s, ts)"
  shows "apply_sh_ok s (\<lambda>k. tsum (apply_weight k) ts)" and "\<forall>pc \<in> set ts. apply_pc_ok s (\<lambda>k. tsum (apply_weight k) ts) pc"
proof -
  have "apply_invariant.count_inv (apply_init k workers)"
    unfolding apply_invariant.count_inv_def
    by (auto simp: apply_init_def apply_sh_ok_def apply_count_ok_def apply_pc_ok_def consumable_new_def)
  from apply_invariant.reach_inv[OF assms this]
  show "apply_sh_ok s (\<lambda>k. tsum (apply_weight k) ts)" "\<forall>pc \<in> set ts. apply_pc_ok s (\<lambda>k. tsum (apply_weight k) ts) pc"
    by (auto simp: apply_invariant.count_inv_def)
qed

lemma apply_times:
  "reach apply_step ok (apply_init k workers) s \<Longrightarrow> ap_times (fst s) = k"
proof (induction rule: reach.induct)
  case reach_refl
  then show ?case by (simp add: apply_init_def)
next
  case (reach_step s e t)
  have "ap_times s' = ap_times s" if "apply_local t e s pc = Some (s', pc')" for t e s pc s' pc'
    using that by (cases e; cases pc) (auto split: if_splits prod.splits)
  then show ?case using reach_step by (auto elim!: sys_step_Some)
qed

section \<open>Properties\<close>

text \<open>
  C18. \<open>apply\<close> returns only after every iteration has returned, and each index below
  \<open>times\<close> has been executed exactly once, whatever threads execute the operations and in
  whatever order. The assertion of \<open>consume_resource\<close> never fails.
\<close>

theorem apply_returns_when_done:
  assumes "reach apply_step (\<lambda>_. True) (apply_init k workers) (s, ts)"
  shows "(AP_ret \<in> set ts \<longrightarrow> mset (ap_done s) = mset [0 ..< k]) \<and> AW_terminated \<notin> set ts"
proof
  note ok = apply_reach_ok[OF assms]
  have times: "ap_times s = k" using apply_times[OF assms] by simp
  show "AP_ret \<in> set ts \<longrightarrow> mset (ap_done s) = mset [0 ..< k]"
  proof
    assume "AP_ret \<in> set ts"
    then have "ap_i s = ap_times s" "m_resources (completed s) = 0"
      using ok(2) by (auto simp: apply_pc_ok_def)
    moreover have "0 \<le> tsum (apply_weight AK_hold) ts"
      by (rule tsum_nonneg) (rule apply_weight_nonneg)
    ultimately have "int (length (ap_queued s)) + int (length (ap_running s)) \<le> 0"
      using ok(1) unfolding apply_sh_ok_def apply_count_ok_def by linarith
    then have "length (ap_queued s) = 0" "length (ap_running s) = 0" by linarith+
    then have "ap_queued s = []" "ap_running s = []" by simp_all
    then show "mset (ap_done s) = mset [0 ..< k]"
      using ok(1) times \<open>ap_i s = ap_times s\<close> by (simp add: apply_sh_ok_def)
  qed
  show "AW_terminated \<notin> set ts" using ok(2) unfolding apply_pc_ok_def by blast
qed

definition apply_demo :: apply_sys where
  "apply_demo =
     (\<lparr>ap_times = 2, ap_i = 2,
       completed = \<lparr>m_preceeding = None, m_resources = 0, con_barrier = True, con_drained = True, con_reused = False\<rparr>,
       ap_queued = [], ap_running = [], ap_done = [1, 0]\<rparr>, [AP_ret, AW_idle])"

lemma apply_demo_reach: "reach apply_step (\<lambda>_. True) (apply_init 2 1) apply_demo"
  by (rule reach_run[where es = "[(0, AE_step), (0, AE_step), (0, AE_step), (0, AE_step), (1, AE_take 1),
        (1, AE_step), (1, AE_step), (1, AE_step), (1, AE_take 0), (1, AE_step), (1, AE_step), (1, AE_step),
        (1, AE_step), (0, AE_step)]"])
     (simp_all add: apply_demo_def apply_init_def consumable_defs)

theorem apply_returns_when_done_witness: "mset (ap_done (fst apply_demo)) = mset [0 ..< 2]"
proof (rule apply_returns_when_done[THEN conjunct1, THEN mp])
  show "reach apply_step (\<lambda>_. True) (apply_init 2 1) (fst apply_demo, snd apply_demo)"
    using apply_demo_reach by simp
qed (simp add: apply_demo_def)

text \<open>
  The caller of \<open>apply\<close> is never stranded: while it waits and the barrier is not complete,
  an operation is still queued, or another thread is executing or finishing one and can take its next step.
\<close>

theorem apply_not_stranded:
  assumes "reach apply_step (\<lambda>_. True) (apply_init k workers) (s, ts)"
    and "t < length ts" and "ts ! t = AP_block"
  shows "apply_step (s, ts) (t, AE_step) \<noteq> None \<or> ap_queued s \<noteq> [] \<or>
         (\<exists>u < length ts. u \<noteq> t \<and> apply_step (s, ts) (u, AE_step) \<noteq> None)"
proof -
  note ok = apply_reach_ok[OF assms(1)]
  have *: "u \<noteq> t \<and> apply_step (s, ts) (u, AE_step) \<noteq> None"
    if "u < length ts" "0 < apply_weight key (ts ! u)" for u key
    using that assms(3) by (cases key; cases "ts ! u") (auto simp: Let_def consume_sub_def split: if_splits)
  consider "con_barrier (completed s)" | key where "0 < tsum (apply_weight key) ts" | "ap_queued s \<noteq> []"
  proof -
    have "ap_i s = ap_times s" "0 < m_resources (completed s) \<or> con_drained (completed s)"
      using ok(2) assms(2,3) nth_mem[OF assms(2)] by (auto simp: apply_pc_ok_def)
    moreover have "0 < tsum (apply_weight (AK_run i)) ts" if "i \<in> set (ap_running s)" for i
    proof -
      have "int (count (mset (ap_running s)) i) = tsum (apply_weight (AK_run i)) ts"
        using ok(1) by (simp only: apply_sh_ok_def apply_count_ok_def)
      moreover have "0 < count (mset (ap_running s)) i" using that by simp
      ultimately show ?thesis by linarith
    qed
    moreover have "int (m_resources (completed s)) = tsum (apply_weight AK_hold) ts"
      if "ap_i s = ap_times s" "ap_running s = []" "ap_queued s = []"
      using ok(1) that by (simp add: apply_sh_ok_def apply_count_ok_def)
    moreover have "con_drained (completed s) \<longrightarrow> con_barrier (completed s) \<or> 0 < tsum (apply_weight AK_last) ts"
      using ok(1) by (simp add: apply_sh_ok_def)
    ultimately have "con_barrier (completed s) \<or> 0 < tsum (apply_weight AK_last) ts \<or>
        0 < tsum (apply_weight AK_hold) ts \<or> 0 < tsum (apply_weight (AK_run (hd (ap_running s)))) ts \<or> ap_queued s \<noteq> []"
      by (metis hd_in_set of_nat_0_less_iff)
    then show ?thesis using that by blast
  qed
  then show ?thesis
  proof cases
    case 1
    then show ?thesis using assms(2,3) by simp
  next
    case (2 key)
    then show ?thesis using tsum_pos_member * by blast
  qed simp
qed

definition apply_demo_blocked :: apply_sys where
  "apply_demo_blocked =
     (\<lparr>ap_times = 1, ap_i = 1, completed = consumable_new 1 None, ap_queued = [0], ap_running = [], ap_done = []\<rparr>,
      [AP_block, AW_idle])"

theorem apply_not_stranded_witness: "ap_queued (fst apply_demo_blocked) \<noteq> []"
proof -
  have "reach apply_step (\<lambda>_. True) (apply_init 1 1) (fst apply_demo_blocked, snd apply_demo_blocked)"
    by (rule reach_run[where es = "[(0, AE_step), (0, AE_step), (0, AE_step)]"])
       (simp_all add: apply_demo_blocked_def apply_init_def consumable_defs)
  from apply_not_stranded[OF this, of 0]
  have "apply_step apply_demo_blocked (0, AE_step) \<noteq> None \<or> ap_queued (fst apply_demo_blocked) \<noteq> [] \<or>
     (\<exists>u < length (snd apply_demo_blocked). u \<noteq> 0 \<and> apply_step apply_demo_blocked (u, AE_step) \<noteq> None)"
    by (simp add: apply_demo_blocked_def)
  then show ?thesis
    by (elim disjE) (auto simp: apply_demo_blocked_def consumable_new_def less_Suc_eq)
qed

end
