(* ===== verification/Group.thy ===== *)
theory Group
  imports Consumable
begin

text \<open>
  Groups of operations (\<open>src/naive/naive_group.cpp\<close>): \<open>async\<close>, \<open>wait\<close> and \<open>notify\<close>, with the
  recursive \<open>consumable::wait_for_consumed\<close> over the chain of consumables.

  The consumables are objects in a heap, a list; a pointer is an index. \<open>wait\<close> publishes a new
  consumable behind the current one, so the chain of a consumable is all those before it.
  The operations of a group are numbered in the order in which they are handed to their
  queue; \<open>gr_pending\<close> holds those not yet started with their consumable, \<open>gr_running\<close> those being executed and
  \<open>gr_finished\<close> the numbers of those that have returned. \<open>gr_blocked\<close> counts the threads
  inside \<open>ithreadpool::block_scope\<close>. A call of \<open>wait\<close> carries the number of operations handed
  over before it.
\<close>

section \<open>The model\<close>

record 'o group_impl =
  gr_heap :: "consumable list"
  m_consumable :: nat
  gr_next :: nat
  gr_pending :: "(nat \<times> nat) list"
  gr_running :: "(nat \<times> nat) list"
  gr_finished :: "nat list"
  gr_blocked :: int
  gr_pool :: "('o \<times> queue_priority) list"
  gr_notified :: "'o list"

definition group_impl_new :: "'o group_impl" where
  "group_impl_new =
     \<lparr>gr_heap = [consumable_new 0 None], m_consumable = 0, gr_next = 0, gr_pending = [],
      gr_running = [], gr_finished = [], gr_blocked = 0, gr_pool = [], gr_notified = []\<rparr>"

text \<open>The arguments of a wait: its timeout, the operations before it, the operation to queue afterwards.\<close>

datatype 'o wait_call = Wait_call (wc_timeout: milliseconds) (wc_before: nat) (wc_notify: "'o option")

datatype 'o group_pc =
  G_idle
| GA_load
| GA_add nat
| GA_post nat
| GW_run nat nat
| GC_assert nat
| GC_sub nat
| GC_complete nat
| W_load "'o wait_call"
| W_cas "'o wait_call" nat
| W_down "'o wait_call" nat "nat list"
| W_test "'o wait_call" nat "nat list"
| W_block "'o wait_call" nat "nat list"
| W_ret "'o wait_call" bool
| G_terminated

datatype 'o group_event =
  GE_async
| GE_wait milliseconds
| GE_notify 'o
| GE_run nat
| GE_run_notify
| GE_cas_fail
| GE_timeout
| GE_step

text \<open>Completion of one link of the chain: the recursion returns true to its caller.\<close>

fun wait_link_done :: "'o wait_call \<Rightarrow> nat list \<Rightarrow> 'o group_pc" where
  "wait_link_done w [] = W_ret w True"
| "wait_link_done w (c # stack) = W_test w c stack"

definition heap_update :: "nat \<Rightarrow> (consumable \<Rightarrow> consumable) \<Rightarrow> 'o group_impl \<Rightarrow> 'o group_impl" where
  "heap_update c f g = g\<lparr>gr_heap := (gr_heap g)[c := f (gr_heap g ! c)]\<rparr>"

abbreviation milliseconds_max :: milliseconds where
  "milliseconds_max \<equiv> 9223372036854775807"

fun group_exec :: "'o group_impl \<Rightarrow> 'o group_pc \<Rightarrow> ('o group_impl \<times> 'o group_pc) option" where
  "group_exec g GA_load = Some (g, GA_add (m_consumable g))"
| "group_exec g (GA_add c) = Some (heap_update c add_resource g, GA_post c)"
| "group_exec g (GA_post c) =
     Some (g\<lparr>gr_pending := gr_pending g @ [(gr_next g, c)], gr_next := gr_next g + 1\<rparr>, G_idle)"
| "group_exec g (GW_run n c) =
     Some (g\<lparr>gr_running := remove1 (n, c) (gr_running g), gr_finished := gr_finished g @ [n]\<rparr>, GC_assert c)"
| "group_exec g (GC_assert c) =
     Some (g, if consume_assert (gr_heap g ! c) then GC_sub c else G_terminated)"
| "group_exec g (GC_sub c) =
     Some (heap_update c (fst \<circ> consume_sub) g,
           if snd (consume_sub (gr_heap g ! c)) then GC_complete c else G_idle)"
| "group_exec g (GC_complete c) = Some (heap_update c consume_complete g, G_idle)"
| "group_exec g (W_load w) = Some (g, W_cas w (m_consumable g))"
| "group_exec g (W_cas w old_c) =
     (if m_consumable g = old_c
      then Some (g\<lparr>gr_heap := gr_heap g @ [consumable_new 0 (Some old_c)], m_consumable := length (gr_heap g)\<rparr>,
                 W_down w old_c [])
      else Some (g, W_load w))"
| "group_exec g (W_down w c stack) =
     (case m_preceeding (gr_heap g ! c) of
        None \<Rightarrow> Some (g, W_test w c stack)
      | Some p \<Rightarrow> Some (g, if p \<noteq> c then W_down w p (c # stack) else W_test w c stack))"
| "group_exec g (W_test w c stack) =
     (if consumed_at_once (gr_heap g ! c) then Some (g, wait_link_done w stack)
      else Some (g\<lparr>gr_blocked := gr_blocked g + 1\<rparr>, W_block w c stack))"
| "group_exec g (W_block w c stack) =
     (if con_barrier (gr_heap g ! c)
      then Some (g\<lparr>gr_blocked := gr_blocked g - 1\<rparr>, wait_link_done w stack) else None)"
| "group_exec g (W_ret w r) =
     (case wc_notify w of
        None \<Rightarrow> None
      | Some op \<Rightarrow> Some (g\<lparr>gr_notified := gr_notified g @ [op]\<rparr>, G_idle))"
| "group_exec g _ = None"

text \<open>
  \<open>GE_run k\<close>: a thread of the queue starts the \<open>k\<close>-th operation that is pending. \<open>GE_notify\<close> hands
  the waiting operation of \<open>notify\<close> to the pool and \<open>GE_run_notify\<close> starts it.
  \<open>GE_cas_fail\<close> is a spurious failure of the weak exchange, \<open>GE_timeout\<close> the timeout of a wait for
  the barrier.
\<close>

fun group_free :: "'o group_pc \<Rightarrow> bool" where
  "group_free G_idle = True"
| "group_free (W_ret w r) = (wc_notify w = None)"
| "group_free _ = False"

fun group_local ::
  "tid \<Rightarrow> 'o group_event \<Rightarrow> 'o group_impl \<Rightarrow> 'o group_pc \<Rightarrow> ('o group_impl \<times> 'o group_pc) option" where
  "group_local t GE_async g pc = (if group_free pc then Some (g, GA_load) else None)"
| "group_local t (GE_wait timeout) g pc =
     (if group_free pc then Some (g, W_load (Wait_call timeout (gr_next g) None)) else None)"
| "group_local t (GE_notify op) g pc =
     (if group_free pc then Some (g\<lparr>gr_pool := gr_pool g @ [(op, PRIO_DEFAULT)]\<rparr>, G_idle) else None)"
| "group_local t (GE_run k) g pc =
     (if group_free pc \<and> k < length (gr_pending g)
      then Some (g\<lparr>gr_pending := take k (gr_pending g) @ drop (Suc k) (gr_pending g),
                   gr_running := gr_pending g ! k # gr_running g\<rparr>,
                 GW_run (fst (gr_pending g ! k)) (snd (gr_pending g ! k)))
      else None)"
| "group_local t GE_run_notify g pc =
     (case gr_pool g of
        [] \<Rightarrow> None
      | op # rest \<Rightarrow>
          if group_free pc
          then Some (g\<lparr>gr_pool := rest\<rparr>, W_load (Wait_call milliseconds_max (gr_next g) (Some (fst op))))
          else None)"
| "group_local t GE_cas_fail g pc = (case pc of W_cas w old_c \<Rightarrow> Some (g, W_load w) | _ \<Rightarrow> None)"
| "group_local t GE_timeout g pc =
     (case pc of
        W_block w c stack \<Rightarrow>
          if wc_timeout w \<noteq> -1 then Some (g\<lparr>gr_blocked := gr_blocked g - 1\<rparr>, W_ret w False) else None
      | _ \<Rightarrow> None)"
| "group_local t GE_step g pc = group_exec g pc"

type_synonym 'o group_sys = "('o group_impl, 'o group_pc) sys"

abbreviation group_step :: "'o group_sys \<Rightarrow> tid \<times> 'o group_event \<Rightarrow> 'o group_sys option" where
  "group_step \<equiv> sys_step group_local"

definition group_init :: "nat \<Rightarrow> 'o group_sys" where
  "group_init n = (group_impl_new, replicate n G_idle)"

section \<open>The invariant\<close>

datatype group_key = GK_hold nat | GK_last nat | GK_run "nat \<times> nat" | GK_blocked

fun group_weight :: "group_key \<Rightarrow> 'o group_pc \<Rightarrow> int" where
  "group_weight (GK_hold c) pc = (if pc \<in> {GA_post c, GC_assert c, GC_sub c} then 1 else 0)"
| "group_weight (GK_last c) pc = (if pc = GC_complete c then 1 else 0)"
| "group_weight (GK_run x) pc = (if pc = GW_run (fst x) (snd x) then 1 else 0)"
| "group_weight GK_blocked pc = (case pc of W_block w c stack \<Rightarrow> 1 | _ \<Rightarrow> 0)"

definition group_held :: "'o group_impl \<Rightarrow> (nat \<times> nat) set" where
  "group_held g = set (gr_pending g) \<union> set (gr_running g)"

definition on_consumable :: "nat \<Rightarrow> (nat \<times> nat) list \<Rightarrow> nat" where
  "on_consumable c xs = length (filter (\<lambda>x. snd x = c) xs)"

definition group_chain_ok :: "'o group_impl \<Rightarrow> bool" where
  "group_chain_ok g \<longleftrightarrow>
     Suc (m_consumable g) = length (gr_heap g) \<and>
     (\<forall>c < length (gr_heap g). m_preceeding (gr_heap g ! c) = (if c = 0 then None else Some (c - 1)))"

definition group_link_ok :: "consumable \<Rightarrow> int \<Rightarrow> int \<Rightarrow> bool" where
  "group_link_ok c held finishing \<longleftrightarrow>
     int (m_resources c) = held \<and> (con_barrier c \<longrightarrow> con_drained c) \<and>
     (con_drained c \<longrightarrow> (con_barrier c \<or> 0 < finishing) \<and> (con_reused c \<or> m_resources c = 0))"

definition group_ops_ok :: "'o group_impl \<Rightarrow> (group_key \<Rightarrow> int) \<Rightarrow> bool" where
  "group_ops_ok g n \<longleftrightarrow>
     (\<forall>x. int (count (mset (gr_running g)) x) = n (GK_run x)) \<and>
     (\<forall>x \<in> group_held g. fst x < gr_next g \<and> snd x < length (gr_heap g)) \<and>
     (\<forall>k < gr_next g. k \<in> set (gr_finished g) \<or> k \<in> fst ` group_held g) \<and>
     (\<forall>c \<ge> length (gr_heap g). n (GK_hold c) = 0) \<and>
     gr_blocked g = n GK_blocked"

definition group_sh_ok :: "'o group_impl \<Rightarrow> (group_key \<Rightarrow> int) \<Rightarrow> bool" where
  "group_sh_ok g n \<longleftrightarrow> group_chain_ok g \<and> group_ops_ok g n \<and>
     (\<forall>c < length (gr_heap g).
        group_link_ok (gr_heap g ! c)
          (int (on_consumable c (gr_pending g)) + int (on_consumable c (gr_running g)) + n (GK_hold c))
          (n (GK_last c)))"

definition group_reused :: "'o group_impl \<Rightarrow> bool" where
  "group_reused g \<longleftrightarrow> (\<exists>c \<in> set (gr_heap g). con_reused c)"

text \<open>
  \<open>waiting g w lo hi\<close>: among the operations handed over before \<open>w\<close>, those not yet finished
  belong to consumables from \<open>lo\<close> up to but not including \<open>hi\<close>.
\<close>

definition waiting :: "'o group_impl \<Rightarrow> 'o wait_call \<Rightarrow> nat \<Rightarrow> nat \<Rightarrow> bool" where
  "waiting g w lo hi \<longleftrightarrow> wc_before w \<le> gr_next g \<and>
     (\<forall>x \<in> group_held g. fst x < wc_before w \<longrightarrow> lo \<le> snd x \<and> snd x < hi)"

fun chain_stack :: "nat \<Rightarrow> nat list \<Rightarrow> bool" where
  "chain_stack c [] = True"
| "chain_stack c (d # stack) = (d = Suc c \<and> chain_stack d stack)"

fun group_pc_ok :: "'o group_impl \<Rightarrow> 'o group_pc \<Rightarrow> bool" where
  "group_pc_ok g (GA_add c) = (c < length (gr_heap g))"
| "group_pc_ok g (GA_post c) = (c < length (gr_heap g))"
| "group_pc_ok g (GW_run k c) = (c < length (gr_heap g))"
| "group_pc_ok g (GC_assert c) = (c < length (gr_heap g))"
| "group_pc_ok g (GC_sub c) = (c < length (gr_heap g))"
| "group_pc_ok g (GC_complete c) = (c < length (gr_heap g) \<and> con_drained (gr_heap g ! c))"
| "group_pc_ok g (W_load w) = (wc_before w \<le> gr_next g)"
| "group_pc_ok g (W_cas w old_c) = (old_c < length (gr_heap g) \<and> waiting g w 0 (Suc old_c))"
| "group_pc_ok g (W_down w c stack) =
     (c + length stack < length (gr_heap g) \<and> chain_stack c stack \<and>
      waiting g w 0 (Suc (c + length stack)))"
| "group_pc_ok g (W_test w c stack) =
     (c + length stack < length (gr_heap g) \<and> chain_stack c stack \<and>
      (group_reused g \<or> waiting g w c (Suc (c + length stack))))"
| "group_pc_ok g (W_block w c stack) =
     (c + length stack < length (gr_heap g) \<and> chain_stack c stack \<and>
      (group_reused g \<or> waiting g w c (Suc (c + length stack))) \<and>
      (0 < m_resources (gr_heap g ! c) \<or> con_drained (gr_heap g ! c)))"
| "group_pc_ok g (W_ret w r) = (r \<longrightarrow> group_reused g \<or> waiting g w 0 0)"
| "group_pc_ok g G_terminated = False"
| "group_pc_ok g _ = True"

section \<open>What a step changes for the other threads\<close>

definition group_le :: "'o group_impl \<Rightarrow> 'o group_impl \<Rightarrow> bool" where
  "group_le g g' \<longleftrightarrow>
     length (gr_heap g) \<le> length (gr_heap g') \<and> gr_next g \<le> gr_next g' \<and>
     (\<forall>x \<in> group_held g'. x \<in> group_held g \<or> gr_next g \<le> fst x) \<and>
     (\<forall>c < length (gr_heap g).
        (con_drained (gr_heap g ! c) \<longrightarrow> con_drained (gr_heap g' ! c)) \<and>
        (con_reused (gr_heap g ! c) \<longrightarrow> con_reused (gr_heap g' ! c)) \<and>
        (0 < m_resources (gr_heap g ! c) \<longrightarrow> 0 < m_resources (gr_heap g' ! c) \<or> con_drained (gr_heap g' ! c)))"

lemma group_le_same:
  "gr_heap g' = gr_heap g \<Longrightarrow> gr_next g' = gr_next g \<Longrightarrow> group_held g' \<subseteq> group_held g \<Longrightarrow> group_le g g'"
  by (auto simp: group_le_def)

lemma group_le_waiting:
  assumes "group_le g g'" and "waiting g w lo hi"
  shows "waiting g' w lo hi"
  unfolding waiting_def
proof (intro conjI ballI impI)
  fix x assume x: "x \<in> group_held g'" "fst x < wc_before w"
  then have "x \<in> group_held g"
    using assms unfolding group_le_def waiting_def by (meson leD less_le_trans)
  then show "lo \<le> snd x" "snd x < hi" using assms(2) x(2) by (auto simp: waiting_def)
qed (use assms in \<open>auto simp: group_le_def waiting_def\<close>)

lemma group_le_reused:
  assumes "group_le g g'" and "group_reused g"
  shows "group_reused g'"
proof -
  obtain c where c: "c < length (gr_heap g)" "con_reused (gr_heap g ! c)"
    using assms(2) by (auto simp: group_reused_def in_set_conv_nth)
  then have "c < length (gr_heap g')" "con_reused (gr_heap g' ! c)"
    using assms(1) by (auto simp: group_le_def)
  then show ?thesis by (auto simp: group_reused_def)
qed

lemma group_pc_ok_mono:
  assumes "group_le g g'" and "group_pc_ok g p"
  shows "group_pc_ok g' p"
proof -
  note mono = group_le_waiting[OF assms(1)] group_le_reused[OF assms(1)]
  have le: "length (gr_heap g) \<le> length (gr_heap g')" "gr_next g \<le> gr_next g'"
    "c < length (gr_heap g) \<Longrightarrow> con_drained (gr_heap g ! c) \<Longrightarrow> con_drained (gr_heap g' ! c)"
    "c < length (gr_heap g) \<Longrightarrow> 0 < m_resources (gr_heap g ! c) \<Longrightarrow>
       0 < m_resources (gr_heap g' ! c) \<or> con_drained (gr_heap g' ! c)" for c
    using assms(1) by (auto simp: group_le_def)
  show ?thesis
  proof (cases p)
    case (W_block w c stack)
    then show ?thesis using assms(2) le(1) le(3,4)[of c] mono by auto
  qed (use assms(2) le mono in \<open>auto intro: le(3) less_le_trans le_trans\<close>)
qed

text \<open>The steps of \<open>group_local\<close> as a case rule, with the unchanged parts named.\<close>

lemma group_weight_nonneg: "0 \<le> group_weight k pc"
  by (cases k; cases pc) auto

lemma group_weight_light [simp]:
  assumes "k \<noteq> GK_blocked"
  shows "group_weight k G_idle = 0" "group_weight k GA_load = 0" "group_weight k (GA_add c) = 0"
    "group_weight k (W_load w) = 0" "group_weight k (W_cas w c) = 0" "group_weight k (W_down w c stack) = 0"
    "group_weight k (W_test w c stack) = 0" "group_weight k (W_block w c stack) = 0" "group_weight k (W_ret w r) = 0"
    "group_weight k (GC_sub c) = group_weight k (GC_assert c)"
  using assms by (cases k; simp)+

lemma group_free_weight: "group_free pc \<Longrightarrow> group_weight k pc = 0"
  by (cases k; cases pc) auto

definition group_step_ok ::
  "'o group_impl \<Rightarrow> 'o group_impl \<Rightarrow> (group_key \<Rightarrow> int) \<Rightarrow> 'o group_pc \<Rightarrow> bool" where
  "group_step_ok g g' n pc' \<longleftrightarrow>
     group_le g g' \<and> group_sh_ok g' (\<lambda>k. n k + group_weight k pc') \<and> group_pc_ok g' pc'"

lemma group_sh_ok_same:
  assumes "group_sh_ok g n" and "gr_heap g' = gr_heap g" "m_consumable g' = m_consumable g"
    "gr_next g' = gr_next g" "gr_pending g' = gr_pending g" "gr_running g' = gr_running g"
    "gr_finished g' = gr_finished g" and "gr_blocked g' = n' GK_blocked"
    and "\<And>k. k \<noteq> GK_blocked \<Longrightarrow> n' k = n k"
  shows "group_sh_ok g' n'"
  using assms by (auto simp: group_sh_ok_def group_chain_ok_def group_ops_ok_def group_held_def)

lemma group_step_same:
  assumes "group_sh_ok g (\<lambda>k. n k + group_weight k pc)" and "gr_heap g' = gr_heap g"
    "m_consumable g' = m_consumable g" "gr_next g' = gr_next g" "gr_pending g' = gr_pending g"
    "gr_running g' = gr_running g" "gr_finished g' = gr_finished g"
    and "gr_blocked g' + group_weight GK_blocked pc = gr_blocked g + group_weight GK_blocked pc'"
    and "\<And>k. k \<noteq> GK_blocked \<Longrightarrow> group_weight k pc' = group_weight k pc"
    and "group_pc_ok g pc'"
  shows "group_step_ok g g' n pc'"
proof -
  have le: "group_le g g'" using assms(2-6) by (intro group_le_same) (auto simp: group_held_def)
  have "gr_blocked g = n GK_blocked + group_weight GK_blocked pc"
    using assms(1) by (simp add: group_sh_ok_def group_ops_ok_def)
  then have "group_sh_ok g' (\<lambda>k. n k + group_weight k pc')"
    using assms(8,9) by (intro group_sh_ok_same[OF assms(1-7)]) simp_all
  then show ?thesis using le group_pc_ok_mono[OF le assms(10)] by (simp add: group_step_ok_def)
qed

text \<open>A step that replaces one consumable.\<close>

lemma group_step_heap:
  assumes ok: "group_sh_ok g (\<lambda>k. n k + group_weight k pc)" and c: "c < length (gr_heap g)"
    and f: "m_preceeding (f (gr_heap g ! c)) = m_preceeding (gr_heap g ! c)"
    and link: "\<And>h. 0 \<le> h \<Longrightarrow>
        group_link_ok (gr_heap g ! c) (h + group_weight (GK_hold c) pc) (n (GK_last c) + group_weight (GK_last c) pc) \<Longrightarrow>
        group_link_ok (f (gr_heap g ! c)) (h + group_weight (GK_hold c) pc') (n (GK_last c) + group_weight (GK_last c) pc')"
    and mono: "con_drained (gr_heap g ! c) \<longrightarrow> con_drained (f (gr_heap g ! c))"
      "con_reused (gr_heap g ! c) \<longrightarrow> con_reused (f (gr_heap g ! c))"
      "0 < m_resources (gr_heap g ! c) \<longrightarrow> 0 < m_resources (f (gr_heap g ! c)) \<or> con_drained (f (gr_heap g ! c))"
    and same: "\<And>k. k \<noteq> GK_hold c \<Longrightarrow> k \<noteq> GK_last c \<Longrightarrow> group_weight k pc' = group_weight k pc"
    and n: "\<And>k. 0 \<le> n k"
    and pc': "group_pc_ok (heap_update c f g) pc'"
  shows "group_step_ok g (heap_update c f g) n pc'"
proof -
  let ?g = "heap_update c f g"
  have le: "group_le g ?g"
    using c mono by (auto simp: group_le_def heap_update_def group_held_def nth_list_update)
  have "group_chain_ok ?g"
    using ok c f by (auto simp: group_sh_ok_def group_chain_ok_def heap_update_def nth_list_update)
  moreover have "group_ops_ok ?g (\<lambda>k. n k + group_weight k pc')"
    using ok same c by (auto simp: group_sh_ok_def group_ops_ok_def heap_update_def group_held_def simp del: group_weight.simps)
  moreover have "group_link_ok (gr_heap ?g ! d)
      (int (on_consumable d (gr_pending ?g)) + int (on_consumable d (gr_running ?g)) +
        (n (GK_hold d) + group_weight (GK_hold d) pc')) (n (GK_last d) + group_weight (GK_last d) pc')"
    if "d < length (gr_heap ?g)" for d
  proof (cases "d = c")
    case True
    have "group_link_ok (gr_heap g ! c)
      (int (on_consumable c (gr_pending g)) + int (on_consumable c (gr_running g)) +
        (n (GK_hold c) + group_weight (GK_hold c) pc)) (n (GK_last c) + group_weight (GK_last c) pc)"
      using ok c by (simp add: group_sh_ok_def)
    then show ?thesis
      using True c n link[of "int (on_consumable c (gr_pending g)) + int (on_consumable c (gr_running g)) + n (GK_hold c)"]
      by (simp add: heap_update_def add.assoc)
  next
    case False
    then show ?thesis
      using ok same that by (simp add: group_sh_ok_def heap_update_def del: group_weight.simps)
  qed
  ultimately show ?thesis using le pc' by (simp add: group_step_ok_def group_sh_ok_def)
qed

lemma group_add_ok:
  fixes g :: "'o group_impl"
  assumes "group_sh_ok g (\<lambda>k. n k + group_weight k (GA_add c :: 'o group_pc))" and "group_pc_ok g (GA_add c)"
    and "\<And>k. 0 \<le> n k"
  shows "group_step_ok g (heap_update c add_resource g) n (GA_post c)"
proof (rule group_step_heap[where n = n and pc = "GA_add c", OF assms(1)])
  fix k assume "k \<noteq> GK_hold c" "k \<noteq> GK_last c"
  then show "group_weight k (GA_post c :: 'o group_pc) = group_weight k (GA_add c :: 'o group_pc)" by (cases k) auto
qed (use assms(2,3) in \<open>auto simp: add_resource_def group_link_ok_def heap_update_def\<close>)

lemma group_sub_ok:
  fixes g :: "'o group_impl"
  assumes "group_sh_ok g (\<lambda>k. n k + group_weight k (GC_sub c :: 'o group_pc))" and "group_pc_ok g (GC_sub c)"
    and "\<And>k. 0 \<le> n k"
  shows "group_step_ok g (heap_update c (fst \<circ> consume_sub) g) n
           (if snd (consume_sub (gr_heap g ! c)) then GC_complete c else G_idle)"
proof (rule group_step_heap[where n = n and pc = "GC_sub c", OF assms(1)])
  fix k assume "k \<noteq> GK_hold c" "k \<noteq> GK_last c"
  then show "group_weight k (if snd (consume_sub (gr_heap g ! c)) then GC_complete c else G_idle :: 'o group_pc) =
      group_weight k (GC_sub c :: 'o group_pc)" by (cases k) auto
qed (use assms(2,3) in \<open>auto simp: consume_sub_def group_link_ok_def heap_update_def\<close>)

lemma group_complete_ok:
  fixes g :: "'o group_impl"
  assumes "group_sh_ok g (\<lambda>k. n k + group_weight k (GC_complete c :: 'o group_pc))" and "group_pc_ok g (GC_complete c)"
    and "\<And>k. 0 \<le> n k"
  shows "group_step_ok g (heap_update c consume_complete g) n G_idle"
proof (rule group_step_heap[where n = n and pc = "GC_complete c", OF assms(1)])
  fix k assume "k \<noteq> GK_hold c" "k \<noteq> GK_last c"
  then show "group_weight k (G_idle :: 'o group_pc) = group_weight k (GC_complete c :: 'o group_pc)" by (cases k) auto
qed (use assms(2,3) in \<open>auto simp: consume_complete_def group_link_ok_def heap_update_def\<close>)

lemma on_consumable_simps [simp]:
  "on_consumable c [] = 0" "on_consumable c (x # xs) = (if snd x = c then 1 else 0) + on_consumable c xs"
  "on_consumable c (xs @ ys) = on_consumable c xs + on_consumable c ys"
  by (simp_all add: on_consumable_def)

lemma on_consumable_nth:
  assumes "k < length xs"
  shows "on_consumable c xs = on_consumable c (take k xs @ drop (Suc k) xs) + (if snd (xs ! k) = c then 1 else 0)"
  by (subst id_take_nth_drop[OF assms]) simp

lemma on_consumable_remove1:
  "x \<in> set xs \<Longrightarrow> on_consumable c xs = on_consumable c (remove1 x xs) + (if snd x = c then 1 else 0)"
  by (induction xs) auto

lemma on_consumable_zero: "on_consumable c xs = 0 \<Longrightarrow> x \<in> set xs \<Longrightarrow> snd x \<noteq> c"
  by (auto simp: on_consumable_def filter_empty_conv)

text \<open>A step that moves an operation between the lists and leaves the consumables alone.\<close>

lemma group_step_ops:
  fixes pc pc' :: "'o group_pc"
  assumes ok: "group_sh_ok g (\<lambda>k. n k + group_weight k pc)"
    and heap: "gr_heap g' = gr_heap g" "m_consumable g' = m_consumable g"
    and ops: "group_ops_ok g' (\<lambda>k. n k + group_weight k pc')"
    and hold: "\<And>c. int (on_consumable c (gr_pending g')) + int (on_consumable c (gr_running g')) +
          group_weight (GK_hold c) pc' =
        int (on_consumable c (gr_pending g)) + int (on_consumable c (gr_running g)) + group_weight (GK_hold c) pc"
      "\<And>c. group_weight (GK_last c) pc' = group_weight (GK_last c) pc"
    and le: "gr_next g \<le> gr_next g'" "\<And>x. x \<in> group_held g' \<Longrightarrow> x \<in> group_held g \<or> gr_next g \<le> fst x"
    and pc': "group_pc_ok g' pc'"
  shows "group_step_ok g g' n pc'"
proof -
  have "group_link_ok (gr_heap g' ! c)
      (int (on_consumable c (gr_pending g')) + int (on_consumable c (gr_running g')) +
        (n (GK_hold c) + group_weight (GK_hold c) pc')) (n (GK_last c) + group_weight (GK_last c) pc')"
    if "c < length (gr_heap g')" for c
  proof -
    have "group_link_ok (gr_heap g ! c)
      (int (on_consumable c (gr_pending g)) + int (on_consumable c (gr_running g)) +
        (n (GK_hold c) + group_weight (GK_hold c) pc)) (n (GK_last c) + group_weight (GK_last c) pc)"
      using ok that heap by (simp add: group_sh_ok_def del: group_weight.simps)
    moreover have "int (on_consumable c (gr_pending g')) + int (on_consumable c (gr_running g')) +
        (n (GK_hold c) + group_weight (GK_hold c) pc') =
      int (on_consumable c (gr_pending g)) + int (on_consumable c (gr_running g)) +
        (n (GK_hold c) + group_weight (GK_hold c) pc)" using hold(1)[of c] by linarith
    ultimately show ?thesis unfolding hold(2) heap by metis
  qed
  moreover have "group_chain_ok g'" using ok heap by (simp add: group_sh_ok_def group_chain_ok_def)
  moreover have "group_le g g'" using le heap by (simp add: group_le_def)
  ultimately show ?thesis using ops pc' by (simp add: group_step_ok_def group_sh_ok_def)
qed

lemma group_post_ok:
  fixes g :: "'o group_impl"
  assumes "group_sh_ok g (\<lambda>k. n k + group_weight k (GA_post c :: 'o group_pc))" and "group_pc_ok g (GA_post c)"
  shows "group_step_ok g (g\<lparr>gr_pending := gr_pending g @ [(gr_next g, c)], gr_next := gr_next g + 1\<rparr>) n G_idle"
proof (rule group_step_ops[OF assms(1)])
  show "group_ops_ok (g\<lparr>gr_pending := gr_pending g @ [(gr_next g, c)], gr_next := gr_next g + 1\<rparr>)
      (\<lambda>k. n k + group_weight k (G_idle :: 'o group_pc))"
    using assms by (auto simp: group_sh_ok_def group_ops_ok_def group_held_def less_Suc_eq)
qed (use assms in \<open>auto simp: group_held_def\<close>)

lemma group_run_ok:
  fixes g :: "'o group_impl" and pc :: "'o group_pc"
  assumes "group_sh_ok g (\<lambda>k. n k + group_weight k pc)" and free: "group_free pc" and k: "k < length (gr_pending g)"
  shows "group_step_ok g (g\<lparr>gr_pending := take k (gr_pending g) @ drop (Suc k) (gr_pending g),
           gr_running := gr_pending g ! k # gr_running g\<rparr>) n
           (GW_run (fst (gr_pending g ! k)) (snd (gr_pending g ! k)))"
proof (rule group_step_ops[OF assms(1)])
  let ?g = "g\<lparr>gr_pending := take k (gr_pending g) @ drop (Suc k) (gr_pending g),
           gr_running := gr_pending g ! k # gr_running g\<rparr>"
  have "set (gr_pending g) = insert (gr_pending g ! k) (set (take k (gr_pending g) @ drop (Suc k) (gr_pending g)))"
    using mset_take_drop_nth[OF k] by (metis mset_append set_mset_add_mset_insert set_mset_mset)
  then have held: "group_held ?g = group_held g" by (auto simp: group_held_def)
  show "group_ops_ok ?g (\<lambda>x. n x + group_weight x (GW_run (fst (gr_pending g ! k)) (snd (gr_pending g ! k)) :: 'o group_pc))"
    using assms(1) held by (auto simp: group_sh_ok_def group_ops_ok_def group_free_weight[OF free] prod_eq_iff
        simp del: group_weight.simps) (auto simp: prod_eq_iff)
  show "x \<in> group_held g \<or> gr_next g \<le> fst x" if "x \<in> group_held ?g" for x using that held by simp
  show "group_pc_ok ?g (GW_run (fst (gr_pending g ! k)) (snd (gr_pending g ! k)) :: 'o group_pc)"
    using assms(1) k by (auto simp: group_sh_ok_def group_ops_ok_def group_held_def)
qed (use on_consumable_nth[OF k] in \<open>auto simp: group_free_weight[OF free] simp del: group_weight.simps(4)\<close>)

lemma group_finish_ok:
  fixes g :: "'o group_impl"
  assumes ok: "group_sh_ok g (\<lambda>k. n k + group_weight k (GW_run k' c :: 'o group_pc))"
    and pc: "group_pc_ok g (GW_run k' c)" and n: "\<And>k. 0 \<le> n k"
  shows "group_step_ok g (g\<lparr>gr_running := remove1 (k', c) (gr_running g), gr_finished := gr_finished g @ [k']\<rparr>) n
           (GC_assert c)"
proof (rule group_step_ops[OF ok])
  let ?x = "(k', c)"
  let ?r = "remove1 ?x (gr_running g)"
  let ?g = "g\<lparr>gr_running := ?r, gr_finished := gr_finished g @ [k']\<rparr>"
  have cnt: "int (count (mset (gr_running g)) x) = n (GK_run x) + group_weight (GK_run x) (GW_run k' c :: 'o group_pc)" for x
    using ok by (simp only: group_sh_ok_def group_ops_ok_def)
  have "group_weight (GK_run ?x) (GW_run k' c :: 'o group_pc) = 1" by simp
  then have "0 < count (mset (gr_running g)) ?x" using cnt[of ?x] n[of "GK_run ?x"] by linarith
  then have x: "?x \<in> set (gr_running g)" by (simp only: count_greater_zero_iff set_mset_mset)
  then have m: "mset (gr_running g) = add_mset ?x (mset ?r)" by simp
  have "y = ?x \<or> y \<in> set ?r" if "y \<in> set (gr_running g)" for y
    using that in_set_remove1[of y ?x "gr_running g"] by blast
  then have sub: "set (gr_running g) \<subseteq> insert ?x (set ?r)" by blast
  have held: "group_held g \<subseteq> insert ?x (group_held ?g)" "group_held ?g \<subseteq> group_held g"
    using set_remove1_subset[of ?x "gr_running g"] sub by (auto simp: group_held_def)
  have "int (count (mset r) x) = n (GK_run x)" if "mset (gr_running g) = add_mset ?x (mset r)" for x r
    using cnt[of x] that by (auto simp: prod_eq_iff split: if_splits)
  then have "int (count (mset ?r) x) = n (GK_run x)" for x using m by blast
  moreover have "k \<in> set (gr_finished ?g) \<or> k \<in> fst ` group_held ?g" if "k < gr_next g" for k
  proof -
    have "k \<in> set (gr_finished g) \<or> k \<in> fst ` group_held g"
      using ok that by (auto simp: group_sh_ok_def group_ops_ok_def)
    then show ?thesis using held(1) by (auto simp: image_iff)
  qed
  moreover have "\<forall>x \<in> group_held ?g. fst x < gr_next g \<and> snd x < length (gr_heap g)"
    using ok held(2) by (auto simp: group_sh_ok_def group_ops_ok_def)
  moreover have "\<forall>d \<ge> length (gr_heap g). n (GK_hold d) = 0" "gr_blocked g = n GK_blocked"
    using ok by (auto simp: group_sh_ok_def group_ops_ok_def)
  ultimately show "group_ops_ok ?g (\<lambda>k. n k + group_weight k (GC_assert c :: 'o group_pc))"
    using pc by (simp add: group_ops_ok_def)
  show "x \<in> group_held g \<or> gr_next g \<le> fst x" if "x \<in> group_held ?g" for x using that held by auto
  show "int (on_consumable d (gr_pending ?g)) + int (on_consumable d (gr_running ?g)) +
        group_weight (GK_hold d) (GC_assert c :: 'o group_pc) =
      int (on_consumable d (gr_pending g)) + int (on_consumable d (gr_running g)) +
        group_weight (GK_hold d) (GW_run k' c :: 'o group_pc)" for d
    using on_consumable_remove1[OF x, of d] by simp
qed (use pc in auto)

lemma group_publish_ok:
  fixes g :: "'o group_impl"
  assumes ok: "group_sh_ok g (\<lambda>k. n k + group_weight k (W_cas w (m_consumable g) :: 'o group_pc))"
    and pc: "group_pc_ok g (W_cas w (m_consumable g))" and n: "\<And>k. 0 \<le> n k"
  shows "group_step_ok g (g\<lparr>gr_heap := gr_heap g @ [consumable_new 0 (Some (m_consumable g))],
           m_consumable := length (gr_heap g)\<rparr>) n (W_down w (m_consumable g) [])"
    (is "group_step_ok g ?g n ?pc")
proof -
  have le: "group_le g ?g" by (auto simp: group_le_def group_held_def nth_append)
  have held: "\<And>x. x \<in> group_held g \<Longrightarrow> snd x < length (gr_heap g)" and hold: "n (GK_hold (length (gr_heap g))) = 0"
    using ok by (auto simp: group_sh_ok_def group_ops_ok_def)
  then have "on_consumable (length (gr_heap g)) (gr_pending g) = 0" "on_consumable (length (gr_heap g)) (gr_running g) = 0"
    by (force simp: on_consumable_def filter_empty_conv group_held_def)+
  with hold have "group_link_ok (gr_heap ?g ! c)
      (int (on_consumable c (gr_pending ?g)) + int (on_consumable c (gr_running ?g)) + (n (GK_hold c) + group_weight (GK_hold c) ?pc))
      (n (GK_last c) + group_weight (GK_last c) ?pc)" if "c < length (gr_heap ?g)" for c
    using ok that
    by (cases "c = length (gr_heap g)") (auto simp: group_sh_ok_def group_link_ok_def consumable_new_def nth_append)
  moreover have "group_chain_ok ?g"
    using ok by (auto simp: group_sh_ok_def group_chain_ok_def consumable_new_def nth_append less_Suc_eq)
  moreover have "group_ops_ok ?g (\<lambda>k. n k + group_weight k ?pc)"
    using ok by (auto simp: group_sh_ok_def group_ops_ok_def group_held_def intro: less_SucI)
  moreover have "group_pc_ok ?g ?pc"
    using pc group_le_waiting[OF le] by simp
  ultimately show ?thesis using le by (simp add: group_step_ok_def group_sh_ok_def)
qed

lemma group_test_ok:
  fixes g :: "'o group_impl"
  assumes ok: "group_sh_ok g (\<lambda>k. n k + group_weight k (pc :: 'o group_pc))" and "c + length stack < length (gr_heap g)"
    and "chain_stack c stack" and "group_reused g \<or> waiting g w c (Suc (c + length stack))"
    and "m_resources (gr_heap g ! c) = 0" and "\<And>k. 0 \<le> n k"
  shows "group_pc_ok g (wait_link_done w stack)"
proof -
  have "snd x \<noteq> c" if "x \<in> group_held g" for x
  proof -
    have "group_link_ok (gr_heap g ! c)
      (int (on_consumable c (gr_pending g)) + int (on_consumable c (gr_running g)) + (n (GK_hold c) + group_weight (GK_hold c) pc))
      (n (GK_last c) + group_weight (GK_last c) pc)"
      using ok assms(2) by (auto simp: group_sh_ok_def simp del: group_weight.simps)
    then have "on_consumable c (gr_pending g) = 0" "on_consumable c (gr_running g) = 0"
      using assms(5) assms(6)[of "GK_hold c"] group_weight_nonneg[of "GK_hold c" pc] by (auto simp: group_link_ok_def)
    then show ?thesis
      using that on_consumable_zero[of c "gr_pending g" x] on_consumable_zero[of c "gr_running g" x]
      by (auto simp: group_held_def)
  qed
  then have "group_reused g \<or> waiting g w (Suc c) (Suc (c + length stack))"
    using assms(4) by (fastforce simp: waiting_def)
  then show ?thesis using assms(2,3)
    by (cases stack) (auto simp: waiting_def)
qed

lemma group_link_shape:
  assumes "group_sh_ok g (\<lambda>k. n k + group_weight k pc)" and "c < length (gr_heap g)" and "\<And>k. 0 \<le> n k"
  shows "group_weight (GK_hold c) pc = 1 \<Longrightarrow> 0 < m_resources (gr_heap g ! c)"
    and "con_barrier (gr_heap g ! c) \<Longrightarrow> con_reused (gr_heap g ! c) \<or> m_resources (gr_heap g ! c) = 0"
proof -
  have "group_link_ok (gr_heap g ! c)
      (int (on_consumable c (gr_pending g)) + int (on_consumable c (gr_running g)) + (n (GK_hold c) + group_weight (GK_hold c) pc))
      (n (GK_last c) + group_weight (GK_last c) pc)"
    using assms(1,2) by (auto simp: group_sh_ok_def simp del: group_weight.simps)
  then show "group_weight (GK_hold c) pc = 1 \<Longrightarrow> 0 < m_resources (gr_heap g ! c)"
    and "con_barrier (gr_heap g ! c) \<Longrightarrow> con_reused (gr_heap g ! c) \<or> m_resources (gr_heap g ! c) = 0"
    using assms(3)[of "GK_hold c"] by (auto simp: group_link_ok_def simp del: group_weight.simps)
qed

lemma group_link_weight [simp]:
  "k \<noteq> GK_blocked \<Longrightarrow> group_weight k (wait_link_done w stack) = 0"
  "(case wait_link_done w stack of W_block v c s \<Rightarrow> 1 | _ \<Rightarrow> (0::int)) = 0"
  by (cases stack; cases k; simp)+

lemma group_exec_ok:
  fixes g :: "'o group_impl"
  assumes step: "group_exec g pc = Some (g', pc')" and n: "\<And>k. 0 \<le> n k"
    and ok: "group_sh_ok g (\<lambda>k. n k + group_weight k pc)" and pc: "group_pc_ok g pc"
  shows "group_step_ok g g' n pc'"
proof (cases pc)
  case GA_load
  have "m_consumable g < length (gr_heap g)" using ok by (auto simp: group_sh_ok_def group_chain_ok_def)
  then show ?thesis using step ok GA_load
    by (intro group_step_same[OF ok]) auto
next
  case (GA_add c)
  then show ?thesis using step ok pc n group_add_ok[of g n c] by simp
next
  case (GA_post c)
  then show ?thesis using step ok pc group_post_ok[of g n c] by simp
next
  case (GW_run k c)
  then show ?thesis using step ok pc n group_finish_ok[of g n k c] by simp
next
  case (GC_assert c)
  have "group_weight (GK_hold c) pc = 1" using GC_assert by simp
  then have "0 < m_resources (gr_heap g ! c)" using group_link_shape(1)[OF ok] pc n GC_assert by simp
  then show ?thesis using step pc GC_assert
    by (intro group_step_same[OF ok]) (auto simp: consume_assert_def)
next
  case (GC_sub c)
  then show ?thesis using step ok pc n group_sub_ok[of g n c] by simp
next
  case (GC_complete c)
  then show ?thesis using step ok pc n group_complete_ok[of g n c] by simp
next
  case (W_load w)
  have "waiting g w 0 (Suc (m_consumable g))" "m_consumable g < length (gr_heap g)"
    using ok pc W_load by (auto simp: group_sh_ok_def group_ops_ok_def group_chain_ok_def waiting_def)
  then show ?thesis using step W_load
    by (intro group_step_same[OF ok]) auto
next
  case (W_cas w old_c)
  show ?thesis
  proof (cases "m_consumable g = old_c")
    case True
    then show ?thesis using step ok pc n W_cas group_publish_ok[of g n w] by simp
  next
    case False
    then show ?thesis using step pc W_cas
      by (intro group_step_same[OF ok]) (auto simp: waiting_def)
  qed
next
  case (W_down w c stack)
  have "m_preceeding (gr_heap g ! c) = (if c = 0 then None else Some (c - 1))"
    using ok pc W_down by (auto simp: group_sh_ok_def group_chain_ok_def)
  then show ?thesis using step pc W_down
    by (intro group_step_same[OF ok]) (auto split: if_splits)
next
  case (W_test w c stack)
  show ?thesis
  proof (cases "m_resources (gr_heap g ! c) = 0")
    case True
    then have "group_pc_ok g (wait_link_done w stack)"
      using group_test_ok[OF ok, of c stack w] pc n W_test by simp
    then show ?thesis using step W_test True
      by (intro group_step_same[OF ok]) (auto simp: consumed_at_once_def)
  next
    case False
    then show ?thesis using step pc W_test
      by (intro group_step_same[OF ok]) (auto simp: consumed_at_once_def)
  qed
next
  case (W_block w c stack)
  have c: "c < length (gr_heap g)" "con_barrier (gr_heap g ! c)" using pc step W_block by (auto split: if_splits)
  have "group_pc_ok g (wait_link_done w stack)"
  proof (cases "m_resources (gr_heap g ! c) = 0")
    case True
    then show ?thesis using group_test_ok[OF ok, of c stack w] pc n W_block by simp
  next
    case False
    then have "group_reused g" using group_link_shape(2)[OF ok c(1) n c(2)] c by (auto simp: group_reused_def)
    then show ?thesis using pc W_block by (cases stack) auto
  qed
  then show ?thesis using step W_block c(2)
    by (intro group_step_same[OF ok]) auto
next
  case (W_ret w r)
  then show ?thesis using step
    by (intro group_step_same[OF ok]) (auto split: option.splits)
qed (use step in auto)

lemma group_local_ok:
  fixes g :: "'o group_impl"
  assumes step: "group_local t e g pc = Some (g', pc')" and n: "\<And>k. 0 \<le> n k"
    and ok: "group_sh_ok g (\<lambda>k. n k + group_weight k pc)" and pc: "group_pc_ok g pc"
  shows "group_step_ok g g' n pc'"
proof -
  have free: ?thesis if "group_free pc" "gr_heap g' = gr_heap g" "m_consumable g' = m_consumable g"
    "gr_next g' = gr_next g" "gr_pending g' = gr_pending g" "gr_running g' = gr_running g"
    "gr_finished g' = gr_finished g" "gr_blocked g' = gr_blocked g" "pc' \<in> {G_idle, GA_load} \<or> (\<exists>w. pc' = W_load w)"
    "group_pc_ok g pc'"
    using that group_free_weight[OF that(1), of GK_blocked]
    by (intro group_step_same[OF ok]) (auto simp: group_free_weight simp del: group_weight.simps(1-3))
  show ?thesis
  proof (cases e)
    case (GE_run k)
    then show ?thesis using step group_run_ok[OF ok, of k] by (simp split: if_splits)
  next
    case GE_cas_fail
    then show ?thesis using step pc
      by (intro group_step_same[OF ok]) (auto simp: waiting_def split: group_pc.splits)
  next
    case GE_timeout
    then show ?thesis using step
      by (intro group_step_same[OF ok]) (auto split: group_pc.splits if_splits)
  next
    case GE_step
    then show ?thesis using step group_exec_ok[OF _ n ok pc] by simp
  next
    case GE_run_notify
    then show ?thesis using step by (intro free) (auto split: list.splits if_splits)
  qed (use step in \<open>intro free; auto split: if_splits\<close>)+
qed

interpretation group_invariant: counting_system group_local "\<lambda>_. True" group_weight group_sh_ok "\<lambda>g n. group_pc_ok g"
proof
  fix k and pc :: "'o group_pc" show "0 \<le> group_weight k pc" by (rule group_weight_nonneg)
next
  fix t e and g :: "'o group_impl" and pc g' pc' and n :: "group_key \<Rightarrow> int"
  assume "group_local t e g pc = Some (g', pc')" "\<And>k. 0 \<le> n k"
    "group_sh_ok g (\<lambda>k. n k + group_weight k pc)" "group_pc_ok g pc"
  from group_local_ok[OF this]
  show "group_sh_ok g' (\<lambda>k. n k + group_weight k pc') \<and> group_pc_ok g' pc' \<and>
      (\<forall>p. (\<forall>k. group_weight k p \<le> n k) \<longrightarrow> group_pc_ok g p \<longrightarrow> group_pc_ok g' p)"
    using group_pc_ok_mono by (auto simp: group_step_ok_def)
qed

lemma group_reach_ok:
  assumes "reach group_step (\<lambda>_. True) (group_init m) (g, ts)"
  shows "group_sh_ok g (\<lambda>k. tsum (group_weight k) ts)" and "\<And>pc. pc \<in> set ts \<Longrightarrow> group_pc_ok g pc"
proof -
  have "group_invariant.count_inv (group_init m :: 'a group_sys)"
    unfolding group_invariant.count_inv_def
    by (auto simp: group_init_def group_impl_new_def group_sh_ok_def group_chain_ok_def group_ops_ok_def
        group_link_ok_def group_held_def consumable_new_def group_weight_nonneg)
  from group_invariant.reach_inv[OF assms this]
  show "group_sh_ok g (\<lambda>k. tsum (group_weight k) ts)" and "\<And>pc. pc \<in> set ts \<Longrightarrow> group_pc_ok g pc"
    by (auto simp: group_invariant.count_inv_def)
qed

section \<open>Properties\<close>

text \<open>
  C17. When \<open>wait\<close> returns true, every operation that was handed over to its queue before the call has
  returned, provided that no consumable was reused, that is, no operation was added
  to a consumable whose count had already dropped to zero. The same holds for the wait
  inside \<open>notify\<close>.
\<close>

theorem group_wait_complete:
  assumes "reach group_step (\<lambda>_. True) (group_init m) (g, ts)"
    and "W_ret w True \<in> set ts" and "\<not> group_reused g" and "k < wc_before w"
  shows "k \<in> set (gr_finished g)"
proof -
  note ok = group_reach_ok[OF assms(1)]
  have w: "waiting g w 0 0" using ok(2)[OF assms(2)] assms(3) by simp
  then have "k < gr_next g" using assms(4) by (simp add: waiting_def)
  then have "k \<in> set (gr_finished g) \<or> k \<in> fst ` group_held g"
    using ok(1) by (auto simp: group_sh_ok_def group_ops_ok_def)
  then show ?thesis using w assms(4) by (auto simp: waiting_def)
qed

definition group_demo :: "nat group_sys" where
  "group_demo =
     (group_impl_new
        \<lparr>gr_heap := [\<lparr>m_preceeding = None, m_resources = 0, con_barrier = True, con_drained = True, con_reused = False\<rparr>,
                     consumable_new 0 (Some 0)],
         m_consumable := 1, gr_next := 1, gr_finished := [0]\<rparr>,
      [W_ret (Wait_call (-1) 1 None) True, G_idle])"

lemma group_demo_reach: "reach group_step (\<lambda>_. True) (group_init 2) group_demo"
  by (rule reach_run[where es = "[(0, GE_async), (0, GE_step), (0, GE_step), (0, GE_step),
        (0, GE_wait (-1)), (0, GE_step), (0, GE_step), (0, GE_step), (0, GE_step),
        (1, GE_run 0), (1, GE_step), (1, GE_step), (1, GE_step), (1, GE_step), (0, GE_step)]"])
     (simp_all add: group_demo_def group_init_def group_impl_new_def heap_update_def consumable_defs numeral_2_eq_2)

theorem group_wait_complete_witness: "0 \<in> set (gr_finished (fst group_demo))"
proof (rule group_wait_complete[where w = "Wait_call (-1) 1 None"])
  show "reach group_step (\<lambda>_. True) (group_init 2) (fst group_demo, snd group_demo)"
    using group_demo_reach by simp
qed (simp_all add: group_demo_def group_reused_def consumable_new_def)

text \<open>
  A thread in \<open>wait\<close> is never stranded: while it is blocked on a consumable whose
  barrier is not complete, an operation of that consumable is queued, or another thread is
  executing, queueing or completing one and can take its next step.
\<close>

theorem group_wait_not_stranded:
  assumes "reach group_step (\<lambda>_. True) (group_init m) (g, ts)"
    and "t < length ts" and "ts ! t = W_block w c stack"
  shows "group_step (g, ts) (t, GE_step) \<noteq> None \<or> c \<in> snd ` set (gr_pending g) \<or>
         (\<exists>u < length ts. u \<noteq> t \<and> group_step (g, ts) (u, GE_step) \<noteq> None)"
proof -
  note ok = group_reach_ok[OF assms(1)]
  have c: "c < length (gr_heap g)" "0 < m_resources (gr_heap g ! c) \<or> con_drained (gr_heap g ! c)"
    using ok(2)[OF nth_mem[OF assms(2)]] assms(3) by auto
  have link: "group_link_ok (gr_heap g ! c)
      (int (on_consumable c (gr_pending g)) + int (on_consumable c (gr_running g)) + tsum (group_weight (GK_hold c)) ts)
      (tsum (group_weight (GK_last c)) ts)"
    using ok(1) c(1) by (auto simp: group_sh_ok_def)
  have *: "u \<noteq> t \<and> group_step (g, ts) (u, GE_step) \<noteq> None"
    if "u < length ts" "0 < group_weight k (ts ! u)" "k \<noteq> GK_blocked" for u k
    using that assms(3) by (cases k; cases "ts ! u") (auto split: if_splits)
  consider "con_barrier (gr_heap g ! c)" | x where "x \<in> set (gr_pending g)" "snd x = c"
    | k where "k \<noteq> GK_blocked" "0 < tsum (group_weight k) ts"
  proof -
    have run: "0 < tsum (group_weight (GK_run x)) ts" if "x \<in> set (gr_running g)" for x
    proof -
      have "int (count (mset (gr_running g)) x) = tsum (group_weight (GK_run x)) ts"
        using ok(1) by (simp only: group_sh_ok_def group_ops_ok_def)
      moreover have "0 < count (mset (gr_running g)) x" using that by simp
      ultimately show ?thesis by linarith
    qed
    have ex: "\<exists>x \<in> set xs. snd x = c" if "0 < on_consumable c xs" for xs :: "(nat \<times> nat) list"
      using that by (induction xs) (auto split: if_splits)
    have "con_barrier (gr_heap g ! c) \<or> 0 < tsum (group_weight (GK_last c)) ts \<or>
        0 < on_consumable c (gr_pending g) \<or> 0 < on_consumable c (gr_running g) \<or> 0 < tsum (group_weight (GK_hold c)) ts"
      using link c(2) by (auto simp: group_link_ok_def simp del: group_weight.simps)
    then show thesis using that ex run by (metis group_key.distinct(5,9,11))
  qed
  then show ?thesis
  proof cases
    case 1
    then show ?thesis using assms(2,3) by simp
  next
    case (3 k)
    then show ?thesis using tsum_pos_member[OF 3(2)] * by blast
  qed auto
qed

definition group_demo_blocked :: "nat group_sys" where
  "group_demo_blocked =
     (group_impl_new
        \<lparr>gr_heap := [consumable_new 1 None, consumable_new 0 (Some 0)], m_consumable := 1, gr_next := 1,
         gr_pending := [(0, 0)], gr_blocked := 1\<rparr>,
      [W_block (Wait_call (-1) 1 None) 0 [], G_idle])"

theorem group_wait_not_stranded_witness: "0 \<in> snd ` set (gr_pending (fst group_demo_blocked))"
proof -
  have "reach group_step (\<lambda>_. True) (group_init 2) (fst group_demo_blocked, snd group_demo_blocked)"
    by (rule reach_run[where es = "[(0, GE_async), (0, GE_step), (0, GE_step), (0, GE_step),
          (0, GE_wait (-1)), (0, GE_step), (0, GE_step), (0, GE_step), (0, GE_step)]"])
       (simp_all add: group_demo_blocked_def group_init_def group_impl_new_def heap_update_def consumable_defs numeral_2_eq_2)
  then have "group_step (fst group_demo_blocked, snd group_demo_blocked) (0, GE_step) \<noteq> None \<or>
      0 \<in> snd ` set (gr_pending (fst group_demo_blocked)) \<or>
      (\<exists>u < length (snd group_demo_blocked). u \<noteq> 0 \<and>
         group_step (fst group_demo_blocked, snd group_demo_blocked) (u, GE_step) \<noteq> None)"
    by (rule group_wait_not_stranded) (simp_all add: group_demo_blocked_def)
  then show ?thesis
    by (elim disjE) (auto simp: group_demo_blocked_def consumable_new_def less_Suc_eq)
qed

text \<open>
  Without that proviso \<open>wait\<close> can return too early: one thread queues an operation, which
  runs to its end, then queues a second one and waits without a timeout. The wait returns true
  although the second operation has not been started.
\<close>

theorem group_wait_returns_early:
  "\<exists>g. reach group_step (\<lambda>_. True) (group_init 2) (g, [W_ret (Wait_call (-1) 2 None) True, G_idle]) \<and>
       gr_pending (g :: nat group_impl) = [(1, 0)] \<and> 1 \<notin> set (gr_finished g)"
proof -
  let ?c = "\<lparr>m_preceeding = None, m_resources = 1, con_barrier = True, con_drained = True, con_reused = True\<rparr>"
  let ?g = "(group_impl_new :: nat group_impl)\<lparr>gr_heap := [?c, consumable_new 0 (Some 0)],
     m_consumable := 1, gr_next := 2, gr_pending := [(1, 0)], gr_finished := [0]\<rparr>"
  have "reach group_step (\<lambda>_. True) (group_init 2) (?g, [W_ret (Wait_call (-1) 2 None) True, G_idle])"
    by (rule reach_run[where es = "[(0, GE_async), (0, GE_step), (0, GE_step), (0, GE_step),
          (1, GE_run 0), (1, GE_step), (1, GE_step), (1, GE_step), (1, GE_step),
          (0, GE_async), (0, GE_step), (0, GE_step), (0, GE_step),
          (0, GE_wait (-1)), (0, GE_step), (0, GE_step), (0, GE_step), (0, GE_step), (0, GE_step)]"])
       (simp_all add: group_init_def group_impl_new_def heap_update_def consumable_defs numeral_2_eq_2)
  then show ?thesis by (intro exI[of _ ?g]) (simp add: group_impl_new_def)
qed

end
