(* ===== verification/Threadpool.thy ===== *)
theory Threadpool
  imports Semaphore Executor
begin

text \<open>
  The thread pool of the naive backend (\<open>src/naive/naive_threadpool.{h,cpp}\<close>): \<open>execute\<close>,
  \<open>schedule\<close>, \<open>notify_thread_blocked\<close>, \<open>notify_thread_unblocked\<close>, the loop of a worker and the
  destructor. The atomic counters are integers without a bound: \<open>m_active_threads\<close> and \<open>m_idle_threads\<close> count threads that
  exist, \<open>m_max_threads\<close> twice the processors and the blocked workers, and no system has \<open>2 ^ 31\<close> of them; only the conversion in the
  constructor, whose argument may come from the environment, wraps.

  The semaphore \<open>m_operations_counter\<close> is used through the specification that theory
  \<open>Semaphore\<close> shows it to refine: \<open>tp_counter\<close> changes by \<open>counter_apply\<close>. The lock-free
  queue of a priority is a list; \<open>try_dequeue\<close> may miss although the queue is not empty, and may
  return any element (the queues keep the order of each producer only). Threads are
  slots of the thread list: creating a \<open>std::thread\<close> adds a token to \<open>tp_unborn\<close> and a slot in \<open>W_unborn\<close> that takes a token
  begins \<open>worker::run\<close>. \<open>tp_submitted\<close> and \<open>tp_started\<close> are the operations enqueued and dequeued
  so far; \<open>tp_attached\<close> is the number of workers known to the queue manager. A failed assertion sets
  \<open>tp_aborted\<close>, after which no thread of the process takes a step (\<open>std::terminate\<close>).
\<close>

section \<open>The model\<close>

definition bucket_count :: nat where "bucket_count = 4"

fun bucket_of :: "queue_priority \<Rightarrow> int" where
  "bucket_of USER_INTERACTIVE = 0"
| "bucket_of USER_INITIATED = 1"
| "bucket_of UTILITY = 2"
| "bucket_of PRIO_DEFAULT = 2"
| "bucket_of BACKGROUND = 3"

definition s_bucket_labels :: "string list" where
  "s_bucket_labels =
     [k_label_global_INTERACTIVE, k_label_global_INITIATED, k_label_global_UTILITY, k_label_global_BACKGROUND]"

record 'o threadpool =
  tp_counter :: int
  m_max_threads :: int
  m_active_threads :: int
  m_idle_threads :: int
  m_operations :: "'o list list"
  m_cancelled :: bool
  tp_unborn :: nat
  tp_attached :: int
  tp_submitted :: "'o list"
  tp_started :: "'o list"
  tp_aborted :: bool

text \<open>The constructor casts twice the number of threads to \<open>int\<close>, which wraps.\<close>

definition threadpool_new :: "int \<Rightarrow> 'o threadpool" where
  "threadpool_new system_thread_count =
     \<lparr>tp_counter = 0, m_max_threads = wrap32 (2 * system_thread_count), m_active_threads = 0, m_idle_threads = 0,
      m_operations = replicate bucket_count [], m_cancelled = False, tp_unborn = 0, tp_attached = 0,
      tp_submitted = [], tp_started = [], tp_aborted = False\<rparr>"

text \<open>
  The caller of \<open>schedule\<close>: a thread outside the pool, an operation on a worker that calls
  \<open>execute\<close>, or \<open>notify_thread_blocked\<close> on a worker.
\<close>

datatype 'o tp_caller = K_client | K_run nat 'o | K_blocked nat 'o

datatype 'o tp_pc =
  P_client
| E_enqueue 'o queue_priority "'o tp_caller"
| E_release "'o tp_caller"
| Sch_active "'o tp_caller"
| Sch_idle int "'o tp_caller"
| Sch_max int "'o tp_caller"
| Sch_spawn "'o tp_caller"
| Sch_attach "'o tp_caller"
| Sch_inc "'o tp_caller"
| B_inc nat 'o
| W_blocked nat 'o
| B_dec nat 'o
| W_unborn
| W_top
| W_try
| W_spin
| W_idle_inc
| W_wait
| W_idle_dec
| W_idle_dec_timeout
| W_active_dec
| W_recheck
| W_active_inc
| W_search nat
| W_dequeue nat
| W_assert_op
| W_run nat 'o
| W_exit
| W_gone
| X_cancel
| X_load
| X_release int
| P_terminated

datatype 'o tp_event =
  TE_execute 'o queue_priority
| TE_destroy
| TE_start
| TE_block
| TE_unblock
| TE_spin_failed
| TE_timeout
| TE_dequeue nat
| TE_miss
| TE_step

fun tp_return :: "'o tp_caller \<Rightarrow> 'o tp_pc" where
  "tp_return K_client = P_client"
| "tp_return (K_run label op) = W_run label op"
| "tp_return (K_blocked label op) = W_blocked label op"

definition tp_abort :: "'o threadpool \<Rightarrow> ('o threadpool \<times> 'o tp_pc) option" where
  "tp_abort d = Some (d\<lparr>tp_aborted := True\<rparr>, P_terminated)"

text \<open>A test of the counter: \<open>yes\<close> after an acquire, \<open>no\<close> when the counter is zero.\<close>

definition tp_acquire :: "'o threadpool \<Rightarrow> 'o tp_pc \<Rightarrow> 'o tp_pc \<Rightarrow> ('o threadpool \<times> 'o tp_pc) option" where
  "tp_acquire d yes no =
     (case counter_apply A_acquire (tp_counter d) of
        Some c \<Rightarrow> Some (d\<lparr>tp_counter := c\<rparr>, yes)
      | None \<Rightarrow> Some (d, no))"

definition tp_release :: "int \<Rightarrow> 'o threadpool \<Rightarrow> 'o tp_pc \<Rightarrow> ('o threadpool \<times> 'o tp_pc) option" where
  "tp_release amount d pc =
     (case counter_apply (A_release amount) (tp_counter d) of
        Some c \<Rightarrow> Some (d\<lparr>tp_counter := c\<rparr>, pc)
      | None \<Rightarrow> tp_abort d)"

definition tp_enqueue :: "'o \<Rightarrow> queue_priority \<Rightarrow> 'o threadpool \<Rightarrow> 'o threadpool" where
  "tp_enqueue work priority d =
     (let i = nat (bucket_of priority)
      in d\<lparr>m_operations := (m_operations d)[i := m_operations d ! i @ [work]],
           tp_submitted := tp_submitted d @ [work]\<rparr>)"

definition tp_dequeue :: "nat \<Rightarrow> nat \<Rightarrow> 'o threadpool \<Rightarrow> 'o threadpool" where
  "tp_dequeue label k d =
     (let q = m_operations d ! label
      in d\<lparr>m_operations := (m_operations d)[label := take k q @ drop (Suc k) q],
           tp_started := tp_started d @ [q ! k]\<rparr>)"

text \<open>The assertions and the decision of \<open>schedule\<close>, on the two values it has read.\<close>

definition tp_schedule ::
  "int \<Rightarrow> int \<Rightarrow> 'o tp_caller \<Rightarrow> 'o threadpool \<Rightarrow> ('o threadpool \<times> 'o tp_pc) option" where
  "tp_schedule active idle k d =
     (if idle < 0 \<or> active < 0 \<or> \<not> idle \<le> active then tp_abort d
      else Some (d, if idle > 0 then tp_return k else Sch_max active k))"

fun tp_exec :: "'o threadpool \<Rightarrow> 'o tp_pc \<Rightarrow> ('o threadpool \<times> 'o tp_pc) option" where
  "tp_exec d (E_enqueue work priority k) =
     (if bucket_of priority \<ge> 0 then Some (tp_enqueue work priority d, E_release k) else tp_abort d)"
| "tp_exec d (E_release k) = tp_release 1 d (Sch_active k)"
| "tp_exec d (Sch_active k) = Some (d, Sch_idle (m_active_threads d) k)"
| "tp_exec d (Sch_idle active k) = tp_schedule active (m_idle_threads d) k d"
| "tp_exec d (Sch_max active k) = Some (d, if active < m_max_threads d then Sch_spawn k else tp_return k)"
| "tp_exec d (Sch_spawn k) = Some (d\<lparr>tp_unborn := tp_unborn d + 1\<rparr>, Sch_attach k)"
| "tp_exec d (Sch_attach k) = Some (d\<lparr>tp_attached := tp_attached d + 1\<rparr>, Sch_inc k)"
| "tp_exec d (Sch_inc k) = Some (d\<lparr>m_active_threads := m_active_threads d + 1\<rparr>, tp_return k)"
| "tp_exec d (B_inc label op) = Some (d\<lparr>m_max_threads := m_max_threads d + 1\<rparr>, Sch_active (K_blocked label op))"
| "tp_exec d (B_dec label op) = Some (d\<lparr>m_max_threads := m_max_threads d - 1\<rparr>, W_run label op)"
| "tp_exec d W_top = Some (d, if m_cancelled d then W_exit else W_try)"
| "tp_exec d W_try = tp_acquire d (W_search 0) W_spin"
| "tp_exec d W_spin = (if tp_counter d > 0 then tp_acquire d (W_search 0) W_spin else None)"
| "tp_exec d W_idle_inc = Some (d\<lparr>m_idle_threads := m_idle_threads d + 1\<rparr>, W_wait)"
| "tp_exec d W_wait = (if tp_counter d > 0 then tp_acquire d W_idle_dec W_wait else None)"
| "tp_exec d W_idle_dec = Some (d\<lparr>m_idle_threads := m_idle_threads d - 1\<rparr>, W_search 0)"
| "tp_exec d W_idle_dec_timeout = Some (d\<lparr>m_idle_threads := m_idle_threads d - 1\<rparr>, W_active_dec)"
| "tp_exec d W_active_dec = Some (d\<lparr>m_active_threads := m_active_threads d - 1\<rparr>, W_recheck)"
| "tp_exec d W_recheck = tp_acquire d W_active_inc W_exit"
| "tp_exec d W_active_inc = Some (d\<lparr>m_active_threads := m_active_threads d + 1\<rparr>, W_search 0)"
| "tp_exec d (W_search label) =
     Some (d, if m_cancelled d then W_assert_op else W_dequeue (if label = bucket_count then 0 else label))"
| "tp_exec d (W_dequeue label) =
     (case m_operations d ! label of
        [] \<Rightarrow> Some (d, W_search (label + 1))
      | op # rest \<Rightarrow> Some (tp_dequeue label 0 d, W_run label op))"
| "tp_exec d W_assert_op = tp_abort d"
| "tp_exec d (W_run label op) = Some (d, W_top)"
| "tp_exec d W_exit = Some (d\<lparr>tp_attached := tp_attached d - 1\<rparr>, W_gone)"
| "tp_exec d X_cancel = Some (d\<lparr>m_cancelled := True\<rparr>, X_load)"
| "tp_exec d X_load = Some (d, X_release (m_active_threads d))"
| "tp_exec d (X_release active) = tp_release active d P_client"
| "tp_exec d _ = None"

text \<open>
  \<open>TE_execute\<close> is a call of \<open>execute\<close> from outside or from an operation, \<open>TE_block\<close> and
  \<open>TE_unblock\<close> the two ends of \<open>ithreadpool::block_scope\<close> inside an operation. \<open>TE_spin_failed\<close>: the
  spins are used up, at whatever value of the counter. \<open>TE_timeout\<close>: \<open>wait_acquire\<close> returns false; its last
  test of the counter has failed.
\<close>

fun tp_react ::
  "tid \<Rightarrow> 'o tp_event \<Rightarrow> 'o threadpool \<Rightarrow> 'o tp_pc \<Rightarrow> ('o threadpool \<times> 'o tp_pc) option" where
  "tp_react t (TE_execute work priority) d pc =
     (case pc of
        P_client \<Rightarrow> Some (d, E_enqueue work priority K_client)
      | W_run label op \<Rightarrow> Some (d, E_enqueue work priority (K_run label op))
      | _ \<Rightarrow> None)"
| "tp_react t TE_destroy d pc = (if pc = P_client then Some (d, X_cancel) else None)"
| "tp_react t TE_start d pc =
     (if pc = W_unborn \<and> tp_unborn d > 0 then Some (d\<lparr>tp_unborn := tp_unborn d - 1\<rparr>, W_top) else None)"
| "tp_react t TE_block d pc = (case pc of W_run label op \<Rightarrow> Some (d, B_inc label op) | _ \<Rightarrow> None)"
| "tp_react t TE_unblock d pc = (case pc of W_blocked label op \<Rightarrow> Some (d, B_dec label op) | _ \<Rightarrow> None)"
| "tp_react t TE_spin_failed d pc = (if pc = W_spin then Some (d, W_idle_inc) else None)"
| "tp_react t TE_timeout d pc =
     (if pc = W_wait \<and> counter_apply A_acquire (tp_counter d) = None then Some (d, W_idle_dec_timeout) else None)"
| "tp_react t (TE_dequeue k) d pc =
     (case pc of
        W_dequeue label \<Rightarrow>
          if k < length (m_operations d ! label)
          then Some (tp_dequeue label k d, W_run label (m_operations d ! label ! k)) else None
      | _ \<Rightarrow> None)"
| "tp_react t TE_miss d pc = (case pc of W_dequeue label \<Rightarrow> Some (d, W_search (label + 1)) | _ \<Rightarrow> None)"
| "tp_react t TE_step d pc = tp_exec d pc"

definition tp_local ::
  "tid \<Rightarrow> 'o tp_event \<Rightarrow> 'o threadpool \<Rightarrow> 'o tp_pc \<Rightarrow> ('o threadpool \<times> 'o tp_pc) option" where
  "tp_local t e d pc = (if tp_aborted d then None else tp_react t e d pc)"

type_synonym 'o tp_sys = "('o threadpool, 'o tp_pc) sys"

abbreviation tp_step :: "'o tp_sys \<Rightarrow> tid \<times> 'o tp_event \<Rightarrow> 'o tp_sys option" where
  "tp_step \<equiv> sys_step tp_local"

text \<open>A pool, \<open>n\<close> client threads and \<open>w\<close> slots for workers.\<close>

definition tp_init :: "int \<Rightarrow> nat \<Rightarrow> nat \<Rightarrow> 'o tp_sys" where
  "tp_init system_thread_count n w =
     (threadpool_new system_thread_count, replicate n P_client @ replicate w W_unborn)"

section \<open>The invariant\<close>

text \<open>
  Disjoint regions of a worker: \<open>R_idle\<close> is counted in \<open>m_idle_threads\<close>, \<open>R_idle_ticket\<close> too but has
  acquired the counter, \<open>R_ticket\<close> has acquired it and looks for its operation, \<open>R_left\<close> has
  left \<open>m_active_threads\<close> and tests the counter once more, \<open>R_left_ticket\<close> has acquired it
  there, \<open>R_work\<close> is every other state of a worker before its end. \<open>R_rel\<close>, \<open>R_new\<close>, \<open>R_fresh\<close>
  and \<open>R_blocked\<close>: an operation was enqueued but not yet released; a worker was created but
  not yet counted; a thread in \<open>schedule\<close> that is going to read the counters or to create a worker;
  a thread between the two ends of \<open>block_scope\<close>.
\<close>

datatype tp_region = R_idle | R_idle_ticket | R_ticket | R_left | R_left_ticket | R_work
  | R_rel | R_new | R_fresh | R_blocked

fun tp_caller_of :: "'o tp_pc \<Rightarrow> 'o tp_caller" where
  "tp_caller_of (E_enqueue work priority k) = k"
| "tp_caller_of (E_release k) = k"
| "tp_caller_of (Sch_active k) = k"
| "tp_caller_of (Sch_idle active k) = k"
| "tp_caller_of (Sch_max active k) = k"
| "tp_caller_of (Sch_spawn k) = k"
| "tp_caller_of (Sch_attach k) = k"
| "tp_caller_of (Sch_inc k) = k"
| "tp_caller_of (B_inc label op) = K_run label op"
| "tp_caller_of (W_blocked label op) = K_blocked label op"
| "tp_caller_of (B_dec label op) = K_blocked label op"
| "tp_caller_of (W_run label op) = K_run label op"
| "tp_caller_of _ = K_client"

fun tp_in :: "tp_region \<Rightarrow> 'o tp_pc \<Rightarrow> bool" where
  "tp_in R_idle pc = (pc \<in> {W_wait, W_idle_dec_timeout})"
| "tp_in R_idle_ticket pc = (pc = W_idle_dec)"
| "tp_in R_ticket pc = (case pc of W_search label \<Rightarrow> True | W_dequeue label \<Rightarrow> True | _ \<Rightarrow> False)"
| "tp_in R_left pc = (pc = W_recheck)"
| "tp_in R_left_ticket pc = (pc = W_active_inc)"
| "tp_in R_work pc =
     (pc \<in> {W_top, W_try, W_spin, W_idle_inc, W_active_dec} \<or> tp_caller_of pc \<noteq> K_client)"
| "tp_in R_rel pc = (case pc of E_release k \<Rightarrow> True | _ \<Rightarrow> False)"
| "tp_in R_new pc = (case pc of Sch_attach k \<Rightarrow> True | Sch_inc k \<Rightarrow> True | _ \<Rightarrow> False)"
| "tp_in R_fresh pc =
     (case pc of Sch_active k \<Rightarrow> True | Sch_idle active k \<Rightarrow> active \<le> 0 | Sch_max active k \<Rightarrow> active \<le> 0
      | Sch_spawn k \<Rightarrow> True | _ \<Rightarrow> False)"
| "tp_in R_blocked pc = (\<exists>label op. tp_caller_of pc = K_blocked label op)"

definition tp_weight :: "tp_region \<Rightarrow> 'o tp_pc \<Rightarrow> int" where
  "tp_weight r pc = (if tp_in r pc then 1 else 0)"

definition tp_ops_ok :: "'o threadpool \<Rightarrow> bool" where
  "tp_ops_ok d \<longleftrightarrow> length (m_operations d) = bucket_count \<and>
     mset (tp_submitted d) = mset (concat (m_operations d)) + mset (tp_started d)"

definition tp_live_ok :: "int \<Rightarrow> 'o threadpool \<Rightarrow> (tp_region \<Rightarrow> int) \<Rightarrow> bool" where
  "tp_live_ok m d n \<longleftrightarrow>
     0 \<le> tp_counter d \<and>
     int (length (concat (m_operations d))) =
       tp_counter d + n R_idle_ticket + n R_ticket + n R_left_ticket + n R_rel \<and>
     m_idle_threads d = n R_idle + n R_idle_ticket \<and>
     m_max_threads d = m + n R_blocked \<and>
     m_active_threads d + n R_new = n R_idle + n R_idle_ticket + n R_ticket + n R_work + int (tp_unborn d) \<and>
     (0 < tp_counter d \<longrightarrow>
        0 < n R_idle + n R_idle_ticket + n R_ticket + n R_left + n R_left_ticket + n R_work + int (tp_unborn d) + n R_fresh)"

definition tp_sh_ok :: "int \<Rightarrow> 'o threadpool \<Rightarrow> (tp_region \<Rightarrow> int) \<Rightarrow> bool" where
  "tp_sh_ok m d n \<longleftrightarrow> tp_ops_ok d \<and> (\<not> m_cancelled d \<and> \<not> tp_aborted d \<longrightarrow> tp_live_ok m d n)"

fun tp_pc_ok :: "'o threadpool \<Rightarrow> 'o tp_pc \<Rightarrow> bool" where
  "tp_pc_ok d (W_search label) = (label \<le> bucket_count)"
| "tp_pc_ok d (W_dequeue label) = (label < bucket_count)"
| "tp_pc_ok d (E_release K) = (\<forall>label op. K \<noteq> K_blocked label op)"
| "tp_pc_ok d (E_enqueue work priority K) = (\<forall>label op. K \<noteq> K_blocked label op)"
| "tp_pc_ok d W_assert_op = m_cancelled d"
| "tp_pc_ok d X_load = m_cancelled d"
| "tp_pc_ok d (X_release active) = m_cancelled d"
| "tp_pc_ok d P_terminated = tp_aborted d"
| "tp_pc_ok d _ = True"

lemma bucket_of_range: "0 \<le> bucket_of p \<and> nat (bucket_of p) < bucket_count"
  by (cases p) (auto simp: bucket_count_def)

lemma mset_concat_update:
  "i < length xss \<Longrightarrow> mset (concat (xss[i := ys])) + mset (xss ! i) = mset (concat xss) + mset ys"
  by (induction xss arbitrary: i) (auto simp: nth_Cons' less_Suc_eq_0_disj split: nat.splits)

lemma tp_enqueue_ok:
  assumes "tp_ops_ok d"
  shows "tp_ops_ok (tp_enqueue work priority d) \<and>
         length (concat (m_operations (tp_enqueue work priority d))) = Suc (length (concat (m_operations d)))"
proof -
  let ?i = "nat (bucket_of priority)" and ?q = "m_operations d"
  have i: "?i < length ?q" using assms bucket_of_range by (simp add: tp_ops_ok_def)
  have m: "mset (concat (?q[?i := ?q ! ?i @ [work]])) = add_mset work (mset (concat ?q))"
    using mset_concat_update[OF i, of "?q ! ?i @ [work]"] by simp
  from arg_cong[OF m, of size] have "length (concat (?q[?i := ?q ! ?i @ [work]])) = Suc (length (concat ?q))"
    by (simp only: size_mset size_add_mset)
  then show ?thesis using assms m by (simp add: tp_ops_ok_def tp_enqueue_def Let_def)
qed

lemma tp_dequeue_ok:
  assumes "tp_ops_ok d" and "label < bucket_count" and "k < length (m_operations d ! label)"
  shows "tp_ops_ok (tp_dequeue label k d) \<and>
         Suc (length (concat (m_operations (tp_dequeue label k d)))) = length (concat (m_operations d))"
proof -
  let ?q = "m_operations d"
  let ?ys = "take k (?q ! label) @ drop (Suc k) (?q ! label)"
  have l: "label < length ?q" using assms(1,2) by (simp add: tp_ops_ok_def)
  have "mset (?q ! label) = add_mset (?q ! label ! k) (mset ?ys)"
    using id_take_nth_drop[OF assms(3)] by (metis mset.simps(2) mset_append union_mset_add_mset_right)
  then have m: "add_mset (?q ! label ! k) (mset (concat (?q[label := ?ys]))) = mset (concat ?q)"
    using mset_concat_update[OF l, of ?ys] by simp
  from arg_cong[OF m, of size] have "Suc (length (concat (?q[label := ?ys]))) = length (concat ?q)"
    by (simp only: size_mset size_add_mset)
  then show ?thesis using assms(1) m[symmetric] by (simp add: tp_ops_ok_def tp_dequeue_def Let_def)
qed

lemma tp_return_in [simp]:
  "tp_caller_of (tp_return k) = k" "tp_return k \<noteq> W_wait" "tp_return k \<noteq> W_idle_dec_timeout"
  "tp_return k \<noteq> W_idle_dec" "tp_return k \<noteq> W_recheck" "tp_return k \<noteq> W_active_inc" "tp_return k \<noteq> W_top"
  "tp_return k \<noteq> W_try" "tp_return k \<noteq> W_spin" "tp_return k \<noteq> W_idle_inc" "tp_return k \<noteq> W_active_dec"
  "\<not> tp_in R_ticket (tp_return k)" "\<not> tp_in R_rel (tp_return k)" "\<not> tp_in R_new (tp_return k)"
  "\<not> tp_in R_fresh (tp_return k)" "tp_pc_ok d (tp_return k)"
  by (cases k; simp)+

lemmas tp_return_case [simp] = tp_return_in(12-15)[unfolded tp_in.simps]

lemma all_tp_region:
  "(\<forall>r. P r) \<longleftrightarrow> P R_idle \<and> P R_idle_ticket \<and> P R_ticket \<and> P R_left \<and> P R_left_ticket \<and> P R_work \<and>
     P R_rel \<and> P R_new \<and> P R_fresh \<and> P R_blocked"
  by (metis tp_region.exhaust)

lemma tp_weight_nonneg: "0 \<le> tp_weight r pc"
  by (simp add: tp_weight_def)

lemma tp_pc_ok_mono:
  "tp_pc_ok d p \<Longrightarrow> (m_cancelled d \<longrightarrow> m_cancelled d') \<Longrightarrow> (tp_aborted d \<longrightarrow> tp_aborted d') \<Longrightarrow> tp_pc_ok d' p"
  by (cases p) auto

lemma tp_counter_cases:
  assumes "tp_acquire d yes no = Some (d', pc')"
  shows "tp_counter d > 0 \<and> d' = d\<lparr>tp_counter := tp_counter d - 1\<rparr> \<and> pc' = yes \<or>
         \<not> tp_counter d > 0 \<and> d' = d \<and> pc' = no"
  using assms by (auto simp: tp_acquire_def split: if_splits)

text \<open>The moves between regions that keep the shared part; each hypothesis is one step of the table.\<close>

lemma tp_live_move:
  assumes "tp_live_ok m d (\<lambda>r. n r + tp_weight r pc)" and "\<And>r. 0 \<le> n r"
    and "tp_counter d' = tp_counter d + c" "0 \<le> tp_counter d'" "int (tp_unborn d') = int (tp_unborn d) + u" "m_operations d' = m_operations d"
    and "c + tp_weight R_idle_ticket pc' + tp_weight R_ticket pc' + tp_weight R_left_ticket pc' + tp_weight R_rel pc' =
      tp_weight R_idle_ticket pc + tp_weight R_ticket pc + tp_weight R_left_ticket pc + tp_weight R_rel pc"
    and "m_idle_threads d' - (tp_weight R_idle pc' + tp_weight R_idle_ticket pc') =
      m_idle_threads d - (tp_weight R_idle pc + tp_weight R_idle_ticket pc)"
    and "m_max_threads d' - tp_weight R_blocked pc' = m_max_threads d - tp_weight R_blocked pc"
    and "m_active_threads d' + tp_weight R_new pc' - (u + tp_weight R_idle pc' + tp_weight R_idle_ticket pc' + tp_weight R_ticket pc' + tp_weight R_work pc') =
      m_active_threads d + tp_weight R_new pc - (tp_weight R_idle pc + tp_weight R_idle_ticket pc + tp_weight R_ticket pc + tp_weight R_work pc)"
    and "0 < tp_counter d' \<Longrightarrow>
      0 < tp_weight R_idle pc' + tp_weight R_idle_ticket pc' + tp_weight R_ticket pc' + tp_weight R_left pc' + tp_weight R_left_ticket pc' +
          tp_weight R_work pc' + tp_weight R_fresh pc' \<or>
      0 < u \<or>
      0 \<le> u \<and> 0 < tp_counter d \<and> tp_weight R_idle pc + tp_weight R_idle_ticket pc + tp_weight R_ticket pc + tp_weight R_left pc + tp_weight R_left_ticket pc +
          tp_weight R_work pc + tp_weight R_fresh pc = 0 \<or>
      0 \<le> u \<and> 0 < n R_idle + n R_idle_ticket + n R_ticket + n R_work + int (tp_unborn d)"
  shows "tp_live_ok m d' (\<lambda>r. n r + tp_weight r pc')"
proof -
  note nn = assms(2)[of R_idle] assms(2)[of R_idle_ticket] assms(2)[of R_ticket] assms(2)[of R_left]
    assms(2)[of R_left_ticket] assms(2)[of R_work] assms(2)[of R_fresh]
  have w: "0 \<le> tp_weight r pc" "0 \<le> tp_weight r pc'" for r by (rule tp_weight_nonneg)+
  have l: "int (length (concat (m_operations d))) =
       tp_counter d + (n R_idle_ticket + tp_weight R_idle_ticket pc) + (n R_ticket + tp_weight R_ticket pc) +
       (n R_left_ticket + tp_weight R_left_ticket pc) + (n R_rel + tp_weight R_rel pc)"
    "m_idle_threads d = (n R_idle + tp_weight R_idle pc) + (n R_idle_ticket + tp_weight R_idle_ticket pc)"
    "m_max_threads d = m + (n R_blocked + tp_weight R_blocked pc)"
    "m_active_threads d + (n R_new + tp_weight R_new pc) =
       (n R_idle + tp_weight R_idle pc) + (n R_idle_ticket + tp_weight R_idle_ticket pc) +
       (n R_ticket + tp_weight R_ticket pc) + (n R_work + tp_weight R_work pc) + int (tp_unborn d)"
    "0 < tp_counter d \<Longrightarrow>
        0 < (n R_idle + tp_weight R_idle pc) + (n R_idle_ticket + tp_weight R_idle_ticket pc) +
          (n R_ticket + tp_weight R_ticket pc) + (n R_left + tp_weight R_left pc) +
          (n R_left_ticket + tp_weight R_left_ticket pc) + (n R_work + tp_weight R_work pc) + int (tp_unborn d) +
          (n R_fresh + tp_weight R_fresh pc)"
    using assms(1) by (auto simp: tp_live_ok_def)
  have "0 < (n R_idle + tp_weight R_idle pc') + (n R_idle_ticket + tp_weight R_idle_ticket pc') +
          (n R_ticket + tp_weight R_ticket pc') + (n R_left + tp_weight R_left pc') +
          (n R_left_ticket + tp_weight R_left_ticket pc') + (n R_work + tp_weight R_work pc') + int (tp_unborn d') +
          (n R_fresh + tp_weight R_fresh pc')" if c': "0 < tp_counter d'"
    using assms(11)[OF c'] l(5) nn w(1)[of R_idle] w(1)[of R_idle_ticket] w(1)[of R_ticket] w(1)[of R_left]
      w(1)[of R_left_ticket] w(1)[of R_work] w(1)[of R_fresh] w(2)[of R_idle] w(2)[of R_idle_ticket]
      w(2)[of R_ticket] w(2)[of R_left] w(2)[of R_left_ticket] w(2)[of R_work] w(2)[of R_fresh] assms(5)
    by linarith
  then show ?thesis
    unfolding tp_live_ok_def using l(1-4) assms(3-10) by auto
qed

lemma tp_enqueue_live:
  assumes "tp_live_ok m d (\<lambda>r. n r + tp_weight r (E_enqueue work priority k :: 'o tp_pc))" and "tp_ops_ok d"
    and "\<forall>label op. k \<noteq> K_blocked label op"
  shows "tp_live_ok m (tp_enqueue work priority d) (\<lambda>r. n r + tp_weight r (E_release k :: 'o tp_pc))"
proof -
  have "tp_counter (tp_enqueue work priority d) = tp_counter d" "m_idle_threads (tp_enqueue work priority d) = m_idle_threads d"
    "m_max_threads (tp_enqueue work priority d) = m_max_threads d" "tp_unborn (tp_enqueue work priority d) = tp_unborn d"
    "m_active_threads (tp_enqueue work priority d) = m_active_threads d"
    by (simp_all add: tp_enqueue_def Let_def)
  then show ?thesis
    using assms tp_enqueue_ok[OF assms(2), of work priority] by (auto simp: tp_live_ok_def tp_weight_def split: if_splits)
qed

lemma tp_dequeue_live:
  assumes "tp_live_ok m d (\<lambda>r. n r + tp_weight r (W_dequeue label :: 'o tp_pc))" and "tp_ops_ok d"
    and "label < bucket_count" and "k < length (m_operations d ! label)" and "\<And>r. 0 \<le> n r"
  shows "tp_live_ok m (tp_dequeue label k d) (\<lambda>r. n r + tp_weight r (W_run label op :: 'o tp_pc))"
proof -
  have "tp_counter (tp_dequeue label k d) = tp_counter d" "m_idle_threads (tp_dequeue label k d) = m_idle_threads d"
    "m_max_threads (tp_dequeue label k d) = m_max_threads d" "tp_unborn (tp_dequeue label k d) = tp_unborn d"
    "m_active_threads (tp_dequeue label k d) = m_active_threads d"
    by (simp_all add: tp_dequeue_def Let_def)
  then show ?thesis
    using assms(1) tp_dequeue_ok[OF assms(2-4)] assms(5)[of R_idle] assms(5)[of R_idle_ticket] assms(5)[of R_ticket]
      assms(5)[of R_left] assms(5)[of R_left_ticket] assms(5)[of R_work] assms(5)[of R_fresh]
    by (auto simp: tp_live_ok_def tp_weight_def)
qed

lemma tp_exec_live:
  fixes d :: "'o threadpool"
  assumes step: "tp_exec d pc = Some (d', pc')" and "\<not> m_cancelled d'" "\<not> tp_aborted d'" and "\<And>r. 0 \<le> n r" and "1 \<le> m"
    and live: "tp_live_ok m d (\<lambda>r. n r + tp_weight r pc)" and ops: "tp_ops_ok d" and pc: "tp_pc_ok d pc"
  shows "tp_live_ok m d' (\<lambda>r. n r + tp_weight r pc')"
proof -
  note nn = assms(4)[of R_idle] assms(4)[of R_idle_ticket] assms(4)[of R_ticket] assms(4)[of R_left]
    assms(4)[of R_left_ticket] assms(4)[of R_work] assms(4)[of R_fresh] assms(4)[of R_new] assms(4)[of R_blocked]
  have c: "0 \<le> tp_counter d" using live by (simp add: tp_live_ok_def)
  note move = tp_live_move[OF live assms(4)]
  show ?thesis
  proof (cases pc)
    case (E_enqueue work priority k)
    then show ?thesis
      using step tp_enqueue_live[OF live[unfolded E_enqueue] ops] pc assms(3)
      by (auto simp: tp_abort_def split: if_splits)
  next
    case (E_release k)
    then show ?thesis using step c pc
      by (intro move[where c = 1 and u = 0]) (auto simp: tp_release_def tp_weight_def split: if_splits)
  next
    case (Sch_active k)
    have "0 < m_active_threads d \<Longrightarrow> 0 < n R_idle + n R_idle_ticket + n R_ticket + n R_work + int (tp_unborn d) \<or> k \<noteq> K_client"
      using live nn Sch_active by (auto simp: tp_live_ok_def tp_weight_def)
    then show ?thesis using step c Sch_active
      by (intro move[where c = 0 and u = 0]) (auto simp: tp_weight_def)
  next
    case (Sch_idle active k)
    have i: "m_idle_threads d \<noteq> 0 \<Longrightarrow> 0 < n R_idle + n R_idle_ticket + n R_ticket + n R_work + int (tp_unborn d)"
      using live nn Sch_idle by (auto simp: tp_live_ok_def tp_weight_def)
    have "d' = d" "pc' = (if m_idle_threads d > 0 then tp_return k else Sch_max active k)"
      using step Sch_idle assms(3) by (auto simp: tp_schedule_def tp_abort_def split: if_splits)
    then show ?thesis using c Sch_idle i by (intro move[where c = 0 and u = 0]) (auto simp: tp_weight_def)
  next
    case (Sch_max active k)
    have "active \<le> 0 \<Longrightarrow> active < m_max_threads d"
      using live nn assms(5) Sch_max by (auto simp: tp_live_ok_def tp_weight_def)
    then show ?thesis using step c Sch_max
      by (cases "active < m_max_threads d"; intro move[where c = 0 and u = 0]) (auto simp: tp_weight_def)
  next
    case (Sch_spawn k)
    then show ?thesis using step c by (intro move[where c = 0 and u = 1]) (auto simp: tp_weight_def)
  next
    case (W_dequeue label)
    show ?thesis
    proof (cases "m_operations d ! label")
      case Nil
      then show ?thesis using step c W_dequeue by (intro move[where c = 0 and u = 0]) (auto simp: tp_weight_def)
    next
      case (Cons op rest)
      then show ?thesis
        using step W_dequeue pc tp_dequeue_live[OF live[unfolded W_dequeue] ops, of 0 op] assms(4) by simp
    qed
  next
    case W_try
    then have "tp_acquire d (W_search 0) W_spin = Some (d', pc')" using step by (simp split: if_splits)
    from tp_counter_cases[OF this] show ?thesis
    proof (elim disjE conjE)
      assume "tp_counter d > 0" "d' = d\<lparr>tp_counter := tp_counter d - 1\<rparr>" "pc' = W_search 0"
      then show ?thesis using W_try by (intro move[where c = "-1" and u = 0]) (auto simp: tp_weight_def)
    next
      assume "\<not> tp_counter d > 0" "d' = d" "pc' = W_spin"
      then show ?thesis using W_try c by (intro move[where c = 0 and u = 0]) (auto simp: tp_weight_def)
    qed
  next
    case W_recheck
    then have "tp_acquire d W_active_inc W_exit = Some (d', pc')" using step by (simp split: if_splits)
    from tp_counter_cases[OF this] show ?thesis
    proof (elim disjE conjE)
      assume "tp_counter d > 0" "d' = d\<lparr>tp_counter := tp_counter d - 1\<rparr>" "pc' = W_active_inc"
      then show ?thesis using W_recheck by (intro move[where c = "-1" and u = 0]) (auto simp: tp_weight_def)
    next
      assume "\<not> tp_counter d > 0" "d' = d" "pc' = W_exit"
      then show ?thesis using W_recheck c by (intro move[where c = 0 and u = 0]) (auto simp: tp_weight_def)
    qed
  next
    case W_spin
    then have "tp_acquire d (W_search 0) W_spin = Some (d', pc')" using step by (simp split: if_splits)
    from tp_counter_cases[OF this] show ?thesis
    proof (elim disjE conjE)
      assume "tp_counter d > 0" "d' = d\<lparr>tp_counter := tp_counter d - 1\<rparr>" "pc' = W_search 0"
      then show ?thesis using W_spin by (intro move[where c = "-1" and u = 0]) (auto simp: tp_weight_def)
    next
      assume "\<not> tp_counter d > 0" "d' = d" "pc' = W_spin"
      then show ?thesis using W_spin c by (intro move[where c = 0 and u = 0]) (auto simp: tp_weight_def)
    qed
  next
    case W_wait
    then have "tp_acquire d W_idle_dec W_wait = Some (d', pc')" using step by (simp split: if_splits)
    from tp_counter_cases[OF this] show ?thesis
    proof (elim disjE conjE)
      assume "tp_counter d > 0" "d' = d\<lparr>tp_counter := tp_counter d - 1\<rparr>" "pc' = W_idle_dec"
      then show ?thesis using W_wait by (intro move[where c = "-1" and u = 0]) (auto simp: tp_weight_def)
    next
      assume "\<not> tp_counter d > 0" "d' = d" "pc' = W_wait"
      then show ?thesis using W_wait c by (intro move[where c = 0 and u = 0]) (auto simp: tp_weight_def)
    qed
  next
    case X_load
    then show ?thesis using step c by (intro move[where c = 0 and u = 0]) (auto simp: tp_weight_def)
  next
    case (X_release active)
    then show ?thesis using step pc assms(2) by (auto simp: tp_release_def tp_abort_def split: if_splits)
  next
    case (Sch_attach k)
    then have "d' = d\<lparr>tp_attached := tp_attached d + 1\<rparr>" "pc' = Sch_inc k" using step assms(2) by (auto split: if_splits)
    then show ?thesis using c Sch_attach by (intro move[where c = 0 and u = 0]) (auto simp: tp_weight_def)
  next
    case (Sch_inc k)
    then have "d' = d\<lparr>m_active_threads := m_active_threads d + 1\<rparr>" "pc' = tp_return k" using step assms(2) by (auto split: if_splits)
    then show ?thesis using c Sch_inc by (intro move[where c = 0 and u = 0]) (auto simp: tp_weight_def)
  next
    case (B_inc label op)
    then have "d' = d\<lparr>m_max_threads := m_max_threads d + 1\<rparr>" "pc' = Sch_active (K_blocked label op)" using step assms(2) by (auto split: if_splits)
    then show ?thesis using c B_inc by (intro move[where c = 0 and u = 0]) (auto simp: tp_weight_def)
  next
    case (B_dec label op)
    then have "d' = d\<lparr>m_max_threads := m_max_threads d - 1\<rparr>" "pc' = W_run label op" using step assms(2) by (auto split: if_splits)
    then show ?thesis using c B_dec by (intro move[where c = 0 and u = 0]) (auto simp: tp_weight_def)
  next
    case W_top
    then have "d' = d" "pc' = W_try" using step assms(2) by (auto split: if_splits)
    then show ?thesis using c W_top by (intro move[where c = 0 and u = 0]) (auto simp: tp_weight_def)
  next
    case W_idle_inc
    then have "d' = d\<lparr>m_idle_threads := m_idle_threads d + 1\<rparr>" "pc' = W_wait" using step assms(2) by (auto split: if_splits)
    then show ?thesis using c W_idle_inc by (intro move[where c = 0 and u = 0]) (auto simp: tp_weight_def)
  next
    case W_idle_dec
    then have "d' = d\<lparr>m_idle_threads := m_idle_threads d - 1\<rparr>" "pc' = W_search 0" using step assms(2) by (auto split: if_splits)
    then show ?thesis using c W_idle_dec by (intro move[where c = 0 and u = 0]) (auto simp: tp_weight_def)
  next
    case W_idle_dec_timeout
    then have "d' = d\<lparr>m_idle_threads := m_idle_threads d - 1\<rparr>" "pc' = W_active_dec" using step assms(2) by (auto split: if_splits)
    then show ?thesis using c W_idle_dec_timeout by (intro move[where c = 0 and u = 0]) (auto simp: tp_weight_def)
  next
    case W_active_dec
    then have "d' = d\<lparr>m_active_threads := m_active_threads d - 1\<rparr>" "pc' = W_recheck" using step assms(2) by (auto split: if_splits)
    then show ?thesis using c W_active_dec by (intro move[where c = 0 and u = 0]) (auto simp: tp_weight_def)
  next
    case W_active_inc
    then have "d' = d\<lparr>m_active_threads := m_active_threads d + 1\<rparr>" "pc' = W_search 0" using step assms(2) by (auto split: if_splits)
    then show ?thesis using c W_active_inc by (intro move[where c = 0 and u = 0]) (auto simp: tp_weight_def)
  next
    case (W_search label)
    then have "d' = d" "pc' = W_dequeue (if label = bucket_count then 0 else label)" using step assms(2) by (auto split: if_splits)
    then show ?thesis using c W_search by (intro move[where c = 0 and u = 0]) (auto simp: tp_weight_def)
  next
    case (W_run label op)
    then have "d' = d" "pc' = W_top" using step assms(2) by (auto split: if_splits)
    then show ?thesis using c W_run by (intro move[where c = 0 and u = 0]) (auto simp: tp_weight_def)
  next
    case W_exit
    then have "d' = d\<lparr>tp_attached := tp_attached d - 1\<rparr>" "pc' = W_gone" using step assms(2) by (auto split: if_splits)
    then show ?thesis using c W_exit by (intro move[where c = 0 and u = 0]) (auto simp: tp_weight_def)
  qed (use step assms(2,3) in \<open>auto simp: tp_abort_def\<close>)
qed

lemma tp_exec_ops:
  assumes "tp_exec d pc = Some (d', pc')" and "tp_ops_ok d" and "tp_pc_ok d pc"
  shows "tp_ops_ok d' \<and> tp_pc_ok d' pc' \<and> (m_cancelled d \<longrightarrow> m_cancelled d') \<and> (tp_aborted d \<longrightarrow> tp_aborted d')"
proof (cases pc)
  case (E_enqueue work priority k)
  then show ?thesis
    using assms tp_enqueue_ok[of d work priority] bucket_of_range[of priority]
    by (auto simp: tp_enqueue_def Let_def)
next
  case (W_dequeue label)
  then show ?thesis
    using assms tp_dequeue_ok[of d label 0] by (auto simp: tp_dequeue_def Let_def split: list.splits)
next
  case (Sch_max active k)
  then show ?thesis using assms by (cases "active < m_max_threads d") auto
qed (use assms in \<open>auto simp: tp_abort_def tp_release_def tp_acquire_def tp_schedule_def tp_ops_ok_def
      bucket_count_def split: if_splits\<close>)

lemma tp_react_ok:
  fixes d :: "'o threadpool"
  assumes step: "tp_react t e d pc = Some (d', pc')" and "\<not> tp_aborted d" and "\<And>r. 0 \<le> n r" and "1 \<le> m"
    and ok: "tp_sh_ok m d (\<lambda>r. n r + tp_weight r pc)" and pc: "tp_pc_ok d pc"
  shows "tp_sh_ok m d' (\<lambda>r. n r + tp_weight r pc') \<and> tp_pc_ok d' pc' \<and> (m_cancelled d \<longrightarrow> m_cancelled d')"
proof -
  have ops: "tp_ops_ok d" and live: "\<not> m_cancelled d \<Longrightarrow> tp_live_ok m d (\<lambda>r. n r + tp_weight r pc)"
    using ok assms(2) by (auto simp: tp_sh_ok_def)
  have same: ?thesis if "d' = d" "\<forall>r. tp_in r pc' = tp_in r pc" "tp_pc_ok d pc'"
    using that ok by (simp add: tp_weight_def)
  show ?thesis
  proof (cases e)
    case (TE_dequeue k)
    then obtain label where l: "pc = W_dequeue label" "k < length (m_operations d ! label)" "label < bucket_count"
      "d' = tp_dequeue label k d" "pc' = W_run label (m_operations d ! label ! k)"
      using step pc by (auto split: tp_pc.splits if_splits)
    then show ?thesis
      using tp_dequeue_ok[OF ops l(3,2)] tp_dequeue_live[OF live[unfolded l(1)] ops l(3,2) assms(3)]
      by (auto simp: tp_sh_ok_def tp_dequeue_def Let_def)
  next
    case TE_step
    then have s: "tp_exec d pc = Some (d', pc')" using step by simp
    note o = tp_exec_ops[OF s ops pc]
    have "tp_live_ok m d' (\<lambda>r. n r + tp_weight r pc')" if "\<not> m_cancelled d'" "\<not> tp_aborted d'"
      using that o live by (intro tp_exec_live[OF s that assms(3,4) _ ops pc]) auto
    then show ?thesis using o by (auto simp: tp_sh_ok_def)
  next
    case TE_start
    then have l: "pc = W_unborn" "tp_unborn d > 0" "d' = d\<lparr>tp_unborn := tp_unborn d - 1\<rparr>" "pc' = W_top"
      using step by (auto split: if_splits)
    have "tp_live_ok m d' (\<lambda>r. n r + tp_weight r pc')" if "\<not> m_cancelled d"
      using l live[OF that]
      by (intro tp_live_move[OF live[OF that] assms(3), where c = 0 and u = "-1"])
         (auto simp: tp_weight_def tp_live_ok_def)
    then show ?thesis using l ops by (auto simp: tp_sh_ok_def tp_ops_ok_def)
  next
    case (TE_execute work priority)
    then show ?thesis using step by (intro same) (cases pc; simp add: all_tp_region; auto)+
  next
    case TE_destroy
    then show ?thesis using step by (intro same) (auto simp: all_tp_region split: if_splits)
  next
    case TE_block
    then show ?thesis using step by (intro same) (cases pc; simp add: all_tp_region; auto)+
  next
    case TE_unblock
    then show ?thesis using step by (intro same) (cases pc; simp add: all_tp_region; auto)+
  next
    case TE_spin_failed
    then show ?thesis using step by (intro same) (auto simp: all_tp_region split: if_splits)
  next
    case TE_timeout
    then show ?thesis using step by (intro same) (auto simp: all_tp_region split: if_splits)
  next
    case TE_miss
    then show ?thesis using step pc by (intro same) (cases pc; simp add: all_tp_region; auto)+
  qed
qed

interpretation tp_invariant: counting_system tp_local "\<lambda>_. 1 \<le> m" tp_weight "tp_sh_ok m" "\<lambda>d n. tp_pc_ok d" for m
proof
  fix k and pc :: "'o tp_pc" show "0 \<le> tp_weight k pc" by (rule tp_weight_nonneg)
next
  fix t e and d :: "'o threadpool" and pc d' pc' and n :: "tp_region \<Rightarrow> int"
  assume "tp_local t e d pc = Some (d', pc')" "1 \<le> m" "\<And>k. 0 \<le> n k"
    "tp_sh_ok m d (\<lambda>k. n k + tp_weight k pc)" "tp_pc_ok d pc"
  moreover from this have "tp_react t e d pc = Some (d', pc')" "\<not> tp_aborted d"
    by (auto simp: tp_local_def split: if_splits)
  ultimately show "tp_sh_ok m d' (\<lambda>k. n k + tp_weight k pc') \<and> tp_pc_ok d' pc' \<and>
      (\<forall>p. (\<forall>k. tp_weight k p \<le> n k) \<longrightarrow> tp_pc_ok d p \<longrightarrow> tp_pc_ok d' p)"
    using tp_react_ok[of t e d pc d' pc' n m] tp_pc_ok_mono[of d _ d'] by blast
qed

lemma tp_reach_ok:
  assumes "reach tp_step (\<lambda>_. True) (tp_init k clients workers) (d, ts)" and "1 \<le> k \<and> k \<le> 1073741823"
  shows "tp_sh_ok (2 * k) d (\<lambda>r. tsum (tp_weight r) ts)" and "\<And>pc. pc \<in> set ts \<Longrightarrow> tp_pc_ok d pc"
proof -
  have "wrap32 (2 * k) = 2 * k" using assms(2) by (intro wrap32_id) simp_all
  moreover have "concat (replicate bucket_count []) = []" by simp
  ultimately have init: "tp_invariant.count_inv (2 * k) (tp_init k clients workers :: 'a tp_sys)"
    unfolding tp_invariant.count_inv_def
    by (auto simp: tp_init_def threadpool_new_def tp_sh_ok_def tp_ops_ok_def tp_live_ok_def tsum_def
        sum_list_replicate tp_weight_def)
  have "reach tp_step (\<lambda>_. 1 \<le> 2 * k) (tp_init k clients workers) (d, ts)"
    using assms by (auto intro: reach_mono)
  from tp_invariant.reach_inv[OF this init]
  show "tp_sh_ok (2 * k) d (\<lambda>r. tsum (tp_weight r) ts)" and "\<And>pc. pc \<in> set ts \<Longrightarrow> tp_pc_ok d pc"
    by (auto simp: tp_invariant.count_inv_def)
qed

lemma tp_tsum_count: "tsum (tp_weight r) ts = int (card {t. t < length ts \<and> tp_in r (ts ! t)})"
  using tsum_indicator[of "tp_in r" ts] by (simp add: tp_weight_def[abs_def])

section \<open>Properties\<close>

abbreviation tp_good :: "'o tp_sys \<Rightarrow> bool" where
  "tp_good s \<equiv> \<exists>k clients workers. (1 \<le> k \<and> k \<le> 1073741823) \<and> reach tp_step (\<lambda>_. True) (tp_init k clients workers) s"

interpretation tp_executor: executor tp_good "\<lambda>s. tp_submitted (fst s)" "\<lambda>s. concat (m_operations (fst s))" "\<lambda>s. tp_started (fst s)"
proof
  fix s :: "'o tp_sys"
  assume "tp_good s"
  then obtain k clients workers where "reach tp_step (\<lambda>_. True) (tp_init k clients workers) (fst s, snd s)" "1 \<le> k \<and> k \<le> 1073741823" by auto
  from tp_reach_ok(1)[OF this]
  show "mset (tp_submitted (fst s)) = mset (concat (m_operations (fst s))) + mset (tp_started (fst s))"
    by (simp add: tp_sh_ok_def tp_ops_ok_def)
qed

text \<open>
  C4. Every operation given to \<open>execute\<close> is started at most once and none is lost: in every
  execution, a missing \<open>try_dequeue\<close>, any order of the queues and the destructor included,
  the operations enqueued are those still in the queues together with those that workers have started.
\<close>

theorem threadpool_exactly_once:
  assumes "reach tp_step (\<lambda>_. True) (tp_init k clients workers) (d, ts)" and "1 \<le> k \<and> k \<le> 1073741823"
  shows "mset (tp_submitted d) = mset (concat (m_operations d)) + mset (tp_started d) \<and>
         (distinct (tp_submitted d) \<longrightarrow>
            distinct (tp_started d) \<and> set (tp_started d) \<inter> set (concat (m_operations d)) = {})"
proof -
  have g: "tp_good (d, ts)" using assms by blast
  show ?thesis using tp_executor.conserved[OF g] tp_executor.started_once[OF g] by simp
qed

definition tp_demo :: "(tid \<times> nat tp_event) list" where
  "tp_demo =
     [(0, TE_execute 7 BACKGROUND), (0, TE_step), (0, TE_step), (0, TE_step), (0, TE_step), (0, TE_step),
      (0, TE_step), (0, TE_step), (0, TE_step), (1, TE_start), (1, TE_step)]"

definition tp_demo_state :: "nat tp_sys" where
  "tp_demo_state =
     ((threadpool_new 1)\<lparr>tp_counter := 1, m_active_threads := 1, m_operations := [[], [], [], [7]],
        tp_attached := 1, tp_submitted := [7]\<rparr>, [P_client, W_try])"

lemmas tp_demo_defs = tp_init_def threadpool_new_def tp_local_def tp_enqueue_def tp_dequeue_def tp_release_def
  tp_acquire_def tp_schedule_def tp_abort_def bucket_count_def Let_def

lemma tp_demo_reach: "reach tp_step (\<lambda>_. True) (tp_init 1 1 1) (fst tp_demo_state, snd tp_demo_state)"
  by (rule reach_run[where es = tp_demo])
     (simp_all add: tp_demo_def tp_demo_state_def tp_demo_defs eval_nat_numeral)

theorem threadpool_exactly_once_witness:
  "mset (tp_submitted (fst tp_demo_state)) =
   mset (concat (m_operations (fst tp_demo_state))) + mset (tp_started (fst tp_demo_state))"
  using threadpool_exactly_once[OF tp_demo_reach] by simp

text \<open>
  A thread attends to the pool if it is a worker that is not blocked in a \<open>block_scope\<close>, or a thread inside \<open>schedule\<close> that is going
  to create a worker: it has not read \<open>m_active_threads\<close> yet, or the value that it has read is below the present maximum.
\<close>

fun tp_spawning :: "'o threadpool \<Rightarrow> 'o tp_pc \<Rightarrow> bool" where
  "tp_spawning d (Sch_active k) = True"
| "tp_spawning d (Sch_idle active k) = (active < m_max_threads d)"
| "tp_spawning d (Sch_max active k) = (active < m_max_threads d)"
| "tp_spawning d (Sch_spawn k) = True"
| "tp_spawning d _ = False"

definition tp_counted :: "'o tp_pc \<Rightarrow> bool" where
  "tp_counted pc \<longleftrightarrow> tp_in R_idle pc \<or> tp_in R_idle_ticket pc \<or> tp_in R_ticket pc \<or> tp_in R_work pc \<and> \<not> tp_in R_blocked pc"

definition tp_attends :: "'o threadpool \<Rightarrow> 'o tp_pc \<Rightarrow> bool" where
  "tp_attends d pc \<longleftrightarrow> tp_counted pc \<or> tp_in R_left pc \<or> tp_in R_left_ticket pc \<or> tp_spawning d pc"

definition tp_attended :: "'o tp_sys \<Rightarrow> bool" where
  "tp_attended s \<longleftrightarrow> 0 < tp_unborn (fst s) \<or> (\<exists>pc \<in> set (snd s). tp_attends (fst s) pc)"

lemma tp_counted_sum:
  "tsum (tp_weight R_idle) ts + tsum (tp_weight R_idle_ticket) ts + tsum (tp_weight R_ticket) ts + tsum (tp_weight R_work) ts =
   tsum (\<lambda>pc. if tp_counted pc then 1 else 0) ts + tsum (tp_weight R_blocked) ts"
  unfolding tsum_add[symmetric]
  by (rule arg_cong[of _ _ "\<lambda>w. tsum w ts"])
     (auto simp: tp_weight_def tp_counted_def fun_eq_iff split: tp_pc.splits)

text \<open>If there are more active threads than blocked ones, one of them attends.\<close>

lemma tp_more_active:
  assumes "tp_live_ok m d (\<lambda>r. tsum (tp_weight r) ts)" and "1 \<le> m" and "m_max_threads d \<le> m_active_threads d \<or> 0 < m_idle_threads d"
  shows "tp_attended (d, ts)"
proof (rule ccontr)
  assume no: "\<not> tp_attended (d, ts)"
  then have "tsum (\<lambda>pc. if tp_counted pc then 1 else 0) ts = 0"
    by (intro tsum_zero) (auto simp: tp_attended_def tp_attends_def)
  moreover have "tp_unborn d = 0" using no by (simp add: tp_attended_def)
  moreover have "0 \<le> tsum (tp_weight r) ts" for r by (rule tsum_nonneg) (rule tp_weight_nonneg)
  then have "0 \<le> tsum (tp_weight R_new) ts" "0 \<le> tsum (tp_weight R_ticket) ts" "0 \<le> tsum (tp_weight R_idle) ts"
    "0 \<le> tsum (tp_weight R_idle_ticket) ts" by blast+
  moreover have "tsum (tp_weight R_blocked) ts \<le> tsum (tp_weight R_work) ts"
    by (rule tsum_mono) (auto simp: tp_weight_def)
  ultimately show False using assms tp_counted_sum[of ts] by (auto simp: tp_live_ok_def)
qed

lemma tp_attends_mono: "tp_attends d p \<Longrightarrow> m_max_threads d \<le> m_max_threads d' \<Longrightarrow> tp_attends d' p"
  by (cases p) (auto simp: tp_attends_def tp_counted_def)

lemma tp_return_counted [simp]: "tp_counted (tp_return k) \<longleftrightarrow> (\<exists>label op. k = K_run label op)" "\<not> tp_spawning d (tp_return k)"
  by (cases k; simp add: tp_counted_def)+

text \<open>What one step does to the attention of its thread.\<close>

definition tp_hands_over :: "'o threadpool \<Rightarrow> 'o tp_pc \<Rightarrow> 'o threadpool \<Rightarrow> 'o tp_pc \<Rightarrow> bool" where
  "tp_hands_over d pc d' pc' \<longleftrightarrow>
     tp_attends d' pc' \<or> 0 < tp_unborn d' \<or> tp_counter d' \<le> 0 \<or> m_cancelled d' \<or> tp_aborted d' \<or>
     m_max_threads d' \<le> m_active_threads d' \<or> 0 < m_idle_threads d' \<or>
     \<not> tp_attends d pc \<and> 0 < tp_counter d \<and> m_max_threads d \<le> m_max_threads d' \<and> tp_unborn d \<le> tp_unborn d'"

lemma tp_exec_hands_over:
  assumes "tp_exec d pc = Some (d', pc')" and "tp_pc_ok d pc"
  shows "tp_hands_over d pc d' pc'"
  by (insert assms, cases pc)
     (auto simp: tp_hands_over_def tp_attends_def tp_counted_def tp_acquire_def tp_release_def tp_schedule_def tp_abort_def tp_enqueue_def
        tp_dequeue_def Let_def split: if_splits list.splits)

lemma tp_local_hands_over:
  assumes "tp_local t e d pc = Some (d', pc')" and "tp_pc_ok d pc"
  shows "tp_hands_over d pc d' pc'"
proof (cases "e = TE_step")
  case True
  then show ?thesis using assms tp_exec_hands_over by (auto simp: tp_local_def split: if_splits)
next
  case False
  then show ?thesis
    by (insert assms, cases e; cases pc)
       (auto simp: tp_local_def tp_hands_over_def tp_attends_def tp_counted_def tp_dequeue_def Let_def split: if_splits)
qed

definition tp_watched :: "'o tp_sys \<Rightarrow> bool" where
  "tp_watched s \<longleftrightarrow> (0 < tp_counter (fst s) \<and> \<not> m_cancelled (fst s) \<and> \<not> tp_aborted (fst s) \<longrightarrow> tp_attended s)"

lemma tp_cancelled_mono: "tp_local t e d pc = Some (d', pc') \<Longrightarrow> (m_cancelled d \<longrightarrow> m_cancelled d') \<and> \<not> tp_aborted d"
  by (cases e; cases pc)
     (auto simp: tp_local_def tp_acquire_def tp_release_def tp_schedule_def tp_abort_def tp_enqueue_def tp_dequeue_def Let_def
        split: if_splits list.splits)

lemma tp_watched_step:
  assumes "tp_watched s" and step: "tp_step s ev = Some s'" and "\<And>pc. pc \<in> set (snd s) \<Longrightarrow> tp_pc_ok (fst s) pc"
    and live: "\<not> m_cancelled (fst s') \<and> \<not> tp_aborted (fst s') \<Longrightarrow> tp_live_ok m (fst s') (\<lambda>r. tsum (tp_weight r) (snd s'))" and "1 \<le> m"
  shows "tp_watched s'"
  using step
proof (rule sys_step_Some)
  fix d ts t e d' pc'
  assume *: "s = (d, ts)" "ev = (t, e)" "t < length ts" "tp_local t e d (ts ! t) = Some (d', pc')" "s' = (d', ts[t := pc'])"
  have h: "tp_hands_over d (ts ! t) d' pc'" using tp_local_hands_over[OF *(4)] assms(3) *(1,3) by simp
  have "tp_attended s'" if c: "0 < tp_counter d'" "\<not> m_cancelled d'" "\<not> tp_aborted d'"
  proof -
    consider "tp_attends d' pc'" | "0 < tp_unborn d'" | "m_max_threads d' \<le> m_active_threads d' \<or> 0 < m_idle_threads d'"
      | "\<not> tp_attends d (ts ! t)" "0 < tp_counter d" "m_max_threads d \<le> m_max_threads d'" "tp_unborn d \<le> tp_unborn d'"
      using h c by (auto simp: tp_hands_over_def)
    then show ?thesis
    proof cases
      case 1
      then show ?thesis using *(3,5) set_update_memI[of t ts pc'] by (auto simp: tp_attended_def)
    next
      case 3
      then show ?thesis using tp_more_active[of m d'] live assms(5) c *(5) by simp
    next
      case 4
      then have "tp_attended (d, ts)" using assms(1) *(1) c tp_cancelled_mono[OF *(4)] by (auto simp: tp_watched_def)
      then consider "0 < tp_unborn d" | u where "u < length ts" "tp_attends d (ts ! u)"
        by (auto simp: tp_attended_def in_set_conv_nth)
      then show ?thesis
      proof cases
        case (2 u)
        then have "u \<noteq> t" using 4(1) by auto
        then have "ts[t := pc'] ! u = ts ! u" by simp
        then show ?thesis using 2 tp_attends_mono[OF 2(2) 4(3)] *(5) by (force simp: tp_attended_def in_set_conv_nth)
      qed (use 4(4) *(5) in \<open>simp add: tp_attended_def\<close>)
    qed (use *(5) in \<open>simp add: tp_attended_def\<close>)
  qed
  then show ?thesis using *(5) by (simp add: tp_watched_def)
qed

lemma tp_reach_watched:
  assumes "reach tp_step (\<lambda>_. True) (tp_init k clients workers) s" and "1 \<le> k \<and> k \<le> 1073741823"
  shows "tp_watched s"
  using assms(1)
proof (induction rule: reach.induct)
  case reach_refl
  then show ?case by (simp add: tp_watched_def tp_init_def threadpool_new_def)
next
  case (reach_step s e s')
  note ok = tp_reach_ok[OF _ assms(2), of clients workers "fst s" "snd s"] tp_reach_ok[OF _ assms(2), of clients workers "fst s'" "snd s'"]
  have r: "reach tp_step (\<lambda>_. True) (tp_init k clients workers) s'" by (rule reach.reach_step[OF reach_step(1) _ reach_step(3)]) simp
  show ?case
    using reach_step(1,4) r ok assms(2) by (intro tp_watched_step[OF _ reach_step(3), of "2 * k"]) (auto simp: tp_sh_ok_def)
qed

lemma tp_attends_step:
  assumes "tp_attends d pc" and "0 < tp_counter d" and "\<not> tp_aborted d"
  shows "tp_local t TE_step d pc \<noteq> None"
  using assms
  by (cases pc) (auto simp: tp_attends_def tp_counted_def tp_local_def tp_acquire_def tp_release_def tp_schedule_def tp_abort_def
      split: list.splits)

lemma tp_waiting_served:
  assumes "reach tp_step (\<lambda>_. True) (tp_init k clients workers) (d, ts)" and "1 \<le> k \<and> k \<le> 1073741823"
    and "\<not> m_cancelled d" and "\<not> tp_aborted d" and "0 < tp_counter d"
  shows "0 < tp_unborn d \<or> (\<exists>t < length ts. tp_attends d (ts ! t) \<and> tp_step (d, ts) (t, TE_step) \<noteq> None)"
proof -
  have "tp_attended (d, ts)" using tp_reach_watched[OF assms(1,2)] assms(3-5) by (simp add: tp_watched_def)
  then consider "0 < tp_unborn d" | t where "t < length ts" "tp_attends d (ts ! t)"
    by (auto simp: tp_attended_def in_set_conv_nth)
  then show ?thesis
  proof cases
    case (2 t)
    then show ?thesis using tp_attends_step[OF 2(2) assms(5,4), of t] unfolding sys_step_enabled by blast
  qed simp
qed

text \<open>
  C3. No operation is stranded. As long as the pool has not been destroyed and no assertion has failed, whenever the counter says that
  an operation waits, a worker has been created and has not begun, or some thread attends to the pool and can take its next step: a
  worker that is not blocked in a \<open>block_scope\<close>, or a caller inside \<open>schedule\<close> that is going to create a worker. This covers the race
  between a worker that gives up after its timeout and an \<open>execute\<close> that still counts it as active, and the case that every worker is blocked
  inside its operation.
\<close>

theorem threadpool_no_stranded_work:
  assumes "reach tp_step (\<lambda>_. True) (tp_init k clients workers) (d, ts)" and "1 \<le> k \<and> k \<le> 1073741823"
    and "\<not> m_cancelled d" and "\<not> tp_aborted d" and "0 < tp_counter d"
  shows "0 < tp_unborn d \<or> (\<exists>t < length ts. tp_attends d (ts ! t) \<and> tp_step (d, ts) (t, TE_step) \<noteq> None)"
  by (rule tp_waiting_served[OF assms])

theorem threadpool_no_stranded_work_witness:
  "\<exists>t < length (snd tp_demo_state). tp_attends (fst tp_demo_state) (snd tp_demo_state ! t)"
proof -
  have "0 < tp_unborn (fst tp_demo_state) \<or>
      (\<exists>t < length (snd tp_demo_state). tp_attends (fst tp_demo_state) (snd tp_demo_state ! t) \<and>
        tp_step (fst tp_demo_state, snd tp_demo_state) (t, TE_step) \<noteq> None)"
    by (rule threadpool_no_stranded_work[OF tp_demo_reach]) (simp_all add: tp_demo_state_def threadpool_new_def)
  then show ?thesis by (rule disjE) (simp add: tp_demo_state_def threadpool_new_def, blast)
qed

text \<open>
  C7. As long as the pool has not been destroyed and no assertion has failed, with at most \<open>2 ^ 30 - 1\<close> processors, the counters of the pool
  are exact: \<open>m_idle_threads\<close> is the number of workers that wait for
  the semaphore, \<open>m_max_threads\<close> is twice the number of processors plus the number of workers
  inside a \<open>block_scope\<close>, and the queues hold exactly one operation for every unit of the
  semaphore, every worker that has acquired it and every \<open>execute\<close> that is about to release it. So the
  search of a worker that has acquired the semaphore is for an operation that exists.
\<close>

theorem threadpool_accounting:
  assumes "reach tp_step (\<lambda>_. True) (tp_init k clients workers) (d, ts)" and "1 \<le> k \<and> k \<le> 1073741823"
    and "\<not> m_cancelled d" and "\<not> tp_aborted d"
  shows "m_idle_threads d = int (card {t. t < length ts \<and> (tp_in R_idle (ts ! t) \<or> tp_in R_idle_ticket (ts ! t))}) \<and>
         m_max_threads d = 2 * k + int (card {t. t < length ts \<and> tp_in R_blocked (ts ! t)}) \<and>
         int (length (concat (m_operations d))) = tp_counter d +
           int (card {t. t < length ts \<and> (tp_in R_idle_ticket (ts ! t) \<or> tp_in R_ticket (ts ! t) \<or>
                         tp_in R_left_ticket (ts ! t) \<or> tp_in R_rel (ts ! t))})"
proof -
  let ?n = "\<lambda>r. tsum (tp_weight r) ts"
  have live: "tp_live_ok (2 * k) d ?n" using tp_reach_ok(1)[OF assms(1,2)] assms(3,4) by (simp add: tp_sh_ok_def)
  have "tsum (\<lambda>pc. if tp_in R_idle pc \<or> tp_in R_idle_ticket pc then 1 else 0) ts = ?n R_idle + ?n R_idle_ticket"
    unfolding tsum_add[symmetric] by (rule arg_cong[of _ _ "\<lambda>w. tsum w ts"]) (auto simp: tp_weight_def)
  moreover have "tsum (\<lambda>pc. if tp_in R_idle_ticket pc \<or> tp_in R_ticket pc \<or> tp_in R_left_ticket pc \<or> tp_in R_rel pc
      then 1 else 0) ts = ?n R_idle_ticket + ?n R_ticket + ?n R_left_ticket + ?n R_rel"
    unfolding tsum_add[symmetric]
    by (rule arg_cong[of _ _ "\<lambda>w. tsum w ts"]) (auto simp: tp_weight_def fun_eq_iff split: tp_pc.splits)
  ultimately show ?thesis
    using live tp_tsum_count[of R_blocked ts] unfolding tsum_indicator by (simp add: tp_live_ok_def)
qed

theorem threadpool_accounting_witness: "m_max_threads (fst tp_demo_state) = 2 * 1 + int (card {t. t < length (snd tp_demo_state) \<and>
    tp_in R_blocked (snd tp_demo_state ! t)})"
  using threadpool_accounting[OF tp_demo_reach]
  by (simp add: tp_demo_state_def threadpool_new_def)

section \<open>The search for an operation\<close>

lemma tp_search_step:
  assumes "\<not> m_cancelled d" and "label < bucket_count" and "m_operations d ! label = []"
  shows "solo tp_exec 2 (d, W_search label) = Some (d, W_search (label + 1))"
  using assms by (simp add: eval_nat_numeral)

lemma tp_search_skip:
  assumes "\<not> m_cancelled d" and "\<And>i. i < label \<Longrightarrow> m_operations d ! i = []" and "label \<le> bucket_count"
  shows "solo tp_exec (2 * label) (d, W_search 0) = Some (d, W_search label)"
  using assms(2,3)
proof (induction label)
  case (Suc label)
  then have "solo tp_exec (2 * label) (d, W_search 0) = Some (d, W_search label)" by simp
  then show ?case
    using solo_add[of tp_exec "2 * label" 2 "(d, W_search 0)"] tp_search_step[OF assms(1), of label] Suc.prems
    by (simp add: add.commute)
qed simp

text \<open>
  A worker looks for its operation by priority and finds it: it takes the oldest
  operation of the most urgent queue that is not empty, after visiting each more urgent queue
  once.
\<close>

theorem threadpool_search_by_priority:
  assumes "\<not> m_cancelled d" and "length (m_operations d) = bucket_count" and "label < bucket_count"
    and "m_operations d ! label = op # rest" and "\<And>i. i < label \<Longrightarrow> m_operations d ! i = []"
  shows "solo tp_exec (2 * label + 2) (d, W_search 0) =
         Some (d\<lparr>m_operations := (m_operations d)[label := rest], tp_started := tp_started d @ [op]\<rparr>, W_run label op)"
proof -
  have "solo tp_exec 2 (d, W_search label) =
      Some (d\<lparr>m_operations := (m_operations d)[label := rest], tp_started := tp_started d @ [op]\<rparr>, W_run label op)"
    using assms by (simp add: eval_nat_numeral tp_dequeue_def)
  then show ?thesis
    using tp_search_skip[OF assms(1,5), of label] assms(3) solo_add[of tp_exec "2 * label" 2 "(d, W_search 0)"] by simp
qed

theorem threadpool_search_by_priority_witness:
  "solo tp_exec (2 * 1 + 2) ((threadpool_new 4)\<lparr>m_operations := [[], [5, 6], [], [7 :: nat]]\<rparr>, W_search 0) =
   Some ((threadpool_new 4)\<lparr>m_operations := [[], [6], [], [7]], tp_started := [5]\<rparr>, W_run 1 5)"
  using threadpool_search_by_priority[of "(threadpool_new 4)\<lparr>m_operations := [[], [5, 6], [], [7]]\<rparr>" 1 5 "[6]"]
  by (simp add: threadpool_new_def bucket_count_def)

text \<open>
  The assertions of \<open>schedule\<close> and of the destructor can fail. In the first execution a thread
  reads \<open>m_active_threads\<close> as 0 and \<open>m_idle_threads\<close> as 1, because a worker was created in between
  and has gone idle, and the process is terminated. In the second a pool without workers is destroyed:
  \<open>release(0)\<close> fails its assertion. In the third the destructor wakes an idle worker,
  which leaves its search without an operation.
\<close>

theorem threadpool_assertions_can_fail:
  "(\<exists>d ts. reach tp_step (\<lambda>_. True) (tp_init 1 2 1) (d, ts) \<and> tp_aborted (d :: nat threadpool) \<and> \<not> m_cancelled d) \<and>
   (\<exists>d ts. reach tp_step (\<lambda>_. True) (tp_init 1 1 1) (d, ts) \<and> tp_aborted (d :: nat threadpool) \<and> tp_submitted d = []) \<and>
   (\<exists>d ts. reach tp_step (\<lambda>_. True) (tp_init 1 1 1) (d, ts) \<and> tp_aborted (d :: nat threadpool) \<and> tp_started d = [7] \<and>
      m_operations d = [[], [], [], []])"
proof (intro conjI)
  let ?exec = "\<lambda>t n. (t, TE_execute n UTILITY) # replicate 8 (t, TE_step)"
  let ?es1 = "(1, TE_execute 8 UTILITY) # replicate 3 (1, TE_step) @ ?exec 0 7 @ (2, TE_start) # replicate 9 (2, TE_step) @
    replicate 9 (2, TE_step) @ replicate 2 (2, TE_step) @ [(2, TE_spin_failed), (2, TE_step), (1, TE_step)]"
  have "\<exists>d ts. run tp_step (tp_init 1 2 1) ?es1 = Some (d, ts) \<and> tp_aborted (d :: nat threadpool) \<and> \<not> m_cancelled d"
    by (simp add: tp_demo_defs eval_nat_numeral)
  then show "\<exists>d ts. reach tp_step (\<lambda>_. True) (tp_init 1 2 1) (d, ts) \<and> tp_aborted (d :: nat threadpool) \<and> \<not> m_cancelled d"
    using reach_run[where ok = "\<lambda>_. True"] by (fastforce simp: list_all_iff)
  let ?es2 = "[(0, TE_destroy), (0, TE_step), (0, TE_step), (0, TE_step)]"
  have "\<exists>d ts. run tp_step (tp_init 1 1 1) ?es2 = Some (d, ts) \<and> tp_aborted (d :: nat threadpool) \<and> tp_submitted d = []"
    by (simp add: tp_demo_defs)
  then show "\<exists>d ts. reach tp_step (\<lambda>_. True) (tp_init 1 1 1) (d, ts) \<and> tp_aborted (d :: nat threadpool) \<and> tp_submitted d = []"
    using reach_run[where ok = "\<lambda>_. True"] by (fastforce simp: list_all_iff)
  let ?es3 = "?exec 0 7 @ (1, TE_start) # replicate 9 (1, TE_step) @ replicate 2 (1, TE_step) @
    [(1, TE_spin_failed), (1, TE_step), (0, TE_destroy), (0, TE_step), (0, TE_step), (0, TE_step),
     (1, TE_step), (1, TE_step), (1, TE_step), (1, TE_step)]"
  have "\<exists>d ts. run tp_step (tp_init 1 1 1) ?es3 = Some (d, ts) \<and> tp_aborted (d :: nat threadpool) \<and> tp_started d = [7] \<and>
      m_operations d = [[], [], [], []]"
    by (simp add: tp_demo_defs eval_nat_numeral)
  then show "\<exists>d ts. reach tp_step (\<lambda>_. True) (tp_init 1 1 1) (d, ts) \<and> tp_aborted (d :: nat threadpool) \<and> tp_started d = [7] \<and>
      m_operations d = [[], [], [], []]"
    using reach_run[where ok = "\<lambda>_. True"] by (fastforce simp: list_all_iff)
qed

end
