(* ===== verification/Manual_Thread.thy ===== *)
theory Manual_Thread
  imports Executor
begin

text \<open>
  The executor that runs its operations on one thread (\<open>src/naive/naive_manual_thread.{h,cpp}\<close>), its
  subclass with a thread of its own (\<open>src/naive/naive_thread.{h,cpp}\<close>) and the manager of the operation queues
  built on it (\<open>src/naive/naive_operation_queue_manager.{h,cpp}\<close>).

  \<open>m_queued_ops\<close> and the condition variable are accessed with \<open>m_CS\<close> held; \<open>m_cancelled\<close> is
  read by \<open>run\<close> without it. \<open>mt_running\<close> says that \<open>run\<close> has been called and has not returned, and at most
  one thread runs it at a time. \<open>mt_active\<close> is the vector \<open>active_ops\<close> of that call, less the operations already
  executed; \<open>mt_submitted\<close> and \<open>mt_started\<close> are the operations in the order of \<open>execute\<close> and of their start.

  \<open>ME_throw\<close> is an exception that leaves an operation executed by \<open>run\<close>: nothing catches it, \<open>run\<close> unwinds to its
  caller and destroys \<open>active_ops\<close> with the operations it still holds (\<open>mt_lost\<close>); \<open>m_cancelled\<close> is not reset. On the
  thread of a \<open>thread\<close> object the caller is the thread function, and the program is terminated instead.
\<close>

section \<open>The model\<close>

record 'o manual_thread =
  mt_name :: string
  mt_priority :: queue_priority
  m_queued_ops :: "'o list"
  mt_CS :: "tid option"
  mt_cond :: "tid list"
  mt_cancelled :: bool
  mt_running :: bool
  mt_active :: "'o list"
  mt_submitted :: "'o list"
  mt_started :: "'o list"
  mt_lost :: "'o list"

definition manual_thread_new :: "string \<Rightarrow> queue_priority \<Rightarrow> 'o manual_thread" where
  "manual_thread_new name priority =
     \<lparr>mt_name = name, mt_priority = priority, m_queued_ops = [], mt_CS = None, mt_cond = [],
      mt_cancelled = False, mt_running = False, mt_active = [], mt_submitted = [], mt_started = [],
      mt_lost = []\<rparr>"

text \<open>The caller of \<open>execute\<close> or \<open>cancel\<close>: any thread, an operation executed by \<open>run\<close>, the destructor of \<open>thread\<close>.\<close>

datatype 'o mt_caller = MK_client | MK_op "'o list" | MK_destructor

datatype 'o mt_pc =
  M_idle
| ME_lock 'o "'o mt_caller"
| ME_push 'o "'o mt_caller"
| ME_unlock "'o mt_caller"
| MC_lock "'o mt_caller"
| MC_set "'o mt_caller"
| MC_unlock "'o mt_caller"
| MR_while
| MR_lock
| MR_test
| MR_blocked
| MR_relock
| MR_swap
| MR_unlock "'o list"
| MR_for "'o list"
| MR_op "'o list"
| MR_reset
| TD_join

datatype 'o mt_event = ME_execute 'o | ME_cancel | ME_run | ME_destroy | ME_spurious | ME_throw | ME_step

fun mt_return :: "'o mt_caller \<Rightarrow> 'o mt_pc" where
  "mt_return MK_client = M_idle"
| "mt_return (MK_op ops) = MR_op ops"
| "mt_return MK_destructor = TD_join"

fun mt_exec :: "tid \<Rightarrow> 'o manual_thread \<Rightarrow> 'o mt_pc \<Rightarrow> ('o manual_thread \<times> 'o mt_pc) option" where
  "mt_exec t m (ME_lock work k) = (if mt_CS m = None then Some (m\<lparr>mt_CS := Some t\<rparr>, ME_push work k) else None)"
| "mt_exec t m (ME_push work k) =
     Some (m\<lparr>m_queued_ops := m_queued_ops m @ [work], mt_submitted := mt_submitted m @ [work], mt_cond := []\<rparr>,
           ME_unlock k)"
| "mt_exec t m (ME_unlock k) = Some (m\<lparr>mt_CS := None\<rparr>, mt_return k)"
| "mt_exec t m (MC_lock k) = (if mt_CS m = None then Some (m\<lparr>mt_CS := Some t\<rparr>, MC_set k) else None)"
| "mt_exec t m (MC_set k) = Some (m\<lparr>mt_cancelled := True, mt_cond := []\<rparr>, MC_unlock k)"
| "mt_exec t m (MC_unlock k) = Some (m\<lparr>mt_CS := None\<rparr>, mt_return k)"
| "mt_exec t m MR_while = Some (m, if mt_cancelled m then MR_reset else MR_lock)"
| "mt_exec t m MR_lock = (if mt_CS m = None then Some (m\<lparr>mt_CS := Some t\<rparr>, MR_test) else None)"
| "mt_exec t m MR_test =
     (if m_queued_ops m = [] then Some (m\<lparr>mt_CS := None, mt_cond := mt_cond m @ [t]\<rparr>, MR_blocked)
      else Some (m, MR_swap))"
| "mt_exec t m MR_blocked = (if t \<in> set (mt_cond m) then None else Some (m, MR_relock))"
| "mt_exec t m MR_relock = (if mt_CS m = None then Some (m\<lparr>mt_CS := Some t\<rparr>, MR_swap) else None)"
| "mt_exec t m MR_swap =
     Some (m\<lparr>m_queued_ops := [], mt_active := m_queued_ops m\<rparr>, MR_unlock (m_queued_ops m))"
| "mt_exec t m (MR_unlock ops) = Some (m\<lparr>mt_CS := None\<rparr>, MR_for ops)"
| "mt_exec t m (MR_for ops) =
     (case ops of
        [] \<Rightarrow> Some (m, MR_while)
      | op # rest \<Rightarrow> Some (m\<lparr>mt_active := rest, mt_started := mt_started m @ [op]\<rparr>, MR_op rest))"
| "mt_exec t m (MR_op rest) = Some (m, MR_for rest)"
| "mt_exec t m MR_reset = Some (m\<lparr>mt_cancelled := False, mt_running := False\<rparr>, M_idle)"
| "mt_exec t m TD_join = (if mt_running m then None else Some (m, M_idle))"
| "mt_exec t m M_idle = None"

text \<open>
  The destructor of \<open>thread\<close> cancels and joins (\<open>ME_destroy\<close>). \<open>m_cond.wait(guard)\<close> has no
  predicate, so a spurious wake-up continues with an empty vector.
\<close>

fun mt_local ::
  "tid \<Rightarrow> 'o mt_event \<Rightarrow> 'o manual_thread \<Rightarrow> 'o mt_pc \<Rightarrow> ('o manual_thread \<times> 'o mt_pc) option" where
  "mt_local t (ME_execute work) m pc =
     (case pc of
        M_idle \<Rightarrow> Some (m, ME_lock work MK_client)
      | MR_op ops \<Rightarrow> Some (m, ME_lock work (MK_op ops))
      | _ \<Rightarrow> None)"
| "mt_local t ME_cancel m pc =
     (case pc of M_idle \<Rightarrow> Some (m, MC_lock MK_client) | MR_op ops \<Rightarrow> Some (m, MC_lock (MK_op ops)) | _ \<Rightarrow> None)"
| "mt_local t ME_run m pc =
     (if pc = M_idle \<and> \<not> mt_running m then Some (m\<lparr>mt_running := True\<rparr>, MR_while) else None)"
| "mt_local t ME_destroy m pc = (if pc = M_idle then Some (m, MC_lock MK_destructor) else None)"
| "mt_local t ME_spurious m pc =
     (if pc = MR_blocked then Some (m\<lparr>mt_cond := filter (\<lambda>v. v \<noteq> t) (mt_cond m)\<rparr>, MR_relock) else None)"
| "mt_local t ME_throw m pc =
     (case pc of
        MR_op rest \<Rightarrow> Some (m\<lparr>mt_running := False, mt_active := [], mt_lost := mt_lost m @ rest\<rparr>, M_idle)
      | _ \<Rightarrow> None)"
| "mt_local t ME_step m pc = mt_exec t m pc"

type_synonym 'o mt_sys = "('o manual_thread, 'o mt_pc) sys"

abbreviation mt_step :: "'o mt_sys \<Rightarrow> tid \<times> 'o mt_event \<Rightarrow> 'o mt_sys option" where
  "mt_step \<equiv> sys_step mt_local"

definition mt_init :: "string \<Rightarrow> queue_priority \<Rightarrow> nat \<Rightarrow> 'o mt_sys" where
  "mt_init name priority n = (manual_thread_new name priority, replicate n M_idle)"

text \<open>The constructor of \<open>thread\<close> starts \<open>run\<close> on a thread of its own, here thread 0; \<open>n\<close> other threads use it.\<close>

definition thread_init :: "string \<Rightarrow> queue_priority \<Rightarrow> nat \<Rightarrow> 'o mt_sys" where
  "thread_init name priority n =
     ((manual_thread_new name priority)\<lparr>mt_running := True\<rparr>, MR_while # replicate n M_idle)"

section \<open>The queue manager\<close>

text \<open>
  \<open>attach\<close> and \<open>detach\<close> queue an operation to the manager's thread; \<open>mgr_apply\<close> is that
  operation on the vector of shared pointers. A queue stays alive while the vector holds a pointer to it.
\<close>

datatype 'q mgr_op = Mgr_attach 'q | Mgr_detach 'q

fun mgr_apply :: "'q mgr_op \<Rightarrow> 'q list \<Rightarrow> 'q list" where
  "mgr_apply (Mgr_attach q) m_queues = m_queues @ [q]"
| "mgr_apply (Mgr_detach q) m_queues = filter (\<lambda>p. p \<noteq> q) m_queues"

definition mgr_run :: "'q mgr_op list \<Rightarrow> 'q list \<Rightarrow> 'q list" where
  "mgr_run ops m_queues = fold mgr_apply ops m_queues"

section \<open>The invariant\<close>

fun mt_in_run :: "'o mt_pc \<Rightarrow> bool" where
  "mt_in_run MR_while = True"
| "mt_in_run MR_lock = True"
| "mt_in_run MR_test = True"
| "mt_in_run MR_blocked = True"
| "mt_in_run MR_relock = True"
| "mt_in_run MR_swap = True"
| "mt_in_run (MR_unlock ops) = True"
| "mt_in_run (MR_for ops) = True"
| "mt_in_run (MR_op ops) = True"
| "mt_in_run MR_reset = True"
| "mt_in_run (ME_lock work k) = (\<exists>ops. k = MK_op ops)"
| "mt_in_run (ME_push work k) = (\<exists>ops. k = MK_op ops)"
| "mt_in_run (ME_unlock k) = (\<exists>ops. k = MK_op ops)"
| "mt_in_run (MC_lock k) = (\<exists>ops. k = MK_op ops)"
| "mt_in_run (MC_set k) = (\<exists>ops. k = MK_op ops)"
| "mt_in_run (MC_unlock k) = (\<exists>ops. k = MK_op ops)"
| "mt_in_run _ = False"

text \<open>The operations of the running call that are still to be executed.\<close>

fun mt_todo :: "'o mt_pc \<Rightarrow> 'o list" where
  "mt_todo (MR_unlock ops) = ops"
| "mt_todo (MR_for ops) = ops"
| "mt_todo (MR_op ops) = ops"
| "mt_todo (ME_lock work (MK_op ops)) = ops"
| "mt_todo (ME_push work (MK_op ops)) = ops"
| "mt_todo (ME_unlock (MK_op ops)) = ops"
| "mt_todo (MC_lock (MK_op ops)) = ops"
| "mt_todo (MC_set (MK_op ops)) = ops"
| "mt_todo (MC_unlock (MK_op ops)) = ops"
| "mt_todo _ = []"

fun mt_holds :: "'o mt_pc \<Rightarrow> bool" where
  "mt_holds (ME_push work k) = True"
| "mt_holds (ME_unlock k) = True"
| "mt_holds (MC_set k) = True"
| "mt_holds (MC_unlock k) = True"
| "mt_holds MR_test = True"
| "mt_holds MR_swap = True"
| "mt_holds (MR_unlock ops) = True"
| "mt_holds _ = False"

definition mt_weight :: "unit \<Rightarrow> 'o mt_pc \<Rightarrow> int" where
  "mt_weight u pc = (if mt_in_run pc then 1 else 0)"

definition mt_sh_ok :: "'o manual_thread \<Rightarrow> (unit \<Rightarrow> int) \<Rightarrow> bool" where
  "mt_sh_ok m n \<longleftrightarrow>
     n () = (if mt_running m then 1 else 0) \<and> (n () = 0 \<longrightarrow> mt_active m = []) \<and>
     (mt_lost m = [] \<longrightarrow> mt_submitted m = mt_started m @ mt_active m @ m_queued_ops m) \<and>
     mset (mt_submitted m) = mset (mt_started m) + mset (mt_active m) + mset (mt_lost m) + mset (m_queued_ops m) \<and>
     (mt_cond m \<noteq> [] \<longrightarrow> m_queued_ops m = [])"

definition mt_pc_ok :: "'o manual_thread \<Rightarrow> 'o mt_pc \<Rightarrow> bool" where
  "mt_pc_ok m pc \<longleftrightarrow> (mt_in_run pc \<longrightarrow> mt_active m = mt_todo pc)"


lemma mt_return_simps [simp]:
  "mt_in_run (mt_return k) = (\<exists>ops. k = MK_op ops)" "\<not> mt_holds (mt_return k)"
  "mt_todo (mt_return (MK_op ops)) = ops"
  by (cases k; simp)+

lemma mt_weight_range: "0 \<le> mt_weight u pc \<and> mt_weight u pc \<le> 1"
  by (simp add: mt_weight_def)

lemma mt_todo_outside: "\<not> mt_in_run pc \<Longrightarrow> mt_todo pc = []"
  by (cases pc rule: mt_todo.cases) auto

lemma mt_in_run_cases:
  "mt_in_run (ME_lock work k) \<longleftrightarrow> mt_in_run (ME_push work k)"
  "mt_todo (ME_lock work k) = mt_todo (ME_push work k)"
  "mt_todo (ME_push work k) = mt_todo (ME_unlock k :: 'o mt_pc)"
  "mt_todo (ME_unlock k) = mt_todo (mt_return k)"
  "mt_todo (MC_lock k) = mt_todo (MC_set k :: 'o mt_pc)"
  "mt_todo (MC_set k) = mt_todo (MC_unlock k :: 'o mt_pc)"
  "mt_todo (MC_unlock k) = mt_todo (mt_return k)"
  by (cases k; simp)+

text \<open>What one step does to the history, the region and the work of the running call.\<close>

definition mt_effect :: "'o manual_thread \<Rightarrow> 'o mt_pc \<Rightarrow> 'o manual_thread \<Rightarrow> 'o mt_pc \<Rightarrow> bool" where
  "mt_effect m pc m' pc' \<longleftrightarrow>
     (mt_lost m' = [] \<longrightarrow> mt_submitted m' = mt_started m' @ mt_active m' @ m_queued_ops m') \<and>
     mset (mt_submitted m') = mset (mt_started m') + mset (mt_active m') + mset (mt_lost m') + mset (m_queued_ops m') \<and>
     (mt_in_run pc' \<longrightarrow> mt_active m' = mt_todo pc') \<and>
     (\<not> mt_in_run pc \<longrightarrow> mt_active m' = mt_active m) \<and>
     (mt_in_run pc' = mt_in_run pc \<and> mt_running m' = mt_running m \<or>
      mt_in_run pc' \<and> \<not> mt_in_run pc \<and> mt_running m' \<and> \<not> mt_running m \<or>
      \<not> mt_in_run pc' \<and> mt_in_run pc \<and> \<not> mt_running m' \<and> mt_active m' = []) \<and>
     ((mt_cond m \<noteq> [] \<longrightarrow> m_queued_ops m = []) \<longrightarrow> mt_cond m' \<noteq> [] \<longrightarrow> m_queued_ops m' = [])"

lemma mt_exec_effect:
  assumes "mt_exec t m pc = Some (m', pc')"
    and "mt_lost m = [] \<Longrightarrow> mt_submitted m = mt_started m @ mt_active m @ m_queued_ops m"
    and "mset (mt_submitted m) = mset (mt_started m) + mset (mt_active m) + mset (mt_lost m) + mset (m_queued_ops m)"
    and "mt_in_run pc \<Longrightarrow> mt_active m = mt_todo pc" and "\<not> mt_running m \<Longrightarrow> mt_active m = []"
    and "mt_in_run pc \<Longrightarrow> mt_running m"
  shows "mt_effect m pc m' pc'"
  by (insert assms, cases pc rule: mt_todo.cases; simp add: mt_effect_def split: if_splits list.splits; (elim conjE)?; hypsubst?; simp)

lemma mt_local_effect:
  assumes "mt_local t e m pc = Some (m', pc')"
    and "mt_lost m = [] \<Longrightarrow> mt_submitted m = mt_started m @ mt_active m @ m_queued_ops m"
    and "mset (mt_submitted m) = mset (mt_started m) + mset (mt_active m) + mset (mt_lost m) + mset (m_queued_ops m)"
    and "mt_in_run pc \<Longrightarrow> mt_active m = mt_todo pc" and "\<not> mt_running m \<Longrightarrow> mt_active m = []"
    and "mt_in_run pc \<Longrightarrow> mt_running m"
  shows "mt_effect m pc m' pc'"
proof (cases "e = ME_step")
  case True
  then show ?thesis using assms mt_exec_effect[of t m pc m' pc'] by simp
next
  case False
  then show ?thesis
    by (insert assms, cases e; cases pc; simp add: mt_effect_def split: if_splits; (elim conjE)?; hypsubst?; auto)
qed

interpretation mt_mutex: mutex_client mt_local mt_CS mt_holds
  by unfold_locales
     (rename_tac e sh pc sh' pc', case_tac e; case_tac pc; auto split: if_splits list.splits)

interpretation mt_invariant: counting_system mt_local ok mt_weight mt_sh_ok "\<lambda>m n. mt_pc_ok m" for ok
proof
  fix u pc show "0 \<le> mt_weight u pc" by (simp add: mt_weight_def)
next
  fix t e m pc m' pc' and n :: "unit \<Rightarrow> int"
  assume l: "mt_local t e m pc = Some (m', pc')" and n: "\<And>k. 0 \<le> n k"
    and s: "mt_sh_ok m (\<lambda>k. n k + mt_weight k pc)" and p: "mt_pc_ok m pc"
  have pre: "mt_lost m = [] \<Longrightarrow> mt_submitted m = mt_started m @ mt_active m @ m_queued_ops m"
    "mset (mt_submitted m) = mset (mt_started m) + mset (mt_active m) + mset (mt_lost m) + mset (m_queued_ops m)"
    "mt_in_run pc \<Longrightarrow> mt_active m = mt_todo pc" "\<not> mt_running m \<Longrightarrow> mt_active m = []" "mt_in_run pc \<Longrightarrow> mt_running m"
    using s p n[of "()"] by (auto simp: mt_sh_ok_def mt_pc_ok_def mt_weight_def split: if_splits)
  note eff = mt_local_effect[OF l pre, unfolded mt_effect_def]
  have "mt_sh_ok m' (\<lambda>k. n k + mt_weight k pc')"
    using eff s n[of "()"] by (auto simp: mt_sh_ok_def mt_weight_def split: if_splits)
  moreover have "mt_pc_ok m' q" if "mt_weight () q \<le> n ()" "mt_pc_ok m q" for q
    using that eff s n[of "()"] by (auto simp: mt_pc_ok_def mt_weight_def mt_sh_ok_def split: if_splits)
  ultimately show "mt_sh_ok m' (\<lambda>k. n k + mt_weight k pc') \<and> mt_pc_ok m' pc' \<and>
      (\<forall>q. (\<forall>k. mt_weight k q \<le> n k) \<longrightarrow> mt_pc_ok m q \<longrightarrow> mt_pc_ok m' q)"
    using eff by (simp add: mt_pc_ok_def)
qed

lemma mt_reach_ok:
  assumes "reach mt_step ok (mt_init name priority n) s"
  shows "mt_sh_ok (fst s) (\<lambda>k. tsum (mt_weight k) (snd s))" and "pc \<in> set (snd s) \<Longrightarrow> mt_pc_ok (fst s) pc"
    and "mt_mutex.owner_inv s"
proof -
  have "mt_invariant.count_inv (mt_init name priority n)"
    by (auto simp: mt_invariant.count_inv_def mt_init_def manual_thread_new_def mt_sh_ok_def mt_pc_ok_def mt_weight_def)
  from mt_invariant.reach_inv[OF assms this]
  show "mt_sh_ok (fst s) (\<lambda>k. tsum (mt_weight k) (snd s))" "pc \<in> set (snd s) \<Longrightarrow> mt_pc_ok (fst s) pc"
    by (auto simp: mt_invariant.count_inv_def)
  have "mt_mutex.owner_inv (mt_init name priority n)"
    by (simp add: mt_mutex.owner_inv_def mt_init_def manual_thread_new_def)
  then show "mt_mutex.owner_inv s" by (rule mt_mutex.owner_inv_reach[OF assms])
qed

definition mt_no_throw :: "tid \<times> 'o mt_event \<Rightarrow> bool" where
  "mt_no_throw ev \<longleftrightarrow> snd ev \<noteq> ME_throw"

lemma mt_lost_exec: "mt_exec t m pc = Some (m', pc') \<Longrightarrow> mt_lost m' = mt_lost m"
  by (cases pc) (auto split: if_splits list.splits)

lemma mt_lost_local: "mt_local t e m pc = Some (m', pc') \<Longrightarrow> e \<noteq> ME_throw \<Longrightarrow> mt_lost m' = mt_lost m"
  by (cases e) (auto dest: mt_lost_exec split: if_splits mt_pc.splits)

interpretation mt_careful: step_invariant mt_step mt_no_throw "\<lambda>s. mt_lost (fst s) = []"
  by unfold_locales (auto simp: mt_no_throw_def elim!: sys_step_Some dest: mt_lost_local)

lemma mt_reach_none_lost: "reach mt_step mt_no_throw (mt_init name priority n) s \<Longrightarrow> mt_lost (fst s) = []"
  by (erule mt_careful.reach_inv) (simp add: mt_init_def manual_thread_new_def)

section \<open>Properties\<close>

abbreviation mt_good :: "'o mt_sys \<Rightarrow> bool" where
  "mt_good s \<equiv> \<exists>name priority n. reach mt_step mt_no_throw (mt_init name priority n) s"

abbreviation mt_waiting :: "'o mt_sys \<Rightarrow> 'o list" where
  "mt_waiting s \<equiv> mt_active (fst s) @ m_queued_ops (fst s)"

interpretation mt_executor: ordered_executor mt_good "\<lambda>s. mt_submitted (fst s)" mt_waiting "\<lambda>s. mt_started (fst s)"
proof
  fix s :: "'o mt_sys"
  assume "mt_good s"
  then obtain name priority n where "reach mt_step mt_no_throw (mt_init name priority n) s" by blast
  from mt_reach_ok(1)[OF this] mt_reach_none_lost[OF this]
  show "mt_submitted (fst s) = mt_started (fst s) @ mt_waiting s" by (simp add: mt_sh_ok_def)
qed

text \<open>
  The operations of a manual thread are started in the order in which they were submitted,
  and none is lost or started twice: what has been submitted is what has been started, followed by what the
  running call has taken and what is still queued. Two operations that were submitted as distinct objects
  are never confused. No operation throws.
\<close>

theorem manual_thread_fifo:
  assumes "reach mt_step mt_no_throw (mt_init name priority n) s"
  shows "mt_submitted (fst s) = mt_started (fst s) @ mt_active (fst s) @ m_queued_ops (fst s) \<and>
         (distinct (mt_submitted (fst s)) \<longrightarrow>
            distinct (mt_started (fst s)) \<and> set (mt_started (fst s)) \<inter> set (mt_waiting s) = {})"
proof -
  have g: "mt_good s" using assms by blast
  show ?thesis using mt_executor.in_order[OF g] mt_executor.started_once[OF g] by blast
qed

definition mt_demo :: "nat mt_sys" where
  "mt_demo = (\<lparr>mt_name = ''t'', mt_priority = UTILITY, m_queued_ops = [9], mt_CS = None, mt_cond = [],
      mt_cancelled = False, mt_running = True, mt_active = [8], mt_submitted = [7, 8, 9], mt_started = [7],
      mt_lost = []\<rparr>,
      [MR_op [8], M_idle])"

lemma mt_demo_reach: "reach mt_step mt_no_throw (mt_init ''t'' UTILITY 2) mt_demo"
proof (rule reach_run)
  show "run mt_step (mt_init ''t'' UTILITY 2)
      ([(1, ME_execute 7), (1, ME_step), (1, ME_step), (1, ME_step), (1, ME_execute 8), (1, ME_step), (1, ME_step), (1, ME_step),
        (0, ME_run)] @ replicate 6 (0, ME_step) @ [(1, ME_execute 9), (1, ME_step), (1, ME_step), (1, ME_step)]) = Some mt_demo"
    by (simp add: mt_demo_def mt_init_def manual_thread_new_def eval_nat_numeral)
qed (simp add: list_all_iff mt_no_throw_def)

theorem manual_thread_fifo_witness:
  "distinct (mt_started (fst mt_demo)) \<and> set (mt_started (fst mt_demo)) \<inter> set (mt_waiting mt_demo) = {}"
  using manual_thread_fifo[OF mt_demo_reach] by (simp add: mt_demo_def)

lemma mt_runner_exists:
  assumes "mt_sh_ok m (\<lambda>k. tsum (mt_weight k) ts)" and "mt_running m"
  shows "\<exists>t < length ts. mt_in_run (ts ! t)"
  using assms tsum_pos_member[of "mt_weight ()" ts] by (auto simp: mt_sh_ok_def mt_weight_def split: if_splits)

lemma mt_step_blocked:
  "mt_local t ME_step m pc = None \<Longrightarrow> mt_in_run pc \<Longrightarrow> mt_CS m \<noteq> None \<or> pc = MR_blocked \<and> t \<in> set (mt_cond m)"
  by (cases pc) (auto split: if_splits list.splits)

lemma mt_holder_steps: "mt_holds pc \<Longrightarrow> mt_local t ME_step m pc \<noteq> None"
  by (cases pc) auto

text \<open>
  C38. No wake-up of \<open>execute\<close> is lost: whenever \<open>run\<close> is active and an operation waits, the thread in \<open>run\<close> can
  take its next step, or another thread holds \<open>m_CS\<close> and can take its next step.
\<close>

theorem manual_thread_no_lost_wakeup:
  assumes "reach mt_step (\<lambda>_. True) (mt_init name priority n) (m, ts)"
    and "mt_running m" and "m_queued_ops m \<noteq> []"
  shows "\<exists>t < length ts. (mt_in_run (ts ! t) \<or> mt_holds (ts ! t)) \<and> mt_step (m, ts) (t, ME_step) \<noteq> None"
proof -
  note inv = mt_reach_ok[OF assms(1), unfolded fst_conv snd_conv]
  obtain t where t: "t < length ts" "mt_in_run (ts ! t)" using mt_runner_exists[OF inv(1) assms(2)] by blast
  show ?thesis
  proof (cases "mt_local t ME_step m (ts ! t)")
    case None
    have "mt_cond m = []" using inv(1) assms(3) by (auto simp: mt_sh_ok_def)
    with mt_step_blocked[OF None t(2)] obtain u where u: "mt_CS m = Some u" by auto
    then have "u < length ts" "mt_holds (ts ! u)" using inv(3) by (auto simp: mt_mutex.owner_inv_def)
    then show ?thesis using mt_holder_steps[of "ts ! u" u m] unfolding sys_step_enabled by blast
  next
    case (Some c)
    then show ?thesis using t unfolding sys_step_enabled by blast
  qed
qed

theorem manual_thread_no_lost_wakeup_witness:
  "\<exists>t < length (snd mt_demo). (mt_in_run (snd mt_demo ! t) \<or> mt_holds (snd mt_demo ! t)) \<and>
     mt_step (fst mt_demo, snd mt_demo) (t, ME_step) \<noteq> None"
  by (rule manual_thread_no_lost_wakeup[of "''t''" UTILITY 2])
     (simp_all add: reach_mono[OF mt_demo_reach], simp_all add: mt_demo_def)

lemma mt_for_solo:
  "mt_active m = ops \<Longrightarrow> solo (mt_exec t) (2 * length ops + 1) (m, MR_for ops) =
     Some (m\<lparr>mt_active := [], mt_started := mt_started m @ ops\<rparr>, MR_while)"
  by (induction ops arbitrary: m) simp_all

text \<open>
  One round of \<open>run\<close> terminates: with the mutex free and operations queued it executes all of them in
  their order and is back at the loop condition after a number of steps that is linear in their number.
\<close>

theorem manual_thread_round:
  assumes "\<not> mt_cancelled m" and "mt_CS m = None" and "m_queued_ops m \<noteq> []"
  shows "solo (mt_exec t) (2 * length (m_queued_ops m) + 6) (m, MR_while) =
         Some (m\<lparr>m_queued_ops := [], mt_active := [], mt_started := mt_started m @ m_queued_ops m\<rparr>, MR_while)"
proof -
  let ?m = "m\<lparr>m_queued_ops := [], mt_active := m_queued_ops m\<rparr>"
  have "solo (mt_exec t) 5 (m, MR_while) = Some (?m, MR_for (m_queued_ops m))"
    using assms by (simp add: eval_nat_numeral)
  then show ?thesis
    using solo_add[of "mt_exec t" 5 "2 * length (m_queued_ops m) + 1" "(m, MR_while)"]
      mt_for_solo[of ?m "m_queued_ops m" t] by (simp add: add.commute)
qed

theorem manual_thread_round_witness:
  "solo (mt_exec 0) (2 * 2 + 6) ((manual_thread_new [] UTILITY)\<lparr>m_queued_ops := [3, 4 :: nat]\<rparr>, MR_while) =
   Some ((manual_thread_new [] UTILITY)\<lparr>m_queued_ops := [], mt_active := [], mt_started := [3, 4]\<rparr>, MR_while)"
  using manual_thread_round[of "(manual_thread_new [] UTILITY)\<lparr>m_queued_ops := [3, 4 :: nat]\<rparr>" 0]
  by (simp add: manual_thread_new_def)

text \<open>
  An exception loses operations. When it leaves an operation, \<open>run\<close> returns to its caller and what it had taken
  from the queue is destroyed: it is never started, also not by a later \<open>run\<close>. The operations still queued stay there.
\<close>

theorem manual_thread_throw_loses_operations:
  assumes "reach mt_step (\<lambda>_. True) (mt_init name priority n) (m, ts)" and "t < length ts" and "ts ! t = MR_op rest"
    and "mt_step (m, ts) (t, ME_throw) = Some (m', ts')" and "distinct (mt_submitted m)"
  shows "\<not> mt_running m' \<and> m_queued_ops m' = m_queued_ops m \<and> mt_started m' = mt_started m \<and>
         set rest \<inter> (set (mt_started m') \<union> set (m_queued_ops m') \<union> set (mt_active m')) = {} \<and> set rest \<subseteq> set (mt_submitted m')"
proof -
  have m': "m' = m\<lparr>mt_running := False, mt_active := [], mt_lost := mt_lost m @ rest\<rparr>"
    using assms(2-4) unfolding sys_step_iff by auto
  note inv = mt_reach_ok(1,2)[OF assms(1), unfolded fst_conv snd_conv]
  have a: "mt_active m = rest" using inv(2)[OF nth_mem[OF assms(2)]] assms(3) by (simp add: mt_pc_ok_def)
  have e: "mset (mt_submitted m) = mset (mt_started m @ rest @ mt_lost m @ m_queued_ops m)"
    using inv(1) a by (simp add: mt_sh_ok_def)
  have "distinct (mt_started m @ rest @ mt_lost m @ m_queued_ops m)" using mset_eq_imp_distinct_iff[OF e] assms(5) by simp
  moreover have "set (mt_submitted m) = set (mt_started m @ rest @ mt_lost m @ m_queued_ops m)" using mset_eq_setD[OF e] .
  ultimately show ?thesis by (auto simp: m')
qed

theorem manual_thread_throw_loses_operations_witness:
  "\<exists>m' ts'. mt_step (fst mt_demo, snd mt_demo) (0, ME_throw) = Some (m', ts') \<and> 8 \<notin> set (mt_started m') \<union> set (m_queued_ops m')"
proof -
  have r: "reach mt_step (\<lambda>_. True) (mt_init ''t'' UTILITY 2) (fst mt_demo, snd mt_demo)"
    using reach_mono[OF mt_demo_reach] by simp
  obtain m' ts' where s: "mt_step (fst mt_demo, snd mt_demo) (0, ME_throw) = Some (m', ts')" by (simp add: mt_demo_def)
  from manual_thread_throw_loses_operations[OF r _ _ this, of "[8]"] s
  show ?thesis by (intro exI[of _ m'] exI[of _ ts']) (simp add: mt_demo_def)
qed

text \<open>
  A cancellation can be lost. \<open>run\<close> tests \<open>m_cancelled\<close> before it locks \<open>m_CS\<close> and waits without a
  predicate: when \<open>cancel\<close> comes in between, the thread of a \<open>thread\<close> object blocks although it is cancelled, and
  the destructor waits for it in \<open>join\<close>. Without a spurious wake-up no thread ever takes a step again.
\<close>

theorem thread_destructor_can_hang:
  "\<exists>m ts. reach mt_step (\<lambda>_. True) (thread_init name priority 1) (m, ts) \<and> mt_cancelled m \<and>
     ts = [MR_blocked, TD_join] \<and> (\<forall>t e. e = ME_spurious \<or> mt_step (m :: 'o manual_thread, ts) (t, e) = None)"
proof -
  let ?m = "(manual_thread_new name priority :: 'o manual_thread)
      \<lparr>mt_running := True, mt_cancelled := True, mt_cond := [0]\<rparr>"
  have "reach mt_step (\<lambda>_. True) (thread_init name priority 1) (?m, [MR_blocked, TD_join])"
    by (rule reach_run[where es = "[(0, ME_step), (1, ME_destroy), (1, ME_step), (1, ME_step), (1, ME_step), (0, ME_step), (0, ME_step)]"])
       (simp_all add: thread_init_def manual_thread_new_def)
  moreover have "mt_step (?m, [MR_blocked, TD_join]) (t, e) = None" if "e \<noteq> ME_spurious" for t e
    using that by (cases e) (auto simp: manual_thread_new_def less_Suc_eq)
  ultimately show ?thesis by fastforce
qed

lemma mgr_run_append: "mgr_run (xs @ ys) qs = mgr_run ys (mgr_run xs qs)"
  by (simp add: mgr_run_def)

definition mgr_concerns :: "'q \<Rightarrow> 'q mgr_op \<Rightarrow> bool" where
  "mgr_concerns q op \<longleftrightarrow> op = Mgr_attach q \<or> op = Mgr_detach q"

lemma mgr_run_member:
  "q \<in> set (mgr_run ops []) \<longleftrightarrow>
     filter (mgr_concerns q) ops \<noteq> [] \<and> last (filter (mgr_concerns q) ops) = Mgr_attach q"
proof (induction ops rule: rev_induct)
  case Nil
  then show ?case by (simp add: mgr_run_def)
next
  case (snoc op ops)
  then show ?case by (cases op) (auto simp: mgr_run_append mgr_concerns_def, auto simp: mgr_run_def)
qed

text \<open>
  The queue manager keeps an operation queue alive exactly as long as it should: a queue is held in any
  state if its \<open>attach\<close> has been executed and no \<open>detach\<close> has been requested, and once the manager's thread has
  no operation left, a queue is held if and only if the last request for it was \<open>attach\<close>. Its operations do not throw.
\<close>

theorem queue_manager_keeps_alive:
  assumes "reach mt_step mt_no_throw (mt_init name priority n) s"
  shows "(Mgr_attach q \<in> set (mt_started (fst s)) \<and> Mgr_detach q \<notin> set (mt_submitted (fst s)) \<longrightarrow>
            q \<in> set (mgr_run (mt_started (fst s)) [])) \<and>
         (mt_waiting s = [] \<longrightarrow>
            (q \<in> set (mgr_run (mt_started (fst s)) []) \<longleftrightarrow>
             filter (mgr_concerns q) (mt_submitted (fst s)) \<noteq> [] \<and>
             last (filter (mgr_concerns q) (mt_submitted (fst s))) = Mgr_attach q))"
proof (intro conjI impI)
  have o: "mt_submitted (fst s) = mt_started (fst s) @ mt_waiting s" using mt_executor.in_order assms by blast
  let ?f = "filter (mgr_concerns q) (mt_started (fst s))"
  assume a: "Mgr_attach q \<in> set (mt_started (fst s)) \<and> Mgr_detach q \<notin> set (mt_submitted (fst s))"
  then have ne: "?f \<noteq> []" by (auto simp: filter_empty_conv mgr_concerns_def)
  from last_in_set[OF this] have "last ?f = Mgr_attach q" using a o by (auto simp: mgr_concerns_def)
  then show "q \<in> set (mgr_run (mt_started (fst s)) [])" using ne by (simp add: mgr_run_member)
next
  assume "mt_waiting s = []"
  moreover have "mt_submitted (fst s) = mt_started (fst s) @ mt_waiting s" using mt_executor.in_order assms by blast
  ultimately have "mt_started (fst s) = mt_submitted (fst s)" by simp
  then show "q \<in> set (mgr_run (mt_started (fst s)) []) \<longleftrightarrow>
             filter (mgr_concerns q) (mt_submitted (fst s)) \<noteq> [] \<and>
             last (filter (mgr_concerns q) (mt_submitted (fst s))) = Mgr_attach q"
    by (simp add: mgr_run_member)
qed

definition mgr_demo :: "nat mgr_op mt_sys" where
  "mgr_demo = (\<lparr>mt_name = ''m'', mt_priority = BACKGROUND, m_queued_ops = [], mt_CS = None, mt_cond = [],
      mt_cancelled = False, mt_running = True, mt_active = [], mt_submitted = [Mgr_attach 7], mt_started = [Mgr_attach 7],
      mt_lost = []\<rparr>,
      [MR_op [], M_idle])"

theorem queue_manager_keeps_alive_witness: "7 \<in> set (mgr_run (mt_started (fst mgr_demo)) [])"
proof -
  have "reach mt_step mt_no_throw (mt_init ''m'' BACKGROUND 2) mgr_demo"
    by (rule reach_run[where es = "[(1, ME_execute (Mgr_attach 7)), (1, ME_step), (1, ME_step), (1, ME_step), (0, ME_run)] @
          replicate 6 (0, ME_step)"])
       (simp_all add: list_all_iff mt_no_throw_def mgr_demo_def mt_init_def manual_thread_new_def eval_nat_numeral)
  from queue_manager_keeps_alive[OF this, of 7] show ?thesis by (simp add: mgr_demo_def)
qed

end
