(* ===== verification/Ticks.thy ===== *)
theory Ticks
  imports Cancelable
begin

text \<open>
  The protocol by which the timer (\<open>src/naive/naive_timer.cpp\<close>) and the socket notifier
  (\<open>src/naive/naive_socket_notifier.cpp\<close>) call their handler: a loop on a thread of the pool queues one operation
  with a reference to a barrier on its own stack and waits for the barrier; the operation runs the handler in a
  \<open>cancelable_scope\<close> and completes the barrier.

  \<open>queued\<close> names the loops whose operation is on the target queue, \<open>fired\<close> those whose barrier is
  complete; \<open>waits\<close> says that a thread waits for its barrier, \<open>serves\<close> for which loop a thread executes the operation.
\<close>

lemma remove_nth_set:
  "x \<in> set xs \<Longrightarrow> k < length xs \<Longrightarrow> x \<in> set (take k xs @ drop (Suc k) xs) \<or> x = xs ! k"
  using id_take_nth_drop[of k xs] by (metis Un_iff set_ConsD set_append)

locale tick_protocol =
  fixes local :: "tid \<Rightarrow> 'e \<Rightarrow> 'sh \<Rightarrow> 'pc \<Rightarrow> ('sh \<times> 'pc) option"
    and queued :: "'sh \<Rightarrow> tid set"
    and fired :: "'sh \<Rightarrow> tid set"
    and waits :: "'pc \<Rightarrow> bool"
    and serves :: "'pc \<Rightarrow> tid option"
  assumes wait_step: "local t e sh pc = Some (sh', pc') \<Longrightarrow> waits pc' \<Longrightarrow> waits pc \<and> (t \<in> fired sh \<longrightarrow> t \<in> fired sh') \<or> t \<in> queued sh'"
    and queued_step: "local t e sh pc = Some (sh', pc') \<Longrightarrow> u \<in> queued sh \<Longrightarrow> u \<in> queued sh' \<or> serves pc' = Some u"
    and serve_step: "local t e sh pc = Some (sh', pc') \<Longrightarrow> serves pc = Some u \<Longrightarrow> serves pc' = Some u \<or> u \<in> fired sh'"
    and done_step: "local t e sh pc = Some (sh', pc') \<Longrightarrow> u \<in> fired sh \<Longrightarrow> u \<noteq> t \<Longrightarrow> u \<in> fired sh'"
begin

definition attended :: "('sh, 'pc) sys \<Rightarrow> tid \<Rightarrow> bool" where
  "attended s t \<longleftrightarrow> t \<in> fired (fst s) \<or> t \<in> queued (fst s) \<or> (\<exists>u < length (snd s). serves (snd s ! u) = Some t)"

definition tick_inv :: "('sh, 'pc) sys \<Rightarrow> bool" where
  "tick_inv s \<longleftrightarrow> (\<forall>t < length (snd s). waits (snd s ! t) \<longrightarrow> attended s t)"

lemma attended_step:
  assumes "t < length ts" and "local t e sh (ts ! t) = Some (sh', pc')" and "attended (sh, ts) v"
    and "v \<in> fired sh \<Longrightarrow> v = t \<Longrightarrow> v \<in> fired sh'"
  shows "attended (sh', ts[t := pc']) v"
proof -
  from assms(3) consider "v \<in> fired sh" | "v \<in> queued sh" | u where "u < length ts" "serves (ts ! u) = Some v"
    by (auto simp: attended_def)
  then show ?thesis
  proof cases
    case 1
    then show ?thesis using done_step[OF assms(2)] assms(4) by (auto simp: attended_def)
  next
    case 2
    then have "v \<in> queued sh' \<or> serves (ts[t := pc'] ! t) = Some v"
      using queued_step[OF assms(2)] assms(1) by auto
    then show ?thesis using assms(1) unfolding attended_def by auto
  next
    case 3
    then show ?thesis using serve_step[OF assms(2)] by (cases "u = t") (auto simp: attended_def)
  qed
qed

lemma tick_inv_step:
  assumes "tick_inv s" and "sys_step local s ev = Some s'"
  shows "tick_inv s'"
  using assms(2)
proof (rule sys_step_Some)
  fix sh ts t e sh' pc'
  assume *: "s = (sh, ts)" "ev = (t, e)" "t < length ts"
    "local t e sh (ts ! t) = Some (sh', pc')" "s' = (sh', ts[t := pc'])"
  have "attended s' v" if v: "v < length ts" "waits (ts[t := pc'] ! v)" for v
  proof (cases "v = t")
    case True
    then have "waits pc'" using v *(3) by simp
    from wait_step[OF *(4) this] show ?thesis
    proof
      assume w: "waits (ts ! t) \<and> (t \<in> fired sh \<longrightarrow> t \<in> fired sh')"
      then have "attended (sh, ts) v" using assms(1) *(1) True *(3) by (simp add: tick_inv_def)
      then show ?thesis unfolding *(5) using w True by (intro attended_step[OF *(3,4)]) auto
    next
      assume "t \<in> queued sh'"
      then show ?thesis using True *(5) by (simp add: attended_def)
    qed
  next
    case False
    then have "attended (sh, ts) v" using v assms(1) *(1) by (auto simp: tick_inv_def)
    then show ?thesis unfolding *(5) using False by (intro attended_step[OF *(3,4)]) auto
  qed
  then show ?thesis using *(5) by (simp add: tick_inv_def)
qed

end

sublocale tick_protocol \<subseteq> step_invariant "sys_step local" "\<lambda>_. True" tick_inv
  by unfold_locales (rule tick_inv_step)

end
