(* ===== verification/Timer.thy ===== *)
theory Timer
  imports Ticks
begin

text \<open>
  The timer of the naive backend (\<open>src/naive/naive_timer.cpp\<close>) and \<open>queue::after\<close>, which is built on it
  (\<open>delayed_operation\<close> of \<open>src/naive/naive_operations.cpp\<close>).

  The members are accessed with \<open>m_CS\<close> held. \<open>tm_pool\<close> holds the timer operations given to the thread pool and not
  yet begun, with their delay; \<open>tm_queued\<close> the operations on the target queue, each with the loop that waits for it;
  \<open>tm_done\<close> the loops whose barrier is complete; \<open>tm_started\<close> the handlers in the order of their calls. The pool
  and the target queue begin an operation on any idle thread, in any order. \<open>tm_handler\<close> is null until \<open>handler\<close> has been
  called; a thread that dereferences the null handler ends in \<open>T_null\<close>. Time is not modelled: a thread that sleeps
  can go on at any moment. \<open>m_running\<close> is unbounded, its overflow is undefined behaviour.
\<close>

section \<open>The model\<close>

record ('q, 'h) timer_impl =
  tm_backend :: backend_type
  tm_CS :: "tid option"
  tm_interval :: milliseconds
  tm_queue :: 'q
  tm_handler :: "'h option"
  tm_running :: int
  tm_cancelable :: cancelable
  tm_pool :: "milliseconds list"
  tm_queued :: "('q \<times> tid \<times> 'h option) list"
  tm_done :: "tid set"
  tm_started :: "'h list"

definition timer_impl_new :: "'q \<Rightarrow> backend_type \<Rightarrow> ('q, 'h) timer_impl" where
  "timer_impl_new queue backend =
     \<lparr>tm_backend = backend, tm_CS = None, tm_interval = 0, tm_queue = queue, tm_handler = None, tm_running = 0,
      tm_cancelable = cancelable_new, tm_pool = [], tm_queued = [], tm_done = {}, tm_started = []\<rparr>"

datatype ('q, 'h) tm_call =
  C_interval milliseconds
| C_handler 'h
| C_target_queue 'q
| C_resume milliseconds
| C_suspend
| C_cancel

text \<open>The critical section of each method.\<close>

definition tm_resume :: "milliseconds \<Rightarrow> ('q, 'h) timer_impl \<Rightarrow> ('q, 'h) timer_impl" where
  "tm_resume delay m =
     (let m = m\<lparr>tm_running := tm_running m + 1\<rparr>
      in if tm_running m \<noteq> 1 then m else m\<lparr>tm_pool := tm_pool m @ [delay]\<rparr>)"

definition tm_suspend :: "('q, 'h) timer_impl \<Rightarrow> ('q, 'h) timer_impl" where
  "tm_suspend m = m\<lparr>tm_running := tm_running m - 1\<rparr>"

declare tm_resume_def [simp] tm_suspend_def [simp]

fun tm_body :: "('q, 'h) tm_call \<Rightarrow> ('q, 'h) timer_impl \<Rightarrow> ('q, 'h) timer_impl" where
  "tm_body (C_interval interval) m = m\<lparr>tm_interval := interval\<rparr>"
| "tm_body (C_handler op) m = m\<lparr>tm_handler := Some op\<rparr>"
| "tm_body (C_target_queue q) m = m\<lparr>tm_queue := q\<rparr>"
| "tm_body (C_resume delay) m = tm_resume delay m"
| "tm_body C_suspend m = tm_suspend m"
| "tm_body C_cancel m = m\<lparr>tm_running := 0\<rparr>"

text \<open>A method is called by a client or by the handler, which runs for the loop \<open>u\<close>.\<close>

datatype 'h tm_caller = TK_client | TK_handler tid "'h option"

datatype ('q, 'h) tm_pc =
  T_idle
| T_lock "('q, 'h) tm_call" "'h tm_caller"
| T_body "('q, 'h) tm_call" "'h tm_caller"
| T_unlock "('q, 'h) tm_call" "'h tm_caller"
| T_disable can_pc
| T_nested tid "'h option"
| T_null tid
| L_delay milliseconds
| L_lock
| L_while
| L_unlock "'h option" 'q milliseconds
| L_async "'h option" 'q milliseconds
| L_wait milliseconds
| L_after milliseconds
| L_relock bool
| L_end
| Q_scope tid "'h option" can_pc
| Q_complete tid

fun tm_return :: "('q, 'h) tm_call \<Rightarrow> 'h tm_caller \<Rightarrow> ('q, 'h) tm_pc" where
  "tm_return C_cancel TK_client = T_disable CP_disable"
| "tm_return C_cancel (TK_handler u h) = T_nested u h"
| "tm_return call TK_client = T_idle"
| "tm_return call (TK_handler u h) = Q_scope u h CP_body"

text \<open>
  The operation on the target queue after a step of its \<open>cancelable_scope\<close>: entering calls the handler, a
  refused scope and the end of \<open>leave\<close> continue with the barrier.
\<close>

fun tm_scope ::
  "tid \<Rightarrow> 'h option \<Rightarrow> can_pc \<Rightarrow> ('q, 'h) timer_impl \<Rightarrow> (('q, 'h) timer_impl \<times> ('q, 'h) tm_pc)" where
  "tm_scope u h CP_idle m = (m, Q_complete u)"
| "tm_scope u (Some op) CP_body m = (m\<lparr>tm_started := tm_started m @ [op]\<rparr>, Q_scope u (Some op) CP_body)"
| "tm_scope u None CP_body m = (m, T_null u)"
| "tm_scope u h cp m = (m, Q_scope u h cp)"

fun tm_exec ::
  "tid \<Rightarrow> ('q, 'h) timer_impl \<Rightarrow> ('q, 'h) tm_pc \<Rightarrow> (('q, 'h) timer_impl \<times> ('q, 'h) tm_pc) option" where
  "tm_exec t m (T_lock call k) = (if tm_CS m = None then Some (m\<lparr>tm_CS := Some t\<rparr>, T_body call k) else None)"
| "tm_exec t m (T_body call k) = Some (tm_body call m, T_unlock call k)"
| "tm_exec t m (T_unlock call k) = Some (m\<lparr>tm_CS := None\<rparr>, tm_return call k)"
| "tm_exec t m (T_disable cp) =
     (case can_exec (tm_cancelable m) cp of
        None \<Rightarrow> None
      | Some (c, cp') \<Rightarrow> Some (m\<lparr>tm_cancelable := c\<rparr>, if cp' = CP_idle then T_idle else T_disable cp'))"
| "tm_exec t m (T_nested u h) =
     Some (m\<lparr>tm_cancelable := (tm_cancelable m)\<lparr>m_active := active_disabled\<rparr>\<rparr>, Q_scope u h CP_body)"
| "tm_exec t m (L_delay delay) = Some (m, L_lock)"
| "tm_exec t m L_lock = (if tm_CS m = None then Some (m\<lparr>tm_CS := Some t\<rparr>, L_while) else None)"
| "tm_exec t m L_while =
     Some (m, if tm_running m > 0 then L_unlock (tm_handler m) (tm_queue m) (tm_interval m) else L_end)"
| "tm_exec t m (L_unlock h q i) = Some (m\<lparr>tm_CS := None\<rparr>, L_async h q i)"
| "tm_exec t m (L_async h q i) =
     Some (m\<lparr>tm_queued := tm_queued m @ [(q, t, h)], tm_done := tm_done m - {t}\<rparr>, L_wait i)"
| "tm_exec t m (L_wait i) = (if t \<in> tm_done m then Some (m, L_after i) else None)"
| "tm_exec t m (L_after i) = Some (m, L_relock (i > 0))"
| "tm_exec t m (L_relock again) =
     (if tm_CS m = None then Some (m\<lparr>tm_CS := Some t\<rparr>, if again then L_while else L_end) else None)"
| "tm_exec t m L_end = Some (m\<lparr>tm_CS := None\<rparr>, T_idle)"
| "tm_exec t m (Q_scope u h CP_body) = Some (m, Q_scope u h CP_leave)"
| "tm_exec t m (Q_scope u h cp) =
     (case can_exec (tm_cancelable m) cp of
        None \<Rightarrow> None
      | Some (c, cp') \<Rightarrow> Some (tm_scope u h cp' (m\<lparr>tm_cancelable := c\<rparr>)))"
| "tm_exec t m (Q_complete u) = Some (m\<lparr>tm_done := insert u (tm_done m)\<rparr>, T_idle)"
| "tm_exec t m _ = None"

datatype ('q, 'h) tm_event = TM_call "('q, 'h) tm_call" | TM_pool nat | TM_tick nat | TM_step

fun tm_local ::
  "tid \<Rightarrow> ('q, 'h) tm_event \<Rightarrow> ('q, 'h) timer_impl \<Rightarrow> ('q, 'h) tm_pc \<Rightarrow>
     (('q, 'h) timer_impl \<times> ('q, 'h) tm_pc) option" where
  "tm_local t (TM_call call) m pc =
     (case pc of
        T_idle \<Rightarrow> Some (m, T_lock call TK_client)
      | Q_scope u h CP_body \<Rightarrow> Some (m, T_lock call (TK_handler u h))
      | _ \<Rightarrow> None)"
| "tm_local t (TM_pool k) m pc =
     (if pc = T_idle \<and> k < length (tm_pool m)
      then Some (m\<lparr>tm_pool := take k (tm_pool m) @ drop (Suc k) (tm_pool m)\<rparr>, L_delay (tm_pool m ! k)) else None)"
| "tm_local t (TM_tick k) m pc =
     (if pc = T_idle \<and> k < length (tm_queued m)
      then case tm_queued m ! k of
             (q, u, h) \<Rightarrow> Some (m\<lparr>tm_queued := take k (tm_queued m) @ drop (Suc k) (tm_queued m)\<rparr>, Q_scope u h CP_enter)
      else None)"
| "tm_local t TM_step m pc = tm_exec t m pc"

type_synonym ('q, 'h) tm_sys = "(('q, 'h) timer_impl, ('q, 'h) tm_pc) sys"

abbreviation tm_step :: "('q, 'h) tm_sys \<Rightarrow> tid \<times> ('q, 'h) tm_event \<Rightarrow> ('q, 'h) tm_sys option" where
  "tm_step \<equiv> sys_step tm_local"

definition tm_init :: "'q \<Rightarrow> backend_type \<Rightarrow> nat \<Rightarrow> ('q, 'h) tm_sys" where
  "tm_init queue backend n = (timer_impl_new queue backend, replicate n T_idle)"

text \<open>\<open>queue::after\<close> makes the delayed operation the handler of a new timer and starts it.\<close>

definition create_and_dispatch :: "('q, 'h) timer_impl \<Rightarrow> milliseconds \<Rightarrow> 'h \<Rightarrow> ('q, 'h) timer_impl" where
  "create_and_dispatch timer delay op = tm_body (C_resume delay) (tm_body (C_handler op) timer)"

section \<open>The cancelable of the timer\<close>

fun tm_can_pc :: "('q, 'h) tm_pc \<Rightarrow> can_pc" where
  "tm_can_pc (T_lock call (TK_handler u h)) = CP_body"
| "tm_can_pc (T_body call (TK_handler u h)) = CP_body"
| "tm_can_pc (T_unlock call (TK_handler u h)) = CP_body"
| "tm_can_pc (T_disable cp) = cp"
| "tm_can_pc (T_nested u h) = CP_nested"
| "tm_can_pc (T_null u) = CP_body"
| "tm_can_pc (Q_scope u h cp) = cp"
| "tm_can_pc _ = CP_idle"

lemma tm_body_can [simp]: "tm_cancelable (tm_body call m) = tm_cancelable m"
  by (cases call) (auto simp: Let_def)

lemma tm_scope_can:
  "tm_cancelable (fst (tm_scope u h cp m)) = tm_cancelable m" "tm_can_pc (snd (tm_scope u h cp m)) = cp"
  by (cases "(u, h, cp, m)" rule: tm_scope.cases; simp)+

lemma tm_return_can:
  "tm_can_pc (tm_return call k) = (case k of
     TK_client \<Rightarrow> if call = C_cancel then CP_disable else CP_idle
   | TK_handler u h \<Rightarrow> if call = C_cancel then CP_nested else CP_body)"
  by (cases "(call, k)" rule: tm_return.cases) auto

abbreviation tm_can_step :: "tid \<Rightarrow> ('q, 'h) timer_impl \<Rightarrow> ('q, 'h) tm_pc \<Rightarrow> ('q, 'h) timer_impl \<Rightarrow> ('q, 'h) tm_pc \<Rightarrow> bool" where
  "tm_can_step t m pc m' pc' \<equiv> can_moves t (tm_cancelable m) (tm_can_pc pc) (tm_cancelable m') (tm_can_pc pc')"

lemma tm_scope_cases:
  assumes "tm_exec t m (Q_scope u h cp) = Some (m', pc')"
  obtains "cp = CP_body" "m' = m" "pc' = Q_scope u h CP_leave"
  | c cp' where "cp \<noteq> CP_body" "can_exec (tm_cancelable m) cp = Some (c, cp')"
      "m' = fst (tm_scope u h cp' (m\<lparr>tm_cancelable := c\<rparr>))" "pc' = snd (tm_scope u h cp' (m\<lparr>tm_cancelable := c\<rparr>))"
proof (cases "cp = CP_body")
  case True
  then show ?thesis using assms that(1) by simp
next
  case False
  then obtain c cp' where "can_exec (tm_cancelable m) cp = Some (c, cp')"
    "(m', pc') = tm_scope u h cp' (m\<lparr>tm_cancelable := c\<rparr>)"
    using assms by (cases cp) (auto split: option.splits if_splits simp: Let_def)
  then show ?thesis using False that(2) by (metis fst_conv snd_conv)
qed

lemma tm_can_scope:
  assumes "tm_exec t m (Q_scope u h cp) = Some (m', pc')"
  shows "tm_can_step t m (Q_scope u h cp) m' pc'"
  using assms
  by (elim tm_scope_cases)
     (auto simp: tm_scope_can intro: can_moves_event[of _ CE_leave] can_moves_event[of _ CE_step])

lemma tm_can_exec:
  assumes "tm_exec t m pc = Some (m', pc')"
  shows "tm_can_step t m pc m' pc'"
proof (cases pc)
  case (T_unlock call k)
  then show ?thesis using assms
    by (cases k; cases "call = C_cancel") (auto simp: tm_return_can intro: can_moves_idle can_moves_event[of _ CE_disable])
next
  case (T_disable cp)
  then show ?thesis using assms by (auto split: option.splits intro!: can_moves_event[of _ CE_step])
next
  case (T_nested u h)
  then show ?thesis using assms by (auto intro!: can_moves_event[of _ CE_step])
next
  case (Q_scope u h cp)
  then show ?thesis using assms tm_can_scope by simp
next
  case (T_lock call k)
  then show ?thesis using assms by (cases k) (auto split: if_splits intro!: can_moves_idle)
next
  case (T_body call k)
  then show ?thesis using assms by (cases k) (auto intro!: can_moves_idle)
qed (use assms in \<open>auto split: if_splits intro!: can_moves_idle\<close>)

lemma tm_can_local:
  assumes "tm_local t e m pc = Some (m', pc')"
  shows "tm_can_step t m pc m' pc'"
proof (cases e)
  case (TM_call call)
  then show ?thesis using assms by (auto split: tm_pc.splits can_pc.splits intro!: can_moves_idle)
next
  case (TM_pool k)
  then show ?thesis using assms by (auto split: if_splits intro!: can_moves_idle)
next
  case (TM_tick k)
  then show ?thesis using assms by (auto split: if_splits prod.splits intro!: can_moves_event[of _ CE_enter])
next
  case TM_step
  then show ?thesis using assms by (simp add: tm_can_exec)
qed

interpretation tm_cancel: cancelable_client tm_local tm_cancelable tm_can_pc
  by unfold_locales (rule tm_can_local)

lemma tm_view_init: "tm_cancel.view (tm_init queue backend n) = can_init n"
  by (simp add: tm_cancel.view_def tm_init_def timer_impl_new_def can_init_def)

section \<open>The mutex and the barrier of a loop\<close>

fun tm_holds :: "('q, 'h) tm_pc \<Rightarrow> bool" where
  "tm_holds (T_body call k) = True"
| "tm_holds (T_unlock call k) = True"
| "tm_holds L_while = True"
| "tm_holds (L_unlock h q i) = True"
| "tm_holds L_end = True"
| "tm_holds _ = False"

fun tm_serves :: "('q, 'h) tm_pc \<Rightarrow> tid option" where
  "tm_serves (T_lock call (TK_handler u h)) = Some u"
| "tm_serves (T_body call (TK_handler u h)) = Some u"
| "tm_serves (T_unlock call (TK_handler u h)) = Some u"
| "tm_serves (T_nested u h) = Some u"
| "tm_serves (Q_scope u h cp) = Some u"
| "tm_serves (Q_complete u) = Some u"
| "tm_serves (T_null u) = Some u"
| "tm_serves _ = None"

fun tm_waits :: "('q, 'h) tm_pc \<Rightarrow> bool" where
  "tm_waits (L_wait i) = True"
| "tm_waits _ = False"

lemma tm_body_rest [simp]:
  "tm_CS (tm_body call m) = tm_CS m" "tm_done (tm_body call m) = tm_done m" "tm_queued (tm_body call m) = tm_queued m"
  "tm_started (tm_body call m) = tm_started m"
  by (cases call; simp add: Let_def)+

lemma tm_scope_rest:
  "tm_CS (fst (tm_scope u h cp m)) = tm_CS m" "tm_done (fst (tm_scope u h cp m)) = tm_done m"
  "tm_queued (fst (tm_scope u h cp m)) = tm_queued m" "tm_pool (fst (tm_scope u h cp m)) = tm_pool m"
  "tm_running (fst (tm_scope u h cp m)) = tm_running m" "tm_interval (fst (tm_scope u h cp m)) = tm_interval m"
  "tm_handler (fst (tm_scope u h cp m)) = tm_handler m"
  "\<not> tm_holds (snd (tm_scope u h cp m))" "\<not> tm_waits (snd (tm_scope u h cp m))" "tm_serves (snd (tm_scope u h cp m)) = Some u"
  by (cases "(u, h, cp, m)" rule: tm_scope.cases; simp)+

lemma tm_return_rest [simp]:
  "\<not> tm_holds (tm_return call k)" "\<not> tm_waits (tm_return call k)"
  "tm_serves (tm_return call k) = (case k of TK_client \<Rightarrow> None | TK_handler u h \<Rightarrow> Some u)"
  by (cases "(call, k)" rule: tm_return.cases; simp)+

lemma tm_local_mutex:
  assumes "tm_local t e m pc = Some (m', pc')" and "tm_holds pc \<longleftrightarrow> tm_CS m = Some t"
  shows "(tm_holds pc' \<longleftrightarrow> tm_CS m' = Some t) \<and>
     (tm_CS m' = tm_CS m \<or> tm_CS m = None \<and> tm_CS m' = Some t \<or> tm_CS m = Some t \<and> tm_CS m' = None)"
proof (cases "e = TM_step \<and> (\<exists>u h cp. pc = Q_scope u h cp)")
  case True
  then obtain u h cp where "tm_exec t m (Q_scope u h cp) = Some (m', pc')" "pc = Q_scope u h cp" using assms(1) by auto
  then show ?thesis using assms(2) by (elim tm_scope_cases) (auto simp: tm_scope_rest)
next
  case False
  then show ?thesis
    by (insert assms, cases e; cases pc)
       (auto split: if_splits option.splits prod.splits can_pc.splits)
qed

interpretation tm_mutex: mutex_client tm_local tm_CS tm_holds
  by unfold_locales (rule tm_local_mutex)

abbreviation tm_waiting_loops :: "('q, 'h) timer_impl \<Rightarrow> tid set" where
  "tm_waiting_loops m \<equiv> (fst \<circ> snd) ` set (tm_queued m)"

lemma tm_tick_rules:
  assumes "tm_local t e m pc = Some (m', pc')"
  shows "tm_waits pc' \<Longrightarrow> tm_waits pc \<and> (t \<in> tm_done m \<longrightarrow> t \<in> tm_done m') \<or> t \<in> tm_waiting_loops m'"
    and "u \<in> tm_waiting_loops m \<Longrightarrow> u \<in> tm_waiting_loops m' \<or> tm_serves pc' = Some u"
    and "tm_serves pc = Some u \<Longrightarrow> tm_serves pc' = Some u \<or> u \<in> tm_done m'"
    and "u \<in> tm_done m \<Longrightarrow> u \<noteq> t \<Longrightarrow> u \<in> tm_done m'"
proof -
  consider (scope) v h cp where "e = TM_step" "pc = Q_scope v h cp" | (tick) k where "e = TM_tick k"
    | (rest) "e = TM_step" "\<nexists>v h cp. pc = Q_scope v h cp" | (call) call where "e = TM_call call" | (pool) k where "e = TM_pool k"
    by (cases e) auto
  then have "(tm_waits pc' \<longrightarrow> tm_waits pc \<and> (t \<in> tm_done m \<longrightarrow> t \<in> tm_done m') \<or> t \<in> tm_waiting_loops m') \<and>
      (u \<in> tm_waiting_loops m \<longrightarrow> u \<in> tm_waiting_loops m' \<or> tm_serves pc' = Some u) \<and>
      (tm_serves pc = Some u \<longrightarrow> tm_serves pc' = Some u \<or> u \<in> tm_done m') \<and>
      (u \<in> tm_done m \<longrightarrow> u \<noteq> t \<longrightarrow> u \<in> tm_done m')"
  proof cases
    case scope
    then have "tm_exec t m (Q_scope v h cp) = Some (m', pc')" using assms by simp
    then show ?thesis using scope by (elim tm_scope_cases) (auto simp: tm_scope_rest)
  next
    case tick
    then obtain q v h where *: "k < length (tm_queued m)" "tm_queued m ! k = (q, v, h)" "pc = T_idle" "pc' = Q_scope v h CP_enter"
      "m' = m\<lparr>tm_queued := take k (tm_queued m) @ drop (Suc k) (tm_queued m)\<rparr>"
      using assms by (auto split: if_splits prod.splits)
    have "x \<in> set (tm_queued m') \<or> x = (q, v, h)" if "x \<in> set (tm_queued m)" for x
      using remove_nth_set[OF that *(1)] *(2,5) by auto
    then have "u \<in> tm_waiting_loops m' \<or> u = v" if "u \<in> tm_waiting_loops m" using that by force
    then show ?thesis using * by auto
  next
    case rest
    then show ?thesis using assms
      by (cases pc) (auto split: if_splits option.splits tm_caller.splits elim: tm_serves.elims)
  next
    case call
    then show ?thesis using assms by (cases pc) (auto split: can_pc.splits)
  next
    case pool
    then show ?thesis using assms by (auto split: if_splits)
  qed
  then show "tm_waits pc' \<Longrightarrow> tm_waits pc \<and> (t \<in> tm_done m \<longrightarrow> t \<in> tm_done m') \<or> t \<in> tm_waiting_loops m'"
    and "u \<in> tm_waiting_loops m \<Longrightarrow> u \<in> tm_waiting_loops m' \<or> tm_serves pc' = Some u"
    and "tm_serves pc = Some u \<Longrightarrow> tm_serves pc' = Some u \<or> u \<in> tm_done m'"
    and "u \<in> tm_done m \<Longrightarrow> u \<noteq> t \<Longrightarrow> u \<in> tm_done m'" by blast+
qed

interpretation tm_ticks: tick_protocol tm_local tm_waiting_loops tm_done tm_waits tm_serves
  by unfold_locales (erule (2) tm_tick_rules | erule (1) tm_tick_rules)+

section \<open>The loops of a periodic timer\<close>

fun tm_looping :: "('q, 'h) tm_pc \<Rightarrow> bool" where
  "tm_looping (L_delay delay) = True"
| "tm_looping L_lock = True"
| "tm_looping L_while = True"
| "tm_looping (L_unlock h q i) = True"
| "tm_looping (L_async h q i) = True"
| "tm_looping (L_wait i) = True"
| "tm_looping (L_after i) = True"
| "tm_looping (L_relock again) = again"
| "tm_looping _ = False"

definition tm_weight :: "unit \<Rightarrow> ('q, 'h) tm_pc \<Rightarrow> int" where
  "tm_weight u pc = (if tm_looping pc then 1 else 0)"

definition tm_periodic_ok :: "('q, 'h) timer_impl \<Rightarrow> (unit \<Rightarrow> int) \<Rightarrow> bool" where
  "tm_periodic_ok m n \<longleftrightarrow> 0 < tm_interval m \<and> (0 < tm_running m \<longrightarrow> tm_pool m \<noteq> [] \<or> 0 < n ())"

fun tm_periodic_pc :: "('q, 'h) tm_pc \<Rightarrow> bool" where
  "tm_periodic_pc (L_unlock h q i) = (0 < i)"
| "tm_periodic_pc (L_async h q i) = (0 < i)"
| "tm_periodic_pc (L_wait i) = (0 < i)"
| "tm_periodic_pc (L_after i) = (0 < i)"
| "tm_periodic_pc (L_relock again) = again"
| "tm_periodic_pc (T_lock call k) = (\<forall>i. call = C_interval i \<longrightarrow> 0 < i)"
| "tm_periodic_pc (T_body call k) = (\<forall>i. call = C_interval i \<longrightarrow> 0 < i)"
| "tm_periodic_pc _ = True"

text \<open>Only positive intervals are set.\<close>

definition tm_periodic :: "tid \<times> ('q, 'h) tm_event \<Rightarrow> bool" where
  "tm_periodic ev \<longleftrightarrow> (\<forall>i. snd ev = TM_call (C_interval i) \<longrightarrow> 0 < i)"

lemma tm_scope_pcs:
  "\<not> tm_looping (snd (tm_scope u h cp m))" "tm_periodic_pc (snd (tm_scope u h cp m))"
  by (cases "(u, h, cp, m)" rule: tm_scope.cases; simp)+

lemma tm_return_pcs [simp]: "\<not> tm_looping (tm_return call k)" "tm_periodic_pc (tm_return call k)"
  by (cases "(call, k)" rule: tm_return.cases; simp)+

lemma tm_periodic_body:
  assumes "tm_periodic_ok m n" and "\<forall>i. call = C_interval i \<longrightarrow> 0 < i"
  shows "tm_periodic_ok (tm_body call m) n"
  using assms by (cases call) (auto simp: tm_periodic_ok_def Let_def)

lemma tm_periodic_step:
  assumes "tm_local t e m pc = Some (m', pc')" and "tm_periodic (t, e)"
    and "tm_periodic_ok m (\<lambda>k. n k + tm_weight k pc)" and "tm_periodic_pc pc" and "0 \<le> n ()"
  shows "tm_periodic_ok m' (\<lambda>k. n k + tm_weight k pc') \<and> tm_periodic_pc pc'"
proof (cases "e = TM_step \<and> ((\<exists>u h cp. pc = Q_scope u h cp) \<or> (\<exists>call k. pc = T_body call k))")
  case True
  then show ?thesis
  proof (elim conjE disjE exE)
    fix u h cp
    assume "e = TM_step" and pc: "pc = Q_scope u h cp"
    then have "tm_exec t m (Q_scope u h cp) = Some (m', pc')" using assms(1) by simp
    then show ?thesis using assms(3) pc
      by (elim tm_scope_cases) (auto simp: tm_scope_rest tm_scope_pcs tm_weight_def tm_periodic_ok_def)
  next
    fix call k
    assume "e = TM_step" and pc: "pc = T_body call k"
    then show ?thesis
      using assms tm_periodic_body[of m "\<lambda>k. n k + tm_weight k pc" call] by (auto simp: tm_weight_def)
  qed
next
  case False
  then show ?thesis
    by (insert assms, cases e; cases pc)
       (auto simp: tm_weight_def tm_periodic_ok_def tm_periodic_def split: if_splits option.splits prod.splits can_pc.splits)
qed

interpretation tm_loops: counting_system tm_local tm_periodic tm_weight tm_periodic_ok "\<lambda>m n. tm_periodic_pc"
proof
  fix k pc show "0 \<le> tm_weight k pc" by (simp add: tm_weight_def)
next
  fix t e m pc m' pc' and n :: "unit \<Rightarrow> int"
  assume "tm_local t e m pc = Some (m', pc')" "tm_periodic (t, e)" "\<And>k. 0 \<le> n k"
    "tm_periodic_ok m (\<lambda>k. n k + tm_weight k pc)" "tm_periodic_pc pc"
  from tm_periodic_step[OF this(1,2,4,5) this(3)]
  show "tm_periodic_ok m' (\<lambda>k. n k + tm_weight k pc') \<and> tm_periodic_pc pc' \<and>
      (\<forall>p. (\<forall>k. tm_weight k p \<le> n k) \<longrightarrow> tm_periodic_pc p \<longrightarrow> tm_periodic_pc p)" by blast
qed

section \<open>The timer of queue::after\<close>

text \<open>The states in which a loop or an operation on the queue has the call of the handler before it.\<close>

fun tm_pending :: "('q, 'h) tm_pc \<Rightarrow> bool" where
  "tm_pending (L_delay delay) = True"
| "tm_pending L_lock = True"
| "tm_pending L_while = True"
| "tm_pending (L_unlock h q i) = True"
| "tm_pending (L_async h q i) = True"
| "tm_pending (Q_scope u h CP_enter) = True"
| "tm_pending _ = False"

definition tm_once_weight :: "unit \<Rightarrow> ('q, 'h) tm_pc \<Rightarrow> int" where
  "tm_once_weight u pc = (if tm_pending pc then 1 else 0)"

definition tm_once_ok :: "'h \<Rightarrow> ('q, 'h) timer_impl \<Rightarrow> (unit \<Rightarrow> int) \<Rightarrow> bool" where
  "tm_once_ok op m n \<longleftrightarrow>
     tm_interval m = 0 \<and> tm_handler m = Some op \<and> (\<forall>(q, u, h) \<in> set (tm_queued m). h = Some op) \<and>
     set (tm_started m) \<subseteq> {op} \<and>
     int (length (tm_pool m)) + n () + int (length (tm_queued m)) + int (length (tm_started m)) \<le> 1"

fun tm_once_pc :: "'h \<Rightarrow> ('q, 'h) tm_pc \<Rightarrow> bool" where
  "tm_once_pc op (L_unlock h q i) = (i = 0 \<and> h = Some op)"
| "tm_once_pc op (L_async h q i) = (i = 0 \<and> h = Some op)"
| "tm_once_pc op (L_wait i) = (i = 0)"
| "tm_once_pc op (L_after i) = (i = 0)"
| "tm_once_pc op (L_relock again) = (\<not> again)"
| "tm_once_pc op (T_lock call k) = (call = C_cancel \<and> (\<forall>u h. k = TK_handler u h \<longrightarrow> h = Some op))"
| "tm_once_pc op (T_body call k) = (call = C_cancel \<and> (\<forall>u h. k = TK_handler u h \<longrightarrow> h = Some op))"
| "tm_once_pc op (T_unlock call k) = (call = C_cancel \<and> (\<forall>u h. k = TK_handler u h \<longrightarrow> h = Some op))"
| "tm_once_pc op (T_nested u h) = (h = Some op)"
| "tm_once_pc op (Q_scope u h cp) = (h = Some op \<and> cp \<noteq> CP_nested)"
| "tm_once_pc op _ = True"

text \<open>The timer is not known to anybody but the delayed operation, which only cancels it.\<close>

definition tm_only_cancel :: "tid \<times> ('q, 'h) tm_event \<Rightarrow> bool" where
  "tm_only_cancel ev \<longleftrightarrow> (\<forall>call. snd ev = TM_call call \<longrightarrow> call = C_cancel)"

lemma tm_once_scope:
  assumes "can_exec c cp = Some (c', cp')" and "cp \<noteq> CP_body" "cp \<noteq> CP_nested"
    and "tm_once_ok op m (\<lambda>k. n k + tm_once_weight k (Q_scope u (Some op) cp :: ('q, 'h) tm_pc))"
  shows "tm_once_ok op (fst (tm_scope u (Some op) cp' (m\<lparr>tm_cancelable := c'\<rparr>)))
           (\<lambda>k. n k + tm_once_weight k (snd (tm_scope u (Some op) cp' (m\<lparr>tm_cancelable := c'\<rparr>)))) \<and>
         tm_once_pc op (snd (tm_scope u (Some op) cp' (m\<lparr>tm_cancelable := c'\<rparr>)))"
  by (insert assms, cases cp) (auto simp: tm_once_ok_def tm_once_weight_def Let_def split: if_splits)

lemma tm_once_tick:
  assumes "tm_once_ok op m n" and "k < length (tm_queued m)" and "tm_queued m ! k = (q, u, h)"
  shows "h = Some op"
    and "tm_once_ok op (m\<lparr>tm_queued := take k (tm_queued m) @ drop (Suc k) (tm_queued m)\<rparr>) (\<lambda>_. n () + 1)"
proof -
  have mem: "(q, u, h) \<in> set (tm_queued m)" using assms(2,3) by (metis nth_mem)
  then show h: "h = Some op" using assms(1) by (auto simp: tm_once_ok_def)
  have "set (take k (tm_queued m) @ drop (Suc k) (tm_queued m)) \<subseteq> set (tm_queued m)"
    by (auto dest: in_set_takeD in_set_dropD)
  then show "tm_once_ok op (m\<lparr>tm_queued := take k (tm_queued m) @ drop (Suc k) (tm_queued m)\<rparr>) (\<lambda>_. n () + 1)"
    using assms(1,2) by (auto simp: tm_once_ok_def)
qed

lemma tm_return_once [simp]:
  "\<not> tm_pending (tm_return C_cancel k)"
  "tm_once_pc op (tm_return C_cancel k) = (\<forall>u h. k = TK_handler u h \<longrightarrow> h = Some op)"
  by (cases k; simp)+

lemma tm_once_step:
  assumes "tm_local t e m pc = Some (m', pc')" and "tm_only_cancel (t, e)"
    and "tm_once_ok op m (\<lambda>k. n k + tm_once_weight k pc)" and "tm_once_pc op pc" and "0 \<le> n ()"
  shows "tm_once_ok op m' (\<lambda>k. n k + tm_once_weight k pc') \<and> tm_once_pc op pc'"
proof -
  consider (scope) u h cp where "e = TM_step" "pc = Q_scope u h cp" | (tick) k where "e = TM_tick k"
    | (rest) "\<not> (e = TM_step \<and> (\<exists>u h cp. pc = Q_scope u h cp))" "\<nexists>k. e = TM_tick k"
    by blast
  then show ?thesis
  proof cases
    case scope
    then have "tm_exec t m (Q_scope u h cp) = Some (m', pc')" using assms(1) by simp
    then show ?thesis
    proof (cases rule: tm_scope_cases)
      case 1
      then show ?thesis using scope assms(3,4) by (auto simp: tm_once_ok_def tm_once_weight_def)
    next
      case (2 c cp')
      have "h = Some op" "cp \<noteq> CP_nested" using scope(2) assms(4) by auto
      then show ?thesis using tm_once_scope[OF 2(2,1)] assms(3) scope(2) unfolding 2(3,4) by simp
    qed
  next
    case tick
    then obtain q u h where *: "k < length (tm_queued m)" "tm_queued m ! k = (q, u, h)" "pc = T_idle"
      "pc' = Q_scope u h CP_enter" "m' = m\<lparr>tm_queued := take k (tm_queued m) @ drop (Suc k) (tm_queued m)\<rparr>"
      using assms(1) by (auto split: if_splits prod.splits)
    have "tm_once_ok op m n" using assms(3) *(3) by (simp add: tm_once_weight_def)
    from tm_once_tick[OF this *(1,2)] show ?thesis using *(4,5) by (simp add: tm_once_weight_def tm_once_ok_def)
  next
    case rest
    then show ?thesis
      by (insert assms, cases e; cases pc)
         (auto simp: tm_once_ok_def tm_once_weight_def tm_only_cancel_def split: if_splits option.splits can_pc.splits)
  qed
qed

interpretation tm_once: counting_system tm_local tm_only_cancel tm_once_weight "tm_once_ok op" "\<lambda>m n. tm_once_pc op" for op
proof
  fix k pc show "0 \<le> tm_once_weight k pc" by (simp add: tm_once_weight_def)
next
  fix t e m pc m' pc' op and n :: "unit \<Rightarrow> int"
  assume "tm_local t e m pc = Some (m', pc')" "tm_only_cancel (t, e)" "\<And>k. 0 \<le> n k"
    "tm_once_ok op m (\<lambda>k. n k + tm_once_weight k pc)" "tm_once_pc op pc"
  from tm_once_step[OF this(1,2,4,5) this(3)]
  show "tm_once_ok op m' (\<lambda>k. n k + tm_once_weight k pc') \<and> tm_once_pc op pc' \<and>
      (\<forall>p. (\<forall>k. tm_once_weight k p \<le> n k) \<longrightarrow> tm_once_pc op p \<longrightarrow> tm_once_pc op p)" by blast
qed

section \<open>Properties\<close>

definition tm_in_handler :: "('q, 'h) tm_pc \<Rightarrow> bool" where
  "tm_in_handler pc \<longleftrightarrow> can_inside (tm_can_pc pc)"

text \<open>
  The calls of a timer's handler never overlap, even if the timer has several loops and its target queue is
  parallel: at most one thread is between the entry of the guarded scope and its end.
\<close>

theorem timer_handler_exclusive:
  assumes "reach tm_step (\<lambda>_. True) (tm_init queue backend n) s"
  shows "card {t. t < length (snd s) \<and> tm_in_handler (snd s ! t)} \<le> 1"
  using tm_cancel.client_exclusive[OF assms tm_view_init] by (simp add: tm_in_handler_def)

definition tm_demo_running :: "(nat, nat) tm_sys" where
  "tm_demo_running =
     ((timer_impl_new 0 Backend_naive)\<lparr>tm_handler := Some 5, tm_running := 1, tm_started := [5],
        tm_cancelable := \<lparr>m_active = active_running, can_barrier = False\<rparr>\<rparr>,
      [L_wait 0, Q_scope 0 (Some 5) CP_body])"

abbreviation tm_start_demo :: "(tid \<times> (nat, nat) tm_event) list" where
  "tm_start_demo \<equiv>
     [(0, TM_call (C_handler 5)), (0, TM_step), (0, TM_step), (0, TM_step),
      (0, TM_call (C_resume 3)), (0, TM_step), (0, TM_step), (0, TM_step),
      (0, TM_pool 0), (0, TM_step), (0, TM_step), (0, TM_step), (0, TM_step), (0, TM_step),
      (1, TM_tick 0), (1, TM_step)]"

lemma tm_demo_reach: "reach tm_step (\<lambda>_. True) (tm_init 0 Backend_naive 2) tm_demo_running"
  by (rule reach_run[where es = tm_start_demo])
     (simp_all add: tm_demo_running_def tm_init_def timer_impl_new_def cancelable_new_def eval_nat_numeral Let_def)

theorem timer_handler_exclusive_witness:
  "card {t. t < length (snd tm_demo_running) \<and> tm_in_handler (snd tm_demo_running ! t)} \<le> 1"
  by (rule timer_handler_exclusive[OF tm_demo_reach])

text \<open>
  C23. After the first \<open>cancel\<close> from outside the handler has returned, the handler is not running and is never
  called again, whatever ticks are still queued and whoever resumes the timer afterwards.
\<close>

theorem timer_cancel_is_final:
  assumes "reach tm_step (\<lambda>_. True) (tm_init queue backend n) s"
    and "t < length (snd s)" and "snd s ! t = T_disable (CP_dret a)" and "a \<noteq> active_disabled"
    and "reach tm_step (\<lambda>_. True) s s'"
  shows "\<forall>pc \<in> set (snd s'). \<not> tm_in_handler pc"
  using tm_cancel.client_disable_final[OF assms(1) tm_view_init assms(2) _ assms(4,5)] assms(3)
  by (simp add: tm_in_handler_def)

definition tm_demo_cancelled :: "(nat, nat) tm_sys" where
  "tm_demo_cancelled =
     ((timer_impl_new 0 Backend_naive)\<lparr>tm_cancelable := \<lparr>m_active = active_disabled, can_barrier = False\<rparr>\<rparr>,
      [T_disable (CP_dret active_enabled), T_idle])"

theorem timer_cancel_is_final_witness: "\<not> tm_in_handler (snd tm_demo_cancelled ! 1)"
proof -
  have "reach tm_step (\<lambda>_. True) (tm_init 0 Backend_naive 2) tm_demo_cancelled"
    by (rule reach_run[where es = "[(0, TM_call C_cancel), (0, TM_step), (0, TM_step), (0, TM_step), (0, TM_step)]"])
       (simp_all add: tm_demo_cancelled_def tm_init_def timer_impl_new_def cancelable_new_def eval_nat_numeral Let_def)
  then have "\<forall>pc \<in> set (snd tm_demo_cancelled). \<not> tm_in_handler pc"
    by (rule timer_cancel_is_final[where t = 0 and a = active_enabled]) (simp_all add: tm_demo_cancelled_def)
  then show ?thesis by (rule bspec) (simp add: tm_demo_cancelled_def)
qed

lemma tm_holder_steps: "tm_holds pc \<Longrightarrow> tm_local t TM_step m pc \<noteq> None"
  by (cases pc) auto

text \<open>
  A loop that waits for its barrier is never stranded: the barrier is complete, or its operation
  is on the target queue, or a thread is executing it.
\<close>

theorem timer_loop_not_stranded:
  assumes "reach tm_step (\<lambda>_. True) (tm_init queue backend n) (m, ts)"
    and "t < length ts" and "ts ! t = L_wait i"
  shows "tm_step (m, ts) (t, TM_step) \<noteq> None \<or> (\<exists>q h. (q, t, h) \<in> set (tm_queued m)) \<or>
         (\<exists>u < length ts. tm_serves (ts ! u) = Some t)"
proof -
  have "tm_ticks.tick_inv (tm_init queue backend n :: ('a, 'b) tm_sys)" unfolding tm_ticks.tick_inv_def by (simp add: tm_init_def)
  from tm_ticks.reach_inv[OF assms(1) this] have "tm_ticks.attended (m, ts) t"
    using assms(2,3) unfolding tm_ticks.tick_inv_def by simp
  then show ?thesis
    unfolding tm_ticks.attended_def sys_step_enabled using assms(2,3) by force
qed

theorem timer_loop_not_stranded_witness:
  "\<exists>u < length (snd tm_demo_running). tm_serves (snd tm_demo_running ! u) = Some 0"
proof -
  have "tm_step (fst tm_demo_running, snd tm_demo_running) (0, TM_step) \<noteq> None \<or>
      (\<exists>q h. (q, 0, h) \<in> set (tm_queued (fst tm_demo_running))) \<or>
      (\<exists>u < length (snd tm_demo_running). tm_serves (snd tm_demo_running ! u) = Some 0)"
    by (rule timer_loop_not_stranded[of 0 Backend_naive 2 _ _ _ 0])
       (simp_all add: tm_demo_reach, simp_all add: tm_demo_running_def)
  then show ?thesis by (elim disjE) (simp_all add: tm_demo_running_def timer_impl_new_def)
qed

text \<open>
  C22. A periodic timer keeps running: as long as only positive intervals are set, whenever \<open>m_running\<close> is
  positive there is an operation for its loop in the pool or a thread inside the loop.
\<close>

theorem timer_keeps_running:
  assumes "reach tm_step tm_periodic ((timer_impl_new queue backend)\<lparr>tm_interval := i\<rparr>, replicate n T_idle) (m, ts)"
    and "0 < i" and "0 < tm_running m"
  shows "tm_pool m \<noteq> [] \<or> (\<exists>t < length ts. tm_looping (ts ! t))"
proof -
  have "tm_loops.count_inv ((timer_impl_new queue backend)\<lparr>tm_interval := i\<rparr> :: ('a, 'b) timer_impl, replicate n T_idle)"
    using assms(2) by (auto simp: tm_loops.count_inv_def timer_impl_new_def tm_periodic_ok_def)
  from tm_loops.reach_inv[OF assms(1) this] have "tm_pool m \<noteq> [] \<or> 0 < tsum (tm_weight ()) ts"
    using assms(3) by (simp add: tm_loops.count_inv_def tm_periodic_ok_def)
  then show ?thesis by (auto dest!: tsum_pos_member simp: tm_weight_def split: if_splits)
qed

theorem timer_keeps_running_witness:
  "tm_pool (tm_body (C_resume 3) ((timer_impl_new 0 Backend_naive)\<lparr>tm_interval := 9\<rparr> :: (nat, nat) timer_impl)) \<noteq> []"
proof -
  let ?m = "(timer_impl_new 0 Backend_naive)\<lparr>tm_interval := 9\<rparr> :: (nat, nat) timer_impl"
  have "reach tm_step tm_periodic (?m, replicate 1 T_idle) (tm_body (C_resume 3) ?m, [T_idle])"
    by (rule reach_run[where es = "[(0, TM_call (C_resume 3)), (0, TM_step), (0, TM_step), (0, TM_step)]"])
       (simp_all add: timer_impl_new_def Let_def tm_periodic_def)
  from timer_keeps_running[OF this] show ?thesis
    by (rule disjE) (simp_all add: timer_impl_new_def Let_def)
qed

text \<open>
  An operation given to \<open>queue::after\<close> is executed at most once, and there is an execution in which it is:
  the new timer is known to nobody but the delayed operation, which cancels it.
\<close>

theorem after_executes_once:
  assumes "reach tm_step tm_only_cancel (create_and_dispatch (timer_impl_new queue backend) delay op, replicate n T_idle) (m, ts)"
  shows "(tm_started m = [] \<or> tm_started m = [op]) \<and>
         (\<exists>m' ts'. reach tm_step tm_only_cancel
            (create_and_dispatch (timer_impl_new queue backend) delay op, replicate 2 T_idle) (m', ts') \<and>
            tm_started m' = [op] \<and> ts' = [T_idle, T_idle] \<and> tm_pool m' = [] \<and> tm_queued m' = [])"
proof
  have "tm_once.count_inv op (create_and_dispatch (timer_impl_new queue backend) delay op :: ('a, 'b) timer_impl, replicate n T_idle)"
    by (auto simp: tm_once.count_inv_def create_and_dispatch_def timer_impl_new_def tm_once_ok_def tm_once_weight_def)
  moreover have "0 \<le> tsum (tm_once_weight ()) ts" by (rule tsum_nonneg) (simp add: tm_once_weight_def)
  ultimately have "set (tm_started m) \<subseteq> {op}" "length (tm_started m) \<le> 1"
    using tm_once.reach_inv[OF assms] by (auto simp: tm_once.count_inv_def tm_once_ok_def)
  then show "tm_started m = [] \<or> tm_started m = [op]" by (cases "tm_started m") auto
next
  let ?es = "[(0, TM_pool 0), (0, TM_step), (0, TM_step), (0, TM_step), (0, TM_step), (0, TM_step), (1, TM_tick 0),
      (1, TM_step), (1, TM_call C_cancel), (1, TM_step), (1, TM_step), (1, TM_step), (1, TM_step), (1, TM_step), (1, TM_step),
      (1, TM_step), (1, TM_step), (0, TM_step), (0, TM_step), (0, TM_step), (0, TM_step)]"
  have "\<exists>m'. run tm_step (create_and_dispatch (timer_impl_new queue backend) delay op, replicate 2 T_idle) ?es =
      Some (m', [T_idle, T_idle]) \<and> tm_started m' = [op] \<and> tm_pool m' = [] \<and> tm_queued m' = []"
    by (simp add: create_and_dispatch_def timer_impl_new_def cancelable_new_def eval_nat_numeral)
  moreover have "list_all tm_only_cancel ?es" by (simp add: tm_only_cancel_def)
  ultimately show "\<exists>m' ts'. reach tm_step tm_only_cancel
            (create_and_dispatch (timer_impl_new queue backend) delay op, replicate 2 T_idle) (m', ts') \<and>
            tm_started m' = [op] \<and> ts' = [T_idle, T_idle] \<and> tm_pool m' = [] \<and> tm_queued m' = []"
    by (blast dest: reach_run)
qed

theorem after_executes_once_witness:
  "\<exists>m' ts'. reach tm_step tm_only_cancel
      (create_and_dispatch (timer_impl_new (0 :: nat) Backend_naive) 3 (8 :: nat), replicate 2 T_idle) (m', ts') \<and>
      tm_started m' = [8] \<and> ts' = [T_idle, T_idle] \<and> tm_pool m' = [] \<and> tm_queued m' = []"
  using after_executes_once[OF reach_refl, of 0 Backend_naive 3 8] by blast

text \<open>
  A loop that finds the timer suspended ends: with the mutex free and \<open>m_running\<close> not positive it is
  idle after three steps of its own.
\<close>

theorem timer_suspended_loop_ends:
  assumes "tm_running m \<le> 0" and "tm_CS m = None"
  shows "solo (tm_exec t) 3 (m, L_relock again) = Some (m, T_idle) \<or>
         solo (tm_exec t) 2 (m, L_relock again) = Some (m, T_idle)"
  using assms by (cases again) (simp_all add: eval_nat_numeral)

theorem timer_suspended_loop_ends_witness:
  "solo (tm_exec 0) 3 (timer_impl_new (0 :: nat) Backend_naive :: (nat, nat) timer_impl, L_relock True) =
     Some (timer_impl_new 0 Backend_naive, T_idle)"
  using timer_suspended_loop_ends[of "timer_impl_new (0 :: nat) Backend_naive :: (nat, nat) timer_impl" 0 True]
  by (auto simp: timer_impl_new_def eval_nat_numeral)

text \<open>
  Two loops can serve one timer: a timer that is suspended and resumed while its loop sleeps has two
  loops afterwards and calls its handler twice per interval.
\<close>

theorem timer_can_have_two_loops:
  "\<exists>m. reach tm_step tm_periodic ((timer_impl_new queue backend)\<lparr>tm_interval := 9\<rparr>, replicate 4 T_idle)
     (m :: ('q, nat) timer_impl, [T_idle, L_while, L_relock True, T_idle]) \<and> tm_running m = 1"
proof -
  let ?call = "\<lambda>c. [(0, TM_call c), (0, TM_step), (0, TM_step), (0, TM_step)]"
  let ?tick = "\<lambda>t. replicate 4 (t, TM_step) @ [(3, TM_tick 0), (3, TM_step), (3, TM_step), (3, TM_step), (3, TM_step), (t, TM_step), (t, TM_step)]"
  have "\<exists>m. run tm_step ((timer_impl_new queue backend)\<lparr>tm_interval := 9\<rparr>, replicate 4 T_idle)
      (?call (C_handler 5) @ ?call (C_resume 0) @ [(2, TM_pool 0), (2, TM_step)] @ ?tick 2 @
       ?call C_suspend @ ?call (C_resume 0) @ [(1, TM_pool 0), (1, TM_step)] @ ?tick 1 @ [(1, TM_step)]) =
      Some (m :: ('q, nat) timer_impl, [T_idle, L_while, L_relock True, T_idle]) \<and> tm_running m = 1"
    by (simp add: timer_impl_new_def cancelable_new_def eval_nat_numeral Let_def)
  then show ?thesis by (fastforce intro: reach_run simp: tm_periodic_def list_all_iff)
qed

text \<open>
  A single-shot timer cannot be started again and a \<open>suspend\<close> before \<open>resume\<close> blocks it: after its
  only call \<open>m_running\<close> is still 1 and no loop is left, and a further \<open>resume\<close> starts nothing; the same holds after an
  unmatched \<open>suspend\<close>.
\<close>

theorem timer_resume_without_effect:
  "(\<exists>m. reach tm_step (\<lambda>_. True) (tm_init queue backend 2) (m :: ('q, nat) timer_impl, [T_idle, T_idle]) \<and>
      tm_started m = [5] \<and> tm_running m = 1 \<and> tm_pool (tm_body (C_resume 0) m) = [] \<and> tm_queued m = []) \<and>
   (\<exists>m. reach tm_step (\<lambda>_. True) (tm_init queue backend 2) (m :: ('q, nat) timer_impl, [T_idle, T_idle]) \<and>
      tm_running m = -1 \<and> tm_pool (tm_body (C_resume 0) m) = [])"
proof
  let ?call = "\<lambda>c. [(0, TM_call c), (0, TM_step), (0, TM_step), (0, TM_step)]"
  have "\<exists>m. run tm_step (tm_init queue backend 2) (?call (C_handler 5) @ ?call (C_resume 0) @
      [(0, TM_pool 0)] @ replicate 5 (0, TM_step) @ [(1, TM_tick 0)] @ replicate 4 (1, TM_step) @ replicate 4 (0, TM_step)) =
      Some (m :: ('q, nat) timer_impl, [T_idle, T_idle]) \<and>
      tm_started m = [5] \<and> tm_running m = 1 \<and> tm_pool (tm_body (C_resume 0) m) = [] \<and> tm_queued m = []"
    by (simp add: tm_init_def timer_impl_new_def cancelable_new_def eval_nat_numeral Let_def)
  then show "\<exists>m. reach tm_step (\<lambda>_. True) (tm_init queue backend 2) (m :: ('q, nat) timer_impl, [T_idle, T_idle]) \<and>
      tm_started m = [5] \<and> tm_running m = 1 \<and> tm_pool (tm_body (C_resume 0) m) = [] \<and> tm_queued m = []"
    by (fastforce intro: reach_run simp: list_all_iff)
  have "\<exists>m. run tm_step (tm_init queue backend 2) (?call C_suspend) = Some (m :: ('q, nat) timer_impl, [T_idle, T_idle]) \<and>
      tm_running m = -1 \<and> tm_pool (tm_body (C_resume 0) m) = []"
    by (simp add: tm_init_def timer_impl_new_def eval_nat_numeral Let_def)
  then show "\<exists>m. reach tm_step (\<lambda>_. True) (tm_init queue backend 2) (m :: ('q, nat) timer_impl, [T_idle, T_idle]) \<and>
      tm_running m = -1 \<and> tm_pool (tm_body (C_resume 0) m) = []"
    by (fastforce intro: reach_run simp: list_all_iff)
qed

end
