(* ===== verification/Socket_Notifier.thy ===== *)
theory Socket_Notifier
  imports Ticks
begin

text \<open>
  The socket notifier of the naive backend (\<open>src/naive/naive_socket_notifier.cpp\<close>), compiled for POSIX sockets.

  The members are accessed with \<open>m_CS\<close> held. \<open>sn_pool\<close> holds the operations given to the thread pool and not yet begun, with
  the cookie they captured; \<open>sn_queued\<close>, \<open>sn_done\<close> are as in theory \<open>Timer\<close>; \<open>sn_started\<close> records the calls of the
  handler with their arguments. The result of \<open>select\<close> is chosen by the environment (\<open>SE_select\<close>): it is called with
  one descriptor and returns \<open>-1\<close> on an error, \<open>0\<close> on a timeout, otherwise the number of ready descriptors, which is 1.
  The cookie is unbounded, its overflow is undefined behaviour.
\<close>

section \<open>The model\<close>

definition EBADF :: int where "EBADF = 9"

record ('q, 'h) socket_notifier_impl =
  sn_backend :: backend_type
  sn_CS :: "tid option"
  sn_socket :: socket_t
  sn_type :: notifier_type
  sn_queue :: 'q
  sn_handler :: "'h option"
  sn_resume_counter :: int
  sn_worker_cookie :: int
  sn_cancelable :: cancelable
  sn_pool :: "int list"
  sn_queued :: "('q \<times> tid \<times> 'h option) list"
  sn_done :: "tid set"
  sn_started :: "('h \<times> socket_t \<times> notifier_type) list"

definition socket_notifier_impl_new ::
  "'q \<Rightarrow> socket_t \<Rightarrow> notifier_type \<Rightarrow> backend_type \<Rightarrow> ('q, 'h) socket_notifier_impl" where
  "socket_notifier_impl_new queue socket type backend =
     \<lparr>sn_backend = backend, sn_CS = None, sn_socket = socket, sn_type = type, sn_queue = queue, sn_handler = None,
      sn_resume_counter = 0, sn_worker_cookie = 0, sn_cancelable = cancelable_new, sn_pool = [], sn_queued = [],
      sn_done = {}, sn_started = []\<rparr>"

datatype ('q, 'h) sn_call = N_handler 'h | N_target_queue 'q | N_resume | N_suspend | N_cancel

text \<open>The critical section of each method.\<close>

definition sn_resume :: "('q, 'h) socket_notifier_impl \<Rightarrow> ('q, 'h) socket_notifier_impl" where
  "sn_resume m =
     (if sn_resume_counter m < 0 then m
      else let m = m\<lparr>sn_resume_counter := sn_resume_counter m + 1\<rparr>
           in if sn_resume_counter m \<noteq> 1 then m else m\<lparr>sn_pool := sn_pool m @ [sn_worker_cookie m]\<rparr>)"

definition sn_suspend :: "('q, 'h) socket_notifier_impl \<Rightarrow> ('q, 'h) socket_notifier_impl" where
  "sn_suspend m =
     (if sn_resume_counter m > 0
      then let m = m\<lparr>sn_resume_counter := sn_resume_counter m - 1\<rparr>
           in if sn_resume_counter m = 0 then m\<lparr>sn_worker_cookie := sn_worker_cookie m + 1\<rparr> else m
      else m)"

declare sn_resume_def [simp] sn_suspend_def [simp]

fun sn_body :: "('q, 'h) sn_call \<Rightarrow> ('q, 'h) socket_notifier_impl \<Rightarrow> ('q, 'h) socket_notifier_impl" where
  "sn_body (N_handler op) m = m\<lparr>sn_handler := Some op\<rparr>"
| "sn_body (N_target_queue q) m = m\<lparr>sn_queue := q\<rparr>"
| "sn_body N_resume m = sn_resume m"
| "sn_body N_suspend m = sn_suspend m"
| "sn_body N_cancel m = m\<lparr>sn_resume_counter := -1, sn_worker_cookie := sn_worker_cookie m + 1\<rparr>"

datatype 'h sn_caller = NK_client | NK_handler tid "'h option"

datatype ('q, 'h) sn_pc =
  N_idle
| N_lock "('q, 'h) sn_call" "'h sn_caller"
| N_body "('q, 'h) sn_call" "'h sn_caller"
| N_unlock "('q, 'h) sn_call" "'h sn_caller"
| N_disable can_pc
| N_nested tid "'h option"
| N_null tid
| S_lock int
| S_while int
| S_unlock int
| S_select int
| S_relock int int
| S_test int int
| S_unlock_tick int "'h option" 'q
| S_async int "'h option" 'q
| S_wait int
| S_relock_tick int
| S_end
| NQ_scope tid "'h option" can_pc
| NQ_complete tid

fun sn_return :: "('q, 'h) sn_call \<Rightarrow> 'h sn_caller \<Rightarrow> ('q, 'h) sn_pc" where
  "sn_return N_cancel NK_client = N_disable CP_disable"
| "sn_return N_cancel (NK_handler u h) = N_nested u h"
| "sn_return call NK_client = N_idle"
| "sn_return call (NK_handler u h) = NQ_scope u h CP_body"

fun sn_scope ::
  "tid \<Rightarrow> 'h option \<Rightarrow> can_pc \<Rightarrow> ('q, 'h) socket_notifier_impl \<Rightarrow> (('q, 'h) socket_notifier_impl \<times> ('q, 'h) sn_pc)" where
  "sn_scope u h CP_idle m = (m, NQ_complete u)"
| "sn_scope u (Some op) CP_body m =
     (m\<lparr>sn_started := sn_started m @ [(op, sn_socket m, sn_type m)]\<rparr>, NQ_scope u (Some op) CP_body)"
| "sn_scope u None CP_body m = (m, N_null u)"
| "sn_scope u h cp m = (m, NQ_scope u h cp)"

text \<open>What the loop does with the result of \<open>select\<close>, with the mutex held again.\<close>

definition sn_result :: "int \<Rightarrow> int \<Rightarrow> ('q, 'h) socket_notifier_impl \<Rightarrow> ('q, 'h) sn_pc" where
  "sn_result cookie res m =
     (if cookie \<noteq> sn_worker_cookie m then S_end
      else if EBADF = res then S_end
      else if res = 0 then S_while cookie
      else if res > 0 then S_unlock_tick cookie (sn_handler m) (sn_queue m)
      else S_while cookie)"

fun sn_exec ::
  "tid \<Rightarrow> ('q, 'h) socket_notifier_impl \<Rightarrow> ('q, 'h) sn_pc \<Rightarrow> (('q, 'h) socket_notifier_impl \<times> ('q, 'h) sn_pc) option" where
  "sn_exec t m (N_lock call k) = (if sn_CS m = None then Some (m\<lparr>sn_CS := Some t\<rparr>, N_body call k) else None)"
| "sn_exec t m (N_body call k) = Some (sn_body call m, N_unlock call k)"
| "sn_exec t m (N_unlock call k) = Some (m\<lparr>sn_CS := None\<rparr>, sn_return call k)"
| "sn_exec t m (N_disable cp) =
     (case can_exec (sn_cancelable m) cp of
        None \<Rightarrow> None
      | Some (c, cp') \<Rightarrow> Some (m\<lparr>sn_cancelable := c\<rparr>, if cp' = CP_idle then N_idle else N_disable cp'))"
| "sn_exec t m (N_nested u h) =
     Some (m\<lparr>sn_cancelable := (sn_cancelable m)\<lparr>m_active := active_disabled\<rparr>\<rparr>, NQ_scope u h CP_body)"
| "sn_exec t m (S_lock cookie) = (if sn_CS m = None then Some (m\<lparr>sn_CS := Some t\<rparr>, S_while cookie) else None)"
| "sn_exec t m (S_while cookie) = Some (m, if cookie = sn_worker_cookie m then S_unlock cookie else S_end)"
| "sn_exec t m (S_unlock cookie) = Some (m\<lparr>sn_CS := None\<rparr>, S_select cookie)"
| "sn_exec t m (S_relock cookie res) =
     (if sn_CS m = None then Some (m\<lparr>sn_CS := Some t\<rparr>, S_test cookie res) else None)"
| "sn_exec t m (S_test cookie res) = Some (m, sn_result cookie res m)"
| "sn_exec t m (S_unlock_tick cookie h q) = Some (m\<lparr>sn_CS := None\<rparr>, S_async cookie h q)"
| "sn_exec t m (S_async cookie h q) =
     Some (m\<lparr>sn_queued := sn_queued m @ [(q, t, h)], sn_done := sn_done m - {t}\<rparr>, S_wait cookie)"
| "sn_exec t m (S_wait cookie) = (if t \<in> sn_done m then Some (m, S_relock_tick cookie) else None)"
| "sn_exec t m (S_relock_tick cookie) =
     (if sn_CS m = None then Some (m\<lparr>sn_CS := Some t\<rparr>, S_while cookie) else None)"
| "sn_exec t m S_end = Some (m\<lparr>sn_CS := None\<rparr>, N_idle)"
| "sn_exec t m (NQ_scope u h CP_body) = Some (m, NQ_scope u h CP_leave)"
| "sn_exec t m (NQ_scope u h cp) =
     (case can_exec (sn_cancelable m) cp of
        None \<Rightarrow> None
      | Some (c, cp') \<Rightarrow> Some (sn_scope u h cp' (m\<lparr>sn_cancelable := c\<rparr>)))"
| "sn_exec t m (NQ_complete u) = Some (m\<lparr>sn_done := insert u (sn_done m)\<rparr>, N_idle)"
| "sn_exec t m _ = None"

datatype ('q, 'h) sn_event = SE_call "('q, 'h) sn_call" | SE_pool nat | SE_tick nat | SE_select int | SE_step

fun sn_local ::
  "tid \<Rightarrow> ('q, 'h) sn_event \<Rightarrow> ('q, 'h) socket_notifier_impl \<Rightarrow> ('q, 'h) sn_pc \<Rightarrow>
     (('q, 'h) socket_notifier_impl \<times> ('q, 'h) sn_pc) option" where
  "sn_local t (SE_call call) m pc =
     (case pc of
        N_idle \<Rightarrow> Some (m, N_lock call NK_client)
      | NQ_scope u h CP_body \<Rightarrow> Some (m, N_lock call (NK_handler u h))
      | _ \<Rightarrow> None)"
| "sn_local t (SE_pool k) m pc =
     (if pc = N_idle \<and> k < length (sn_pool m)
      then Some (m\<lparr>sn_pool := take k (sn_pool m) @ drop (Suc k) (sn_pool m)\<rparr>, S_lock (sn_pool m ! k)) else None)"
| "sn_local t (SE_tick k) m pc =
     (if pc = N_idle \<and> k < length (sn_queued m)
      then case sn_queued m ! k of
             (q, u, h) \<Rightarrow> Some (m\<lparr>sn_queued := take k (sn_queued m) @ drop (Suc k) (sn_queued m)\<rparr>, NQ_scope u h CP_enter)
      else None)"
| "sn_local t (SE_select res) m pc = (case pc of S_select cookie \<Rightarrow> Some (m, S_relock cookie res) | _ \<Rightarrow> None)"
| "sn_local t SE_step m pc = sn_exec t m pc"

type_synonym ('q, 'h) sn_sys = "(('q, 'h) socket_notifier_impl, ('q, 'h) sn_pc) sys"

abbreviation sn_step :: "('q, 'h) sn_sys \<Rightarrow> tid \<times> ('q, 'h) sn_event \<Rightarrow> ('q, 'h) sn_sys option" where
  "sn_step \<equiv> sys_step sn_local"

definition sn_init :: "'q \<Rightarrow> socket_t \<Rightarrow> notifier_type \<Rightarrow> backend_type \<Rightarrow> nat \<Rightarrow> ('q, 'h) sn_sys" where
  "sn_init queue socket type backend n = (socket_notifier_impl_new queue socket type backend, replicate n N_idle)"

section \<open>The cancelable of the notifier\<close>

fun sn_can_pc :: "('q, 'h) sn_pc \<Rightarrow> can_pc" where
  "sn_can_pc (N_lock call (NK_handler u h)) = CP_body"
| "sn_can_pc (N_body call (NK_handler u h)) = CP_body"
| "sn_can_pc (N_unlock call (NK_handler u h)) = CP_body"
| "sn_can_pc (N_disable cp) = cp"
| "sn_can_pc (N_nested u h) = CP_nested"
| "sn_can_pc (N_null u) = CP_body"
| "sn_can_pc (NQ_scope u h cp) = cp"
| "sn_can_pc _ = CP_idle"

fun sn_holds :: "('q, 'h) sn_pc \<Rightarrow> bool" where
  "sn_holds (N_body call k) = True"
| "sn_holds (N_unlock call k) = True"
| "sn_holds (S_while cookie) = True"
| "sn_holds (S_unlock cookie) = True"
| "sn_holds (S_test cookie res) = True"
| "sn_holds (S_unlock_tick cookie h q) = True"
| "sn_holds S_end = True"
| "sn_holds _ = False"

fun sn_serves :: "('q, 'h) sn_pc \<Rightarrow> tid option" where
  "sn_serves (N_lock call (NK_handler u h)) = Some u"
| "sn_serves (N_body call (NK_handler u h)) = Some u"
| "sn_serves (N_unlock call (NK_handler u h)) = Some u"
| "sn_serves (N_nested u h) = Some u"
| "sn_serves (NQ_scope u h cp) = Some u"
| "sn_serves (NQ_complete u) = Some u"
| "sn_serves (N_null u) = Some u"
| "sn_serves _ = None"

fun sn_waits :: "('q, 'h) sn_pc \<Rightarrow> bool" where
  "sn_waits (S_wait cookie) = True"
| "sn_waits _ = False"

text \<open>The cookie of a thread inside the loop.\<close>

fun sn_cookie_of :: "('q, 'h) sn_pc \<Rightarrow> int option" where
  "sn_cookie_of (S_lock cookie) = Some cookie"
| "sn_cookie_of (S_while cookie) = Some cookie"
| "sn_cookie_of (S_unlock cookie) = Some cookie"
| "sn_cookie_of (S_select cookie) = Some cookie"
| "sn_cookie_of (S_relock cookie res) = Some cookie"
| "sn_cookie_of (S_test cookie res) = Some cookie"
| "sn_cookie_of (S_unlock_tick cookie h q) = Some cookie"
| "sn_cookie_of (S_async cookie h q) = Some cookie"
| "sn_cookie_of (S_wait cookie) = Some cookie"
| "sn_cookie_of (S_relock_tick cookie) = Some cookie"
| "sn_cookie_of _ = None"

lemma sn_body_rest [simp]:
  "sn_cancelable (sn_body call m) = sn_cancelable m" "sn_CS (sn_body call m) = sn_CS m"
  "sn_done (sn_body call m) = sn_done m" "sn_queued (sn_body call m) = sn_queued m"
  by (cases call; simp add: Let_def)+

lemma sn_scope_rest:
  "sn_cancelable (fst (sn_scope u h cp m)) = sn_cancelable m" "sn_can_pc (snd (sn_scope u h cp m)) = cp"
  "sn_CS (fst (sn_scope u h cp m)) = sn_CS m" "sn_done (fst (sn_scope u h cp m)) = sn_done m"
  "sn_queued (fst (sn_scope u h cp m)) = sn_queued m" "sn_pool (fst (sn_scope u h cp m)) = sn_pool m"
  "sn_resume_counter (fst (sn_scope u h cp m)) = sn_resume_counter m"
  "sn_worker_cookie (fst (sn_scope u h cp m)) = sn_worker_cookie m" "\<not> sn_holds (snd (sn_scope u h cp m))"
  "\<not> sn_waits (snd (sn_scope u h cp m))" "sn_serves (snd (sn_scope u h cp m)) = Some u"
  "sn_cookie_of (snd (sn_scope u h cp m)) = None"
  by (cases "(u, h, cp, m)" rule: sn_scope.cases; simp)+

lemma sn_return_rest [simp]:
  "sn_can_pc (sn_return call k) = (case k of
     NK_client \<Rightarrow> if call = N_cancel then CP_disable else CP_idle
   | NK_handler u h \<Rightarrow> if call = N_cancel then CP_nested else CP_body)"
  "\<not> sn_holds (sn_return call k)" "\<not> sn_waits (sn_return call k)" "sn_cookie_of (sn_return call k) = None"
  "sn_serves (sn_return call k) = (case k of NK_client \<Rightarrow> None | NK_handler u h \<Rightarrow> Some u)"
  by (cases "(call, k)" rule: sn_return.cases; simp)+

lemma sn_result_rest [simp]:
  "sn_can_pc (sn_result cookie res m) = CP_idle" "sn_holds (sn_result cookie res m)"
  "\<not> sn_waits (sn_result cookie res m)" "sn_serves (sn_result cookie res m) = None"
  by (simp_all add: sn_result_def)

abbreviation sn_can_step :: "tid \<Rightarrow> ('q, 'h) socket_notifier_impl \<Rightarrow> ('q, 'h) sn_pc \<Rightarrow> ('q, 'h) socket_notifier_impl \<Rightarrow> ('q, 'h) sn_pc \<Rightarrow> bool" where
  "sn_can_step t m pc m' pc' \<equiv> can_moves t (sn_cancelable m) (sn_can_pc pc) (sn_cancelable m') (sn_can_pc pc')"

lemma sn_scope_cases:
  assumes "sn_exec t m (NQ_scope u h cp) = Some (m', pc')"
  obtains "cp = CP_body" "m' = m" "pc' = NQ_scope u h CP_leave"
  | c cp' where "cp \<noteq> CP_body" "can_exec (sn_cancelable m) cp = Some (c, cp')"
      "m' = fst (sn_scope u h cp' (m\<lparr>sn_cancelable := c\<rparr>))" "pc' = snd (sn_scope u h cp' (m\<lparr>sn_cancelable := c\<rparr>))"
proof (cases "cp = CP_body")
  case True
  then show ?thesis using assms that(1) by simp
next
  case False
  then obtain c cp' where "can_exec (sn_cancelable m) cp = Some (c, cp')"
    "(m', pc') = sn_scope u h cp' (m\<lparr>sn_cancelable := c\<rparr>)"
    using assms by (cases cp) (auto split: option.splits if_splits simp: Let_def)
  then show ?thesis using False that(2) by (metis fst_conv snd_conv)
qed

lemma sn_can_scope:
  assumes "sn_exec t m (NQ_scope u h cp) = Some (m', pc')"
  shows "sn_can_step t m (NQ_scope u h cp) m' pc'"
  using assms
  by (elim sn_scope_cases)
     (auto simp: sn_scope_rest intro: can_moves_event[of _ CE_leave] can_moves_event[of _ CE_step])

lemma sn_can_exec:
  assumes "sn_exec t m pc = Some (m', pc')"
  shows "sn_can_step t m pc m' pc'"
proof (cases pc)
  case (N_unlock call k)
  then show ?thesis using assms
    by (cases k; cases "call = N_cancel") (auto simp: sn_return_rest intro: can_moves_idle can_moves_event[of _ CE_disable])
next
  case (N_disable cp)
  then show ?thesis using assms by (auto split: option.splits intro!: can_moves_event[of _ CE_step])
next
  case (N_nested u h)
  then show ?thesis using assms by (auto intro!: can_moves_event[of _ CE_step])
next
  case (NQ_scope u h cp)
  then show ?thesis using assms sn_can_scope by simp
next
  case (N_lock call k)
  then show ?thesis using assms by (cases k) (auto split: if_splits intro!: can_moves_idle)
next
  case (N_body call k)
  then show ?thesis using assms by (cases k) (auto intro!: can_moves_idle)
qed (use assms in \<open>auto split: if_splits intro!: can_moves_idle\<close>)

lemma sn_can_local:
  assumes "sn_local t e m pc = Some (m', pc')"
  shows "sn_can_step t m pc m' pc'"
proof (cases e)
  case (SE_call call)
  then show ?thesis using assms by (auto split: sn_pc.splits can_pc.splits intro!: can_moves_idle)
next
  case (SE_pool k)
  then show ?thesis using assms by (auto split: if_splits intro!: can_moves_idle)
next
  case (SE_tick k)
  then show ?thesis using assms by (auto split: if_splits prod.splits intro!: can_moves_event[of _ CE_enter])
next
  case (SE_select res)
  then show ?thesis using assms by (auto split: sn_pc.splits intro!: can_moves_idle)
next
  case SE_step
  then show ?thesis using assms by (simp add: sn_can_exec)
qed

interpretation sn_cancel: cancelable_client sn_local sn_cancelable sn_can_pc
  by unfold_locales (rule sn_can_local)

lemma sn_view_init: "sn_cancel.view (sn_init queue socket type backend n) = can_init n"
  by (simp add: sn_cancel.view_def sn_init_def socket_notifier_impl_new_def can_init_def)

section \<open>The mutex and the barrier of a loop\<close>

lemma sn_local_mutex:
  assumes "sn_local t e m pc = Some (m', pc')" and "sn_holds pc \<longleftrightarrow> sn_CS m = Some t"
  shows "(sn_holds pc' \<longleftrightarrow> sn_CS m' = Some t) \<and>
     (sn_CS m' = sn_CS m \<or> sn_CS m = None \<and> sn_CS m' = Some t \<or> sn_CS m = Some t \<and> sn_CS m' = None)"
proof (cases "e = SE_step \<and> (\<exists>u h cp. pc = NQ_scope u h cp)")
  case True
  then obtain u h cp where "sn_exec t m (NQ_scope u h cp) = Some (m', pc')" "pc = NQ_scope u h cp" using assms(1) by auto
  then show ?thesis using assms(2) by (elim sn_scope_cases) (auto simp: sn_scope_rest)
next
  case False
  then show ?thesis
    by (insert assms, cases e; cases pc)
       (auto split: if_splits option.splits prod.splits can_pc.splits)
qed

interpretation sn_mutex: mutex_client sn_local sn_CS sn_holds
  by unfold_locales (rule sn_local_mutex)

abbreviation sn_waiting_loops :: "('q, 'h) socket_notifier_impl \<Rightarrow> tid set" where
  "sn_waiting_loops m \<equiv> (fst \<circ> snd) ` set (sn_queued m)"

lemma sn_tick_rules:
  assumes "sn_local t e m pc = Some (m', pc')"
  shows "sn_waits pc' \<Longrightarrow> sn_waits pc \<and> (t \<in> sn_done m \<longrightarrow> t \<in> sn_done m') \<or> t \<in> sn_waiting_loops m'"
    and "u \<in> sn_waiting_loops m \<Longrightarrow> u \<in> sn_waiting_loops m' \<or> sn_serves pc' = Some u"
    and "sn_serves pc = Some u \<Longrightarrow> sn_serves pc' = Some u \<or> u \<in> sn_done m'"
    and "u \<in> sn_done m \<Longrightarrow> u \<noteq> t \<Longrightarrow> u \<in> sn_done m'"
proof -
  consider (scope) v h cp where "e = SE_step" "pc = NQ_scope v h cp" | (tick) k where "e = SE_tick k"
    | (rest) "e = SE_step" "\<nexists>v h cp. pc = NQ_scope v h cp" | (call) call where "e = SE_call call" | (pool) k where "e = SE_pool k"
    | (sel) res where "e = SE_select res"
    by (cases e) auto
  then have "(sn_waits pc' \<longrightarrow> sn_waits pc \<and> (t \<in> sn_done m \<longrightarrow> t \<in> sn_done m') \<or> t \<in> sn_waiting_loops m') \<and>
      (u \<in> sn_waiting_loops m \<longrightarrow> u \<in> sn_waiting_loops m' \<or> sn_serves pc' = Some u) \<and>
      (sn_serves pc = Some u \<longrightarrow> sn_serves pc' = Some u \<or> u \<in> sn_done m') \<and>
      (u \<in> sn_done m \<longrightarrow> u \<noteq> t \<longrightarrow> u \<in> sn_done m')"
  proof cases
    case scope
    then have "sn_exec t m (NQ_scope v h cp) = Some (m', pc')" using assms by simp
    then show ?thesis using scope by (elim sn_scope_cases) (auto simp: sn_scope_rest)
  next
    case tick
    then obtain q v h where *: "k < length (sn_queued m)" "sn_queued m ! k = (q, v, h)" "pc = N_idle" "pc' = NQ_scope v h CP_enter"
      "m' = m\<lparr>sn_queued := take k (sn_queued m) @ drop (Suc k) (sn_queued m)\<rparr>"
      using assms by (auto split: if_splits prod.splits)
    have "x \<in> set (sn_queued m') \<or> x = (q, v, h)" if "x \<in> set (sn_queued m)" for x
      using remove_nth_set[OF that *(1)] *(2,5) by auto
    then have "u \<in> sn_waiting_loops m' \<or> u = v" if "u \<in> sn_waiting_loops m" using that by force
    then show ?thesis using * by auto
  next
    case rest
    then show ?thesis using assms
      by (cases pc) (auto split: if_splits option.splits sn_caller.splits elim: sn_serves.elims)
  next
    case call
    then show ?thesis using assms by (cases pc) (auto split: can_pc.splits)
  next
    case pool
    then show ?thesis using assms by (auto split: if_splits)
  next
    case sel
    then show ?thesis using assms by (auto split: sn_pc.splits)
  qed
  then show "sn_waits pc' \<Longrightarrow> sn_waits pc \<and> (t \<in> sn_done m \<longrightarrow> t \<in> sn_done m') \<or> t \<in> sn_waiting_loops m'"
    and "u \<in> sn_waiting_loops m \<Longrightarrow> u \<in> sn_waiting_loops m' \<or> sn_serves pc' = Some u"
    and "sn_serves pc = Some u \<Longrightarrow> sn_serves pc' = Some u \<or> u \<in> sn_done m'"
    and "u \<in> sn_done m \<Longrightarrow> u \<noteq> t \<Longrightarrow> u \<in> sn_done m'" by blast+
qed

interpretation sn_ticks: tick_protocol sn_local sn_waiting_loops sn_done sn_waits sn_serves
  by unfold_locales (erule (2) sn_tick_rules | erule (1) sn_tick_rules)+

section \<open>The live loop\<close>

text \<open>
  \<open>sn_weight c\<close> counts the loops with cookie \<open>c\<close>. As long as \<open>select\<close> behaves as documented (\<open>sn_select_ok\<close>), there is
  exactly one loop with the current cookie, in the pool or running, when the counter is positive, and none otherwise; no
  loop has a later cookie.
\<close>

definition sn_weight :: "int \<Rightarrow> ('q, 'h) sn_pc \<Rightarrow> int" where
  "sn_weight c pc = (if sn_cookie_of pc = Some c then 1 else 0)"

definition sn_live :: "('q, 'h) socket_notifier_impl \<Rightarrow> (int \<Rightarrow> int) \<Rightarrow> int \<Rightarrow> int" where
  "sn_live m n c = int (count_list (sn_pool m) c) + n c"

definition sn_cookie_ok :: "('q, 'h) socket_notifier_impl \<Rightarrow> (int \<Rightarrow> int) \<Rightarrow> bool" where
  "sn_cookie_ok m n \<longleftrightarrow>
     sn_live m n (sn_worker_cookie m) = (if 0 < sn_resume_counter m then 1 else 0) \<and>
     (\<forall>c > sn_worker_cookie m. sn_live m n c = 0)"

definition sn_select_ok :: "tid \<times> ('q, 'h) sn_event \<Rightarrow> bool" where
  "sn_select_ok ev \<longleftrightarrow> (\<forall>res. snd ev = SE_select res \<longrightarrow> res \<in> {-1, 0, 1})"

fun sn_res_ok :: "('q, 'h) sn_pc \<Rightarrow> bool" where
  "sn_res_ok (S_relock cookie res) = (res \<in> {-1, 0, 1})"
| "sn_res_ok (S_test cookie res) = (res \<in> {-1, 0, 1})"
| "sn_res_ok _ = True"

lemma sn_scope_res [simp]: "sn_res_ok (snd (sn_scope u h cp m))"
  by (cases "(u, h, cp, m)" rule: sn_scope.cases) auto

lemma sn_return_res [simp]: "sn_res_ok (sn_return call k)"
  by (cases "(call, k)" rule: sn_return.cases) auto

lemma count_list_remove_nth:
  "k < length xs \<Longrightarrow> count_list xs x = count_list (take k xs @ drop (Suc k) xs) x + (if xs ! k = x then 1 else 0)"
proof (induction xs arbitrary: k)
  case (Cons a xs)
  then show ?case by (cases k) auto
qed simp

lemma sn_cookie_body:
  assumes "sn_cookie_ok m n" and "\<And>c. 0 \<le> n c"
  shows "sn_cookie_ok (sn_body call m) n"
  using assms(1) by (cases call) (auto simp: sn_cookie_ok_def sn_live_def Let_def)

lemma sn_cookie_mono:
  assumes "sn_cookie_ok m n" "sn_pool m' = sn_pool m" "sn_worker_cookie m' = sn_worker_cookie m"
    "sn_resume_counter m' = sn_resume_counter m" "\<And>c. sn_worker_cookie m \<le> c \<Longrightarrow> n' c = n c"
  shows "sn_cookie_ok m' n'"
  using assms by (simp add: sn_cookie_ok_def sn_live_def)

lemma sn_cookie_step:
  assumes "sn_local t e m pc = Some (m', pc')" and "sn_select_ok (t, e)" and "\<And>c. 0 \<le> n c"
    and "sn_cookie_ok m (\<lambda>c. n c + sn_weight c pc)" and "sn_res_ok pc"
  shows "sn_cookie_ok m' (\<lambda>c. n c + sn_weight c pc') \<and> sn_res_ok pc'"
proof -
  have le: "c \<le> sn_worker_cookie m" if "sn_cookie_of pc = Some c" for c
  proof (rule ccontr)
    assume "\<not> ?thesis"
    then have "sn_live m (\<lambda>c. n c + sn_weight c pc) c = 0" using assms(4) by (simp add: sn_cookie_ok_def)
    then show False using that assms(3)[of c] by (simp add: sn_live_def sn_weight_def)
  qed
  consider (scope) u h cp where "e = SE_step" "pc = NQ_scope u h cp" | (body) call k where "e = SE_step" "pc = N_body call k"
    | (pool) k where "e = SE_pool k"
    | (rest) "\<not> (e = SE_step \<and> (\<exists>u h cp. pc = NQ_scope u h cp))" "\<not> (e = SE_step \<and> (\<exists>call k. pc = N_body call k))" "\<nexists>k. e = SE_pool k"
    by blast
  then show ?thesis
  proof cases
    case scope
    then have "sn_exec t m (NQ_scope u h cp) = Some (m', pc')" using assms(1) by simp
    then show ?thesis using assms(4) scope
      by (elim sn_scope_cases) (auto simp: sn_scope_rest sn_weight_def intro: sn_cookie_mono)
  next
    case body
    then show ?thesis using assms sn_cookie_body[of m n call] by (auto simp: sn_weight_def)
  next
    case pool
    then have *: "k < length (sn_pool m)" "pc = N_idle" "pc' = S_lock (sn_pool m ! k)"
      "m' = m\<lparr>sn_pool := take k (sn_pool m) @ drop (Suc k) (sn_pool m)\<rparr>"
      using assms(1) by (auto split: if_splits)
    have "sn_live m' (\<lambda>c. n c + sn_weight c pc') c = sn_live m (\<lambda>c. n c + sn_weight c pc) c" for c
      using count_list_remove_nth[OF *(1), of c] * by (simp add: sn_live_def sn_weight_def)
    then show ?thesis using assms(4) * by (simp add: sn_cookie_ok_def)
  next
    case rest
    have m: "sn_pool m' = sn_pool m" "sn_worker_cookie m' = sn_worker_cookie m" "sn_resume_counter m' = sn_resume_counter m"
      using assms(1) rest by (cases e; cases pc; auto split: if_splits option.splits prod.splits can_pc.splits)+
    have "sn_weight c pc' = sn_weight c pc" if "sn_worker_cookie m \<le> c" for c
      using that le assms(1,5) rest
      by (cases e; cases pc) (auto simp: sn_weight_def sn_result_def EBADF_def split: if_splits option.splits prod.splits can_pc.splits)
    moreover have "sn_res_ok pc'"
      using assms(1,2,5) rest
      by (cases e; cases pc) (auto simp: sn_result_def sn_select_ok_def split: if_splits option.splits prod.splits can_pc.splits)
    ultimately show ?thesis using assms(4) m by (auto intro: sn_cookie_mono)
  qed
qed

interpretation sn_loops: counting_system sn_local sn_select_ok sn_weight sn_cookie_ok "\<lambda>m n. sn_res_ok"
proof
  fix k pc show "0 \<le> sn_weight k pc" by (simp add: sn_weight_def)
next
  fix t e m pc m' pc' and n :: "int \<Rightarrow> int"
  assume "sn_local t e m pc = Some (m', pc')" "sn_select_ok (t, e)" "\<And>k. 0 \<le> n k"
    "sn_cookie_ok m (\<lambda>k. n k + sn_weight k pc)" "sn_res_ok pc"
  from sn_cookie_step[OF this]
  show "sn_cookie_ok m' (\<lambda>k. n k + sn_weight k pc') \<and> sn_res_ok pc' \<and>
      (\<forall>p. (\<forall>k. sn_weight k p \<le> n k) \<longrightarrow> sn_res_ok p \<longrightarrow> sn_res_ok p)" by blast
qed

lemma sn_live_card:
  "sn_live m (\<lambda>c. tsum (sn_weight c) ts) c =
     int (count_list (sn_pool m) c) + int (card {t. t < length ts \<and> sn_cookie_of (ts ! t) = Some c})"
  using tsum_indicator[of "\<lambda>pc. sn_cookie_of pc = Some c" ts] by (simp add: sn_live_def sn_weight_def[abs_def])

lemma sn_single_loop:
  assumes "reach sn_step sn_select_ok (sn_init queue socket type backend n) (m, ts)"
  shows "count_list (sn_pool m) (sn_worker_cookie m) +
           card {t. t < length ts \<and> sn_cookie_of (ts ! t) = Some (sn_worker_cookie m)} =
         (if 0 < sn_resume_counter m then 1 else 0)"
proof -
  have "sn_loops.count_inv (sn_init queue socket type backend n :: ('a, 'b) sn_sys)"
    by (auto simp: sn_loops.count_inv_def sn_init_def socket_notifier_impl_new_def sn_cookie_ok_def sn_live_def sn_weight_def)
  from sn_loops.reach_inv[OF assms this]
  have "sn_live m (\<lambda>c. tsum (sn_weight c) ts) (sn_worker_cookie m) = (if 0 < sn_resume_counter m then 1 else 0)"
    by (simp add: sn_loops.count_inv_def sn_cookie_ok_def)
  then have "int (count_list (sn_pool m) (sn_worker_cookie m) +
      card {t. t < length ts \<and> sn_cookie_of (ts ! t) = Some (sn_worker_cookie m)}) = int (if 0 < sn_resume_counter m then 1 else 0)"
    unfolding sn_live_card by (simp only: of_nat_add of_nat_1 of_nat_0 if_distrib[of int])
  then show ?thesis by (simp only: of_nat_eq_iff)
qed

section \<open>A cancelled notifier\<close>

lemma sn_cancelled_body: "sn_resume_counter m < 0 \<Longrightarrow> sn_resume_counter (sn_body call m) < 0"
  by (cases call) (simp_all add: Let_def)

lemma sn_cancelled_local:
  assumes "sn_local t e m pc = Some (m', pc')" and "sn_resume_counter m < 0"
  shows "sn_resume_counter m' < 0"
proof (cases "e = SE_step \<and> (\<exists>u h cp. pc = NQ_scope u h cp)")
  case True
  then obtain u h cp where "sn_exec t m (NQ_scope u h cp) = Some (m', pc')" using assms(1) by auto
  then show ?thesis using assms(2) by (elim sn_scope_cases) (simp_all add: sn_scope_rest)
next
  case False
  then show ?thesis
    by (insert assms, cases e; cases pc)
       (auto simp: sn_cancelled_body split: if_splits option.splits prod.splits can_pc.splits)
qed

interpretation sn_cancelled: step_invariant sn_step ok "\<lambda>s. sn_resume_counter (fst s) < 0" for ok
  by unfold_locales (erule sys_step_Some, auto dest: sn_cancelled_local)

section \<open>Properties\<close>

text \<open>
  C24. A notifier has one live loop while it is resumed and none while it is suspended or cancelled: in every execution in
  which \<open>select\<close> returns -1, 0 or 1, the operations in the pool and the threads in the loop that carry the current cookie
  are exactly one when the resume counter is positive and none otherwise. Loops of earlier cookies end without calling the handler.
\<close>

theorem notifier_single_loop:
  assumes "reach sn_step sn_select_ok (sn_init queue socket type backend n) (m, ts)"
  shows "count_list (sn_pool m) (sn_worker_cookie m) +
           card {t. t < length ts \<and> sn_cookie_of (ts ! t) = Some (sn_worker_cookie m)} =
         (if 0 < sn_resume_counter m then 1 else 0)"
  by (rule sn_single_loop[OF assms])

abbreviation sn_new :: "(nat, nat) socket_notifier_impl" where
  "sn_new \<equiv> socket_notifier_impl_new 0 7 READ Backend_naive"

definition sn_demo :: "(nat, nat) sn_sys" where
  "sn_demo = (sn_new\<lparr>sn_resume_counter := 1, sn_worker_cookie := 1, sn_pool := [1]\<rparr>, [N_idle, S_select 0])"

lemma sn_demo_reach: "reach sn_step sn_select_ok (sn_init 0 7 READ Backend_naive 2) (fst sn_demo, snd sn_demo)"
  by (rule reach_run[where es = "[(0, SE_call N_resume), (0, SE_step), (0, SE_step), (0, SE_step), (1, SE_pool 0), (1, SE_step),
        (1, SE_step), (1, SE_step), (0, SE_call N_suspend), (0, SE_step), (0, SE_step), (0, SE_step),
        (0, SE_call N_resume), (0, SE_step), (0, SE_step), (0, SE_step)]"])
     (simp_all add: sn_demo_def sn_init_def socket_notifier_impl_new_def eval_nat_numeral Let_def sn_select_ok_def)

theorem notifier_single_loop_witness:
  "count_list (sn_pool (fst sn_demo)) 1 + card {t. t < length (snd sn_demo) \<and> sn_cookie_of (snd sn_demo ! t) = Some 1} = 1"
  using notifier_single_loop[OF sn_demo_reach] by (simp add: sn_demo_def socket_notifier_impl_new_def)

text \<open>
  The calls of a notifier's handler never overlap, and after the first \<open>cancel\<close> from outside the handler has returned, the
  handler is not running and is never called again.
\<close>

theorem notifier_cancel_is_final:
  assumes "reach sn_step (\<lambda>_. True) (sn_init queue socket type backend n) s"
    and "t < length (snd s)" and "snd s ! t = N_disable (CP_dret a)" and "a \<noteq> active_disabled"
    and "reach sn_step (\<lambda>_. True) s s'"
  shows "card {t. t < length (snd s) \<and> can_inside (sn_can_pc (snd s ! t))} \<le> 1 \<and>
         (\<forall>pc \<in> set (snd s'). \<not> can_inside (sn_can_pc pc))"
  using sn_cancel.client_disable_final[OF assms(1) sn_view_init assms(2) _ assms(4,5)] assms(3)
    sn_cancel.client_exclusive[OF assms(1) sn_view_init] by simp

definition sn_demo_cancelled :: "(nat, nat) sn_sys" where
  "sn_demo_cancelled =
     (sn_new\<lparr>sn_resume_counter := -1, sn_worker_cookie := 1, sn_cancelable := \<lparr>m_active = active_disabled, can_barrier = False\<rparr>\<rparr>,
      [N_disable (CP_dret active_enabled), N_idle])"

lemma sn_demo_cancelled_reach: "reach sn_step (\<lambda>_. True) (sn_init 0 7 READ Backend_naive 2) sn_demo_cancelled"
  by (rule reach_run[where es = "[(0, SE_call N_cancel), (0, SE_step), (0, SE_step), (0, SE_step), (0, SE_step)]"])
     (simp_all add: sn_demo_cancelled_def sn_init_def socket_notifier_impl_new_def cancelable_new_def eval_nat_numeral Let_def)

theorem notifier_cancel_is_final_witness: "\<not> can_inside (sn_can_pc (snd sn_demo_cancelled ! 1))"
proof -
  have "\<forall>pc \<in> set (snd sn_demo_cancelled). \<not> can_inside (sn_can_pc pc)"
    by (rule notifier_cancel_is_final[OF sn_demo_cancelled_reach _ _ _ reach_refl, of 0 active_enabled, THEN conjunct2])
       (simp_all add: sn_demo_cancelled_def)
  then show ?thesis by (rule bspec) (simp add: sn_demo_cancelled_def)
qed

text \<open>
  A cancelled notifier stays cancelled: whatever is called afterwards, its counter stays negative and no loop carries
  the current cookie.
\<close>

theorem notifier_cancelled_forever:
  assumes "reach sn_step sn_select_ok (sn_init queue socket type backend n) s"
    and "sn_resume_counter (fst s) < 0" and "reach sn_step sn_select_ok s (m, ts)"
  shows "sn_resume_counter m < 0 \<and> sn_worker_cookie m \<notin> set (sn_pool m) \<and>
         (\<forall>pc \<in> set ts. sn_cookie_of pc \<noteq> Some (sn_worker_cookie m))"
proof -
  have neg: "sn_resume_counter m < 0" using sn_cancelled.reach_inv[OF assms(3,2)] by simp
  have z: "count_list (sn_pool m) (sn_worker_cookie m) = 0"
    "card {t. t < length ts \<and> sn_cookie_of (ts ! t) = Some (sn_worker_cookie m)} = 0"
    using sn_single_loop[OF reach_trans[OF assms(3,1)]] neg by auto
  from z(2) have "{t. t < length ts \<and> sn_cookie_of (ts ! t) = Some (sn_worker_cookie m)} = {}" by simp
  then show ?thesis using neg z(1) by (auto simp: count_list_0_iff in_set_conv_nth)
qed

theorem notifier_cancelled_forever_witness: "sn_resume_counter (fst sn_demo_cancelled) < 0"
proof -
  let ?es = "[(0, SE_call N_cancel), (0, SE_step), (0, SE_step), (0, SE_step), (0, SE_step)]"
  have "reach sn_step sn_select_ok (sn_init 0 7 READ Backend_naive 2) sn_demo_cancelled"
    by (rule reach_run[where es = ?es])
       (simp_all add: sn_demo_cancelled_def sn_init_def socket_notifier_impl_new_def cancelable_new_def eval_nat_numeral Let_def sn_select_ok_def)
  from notifier_cancelled_forever[OF this, of "fst sn_demo_cancelled" "snd sn_demo_cancelled"]
  show ?thesis by (simp add: sn_demo_cancelled_def)
qed

text \<open>
  A loop that waits for its barrier is never stranded: the barrier is complete, or its operation is on the
  target queue, or a thread is executing it.
\<close>

theorem notifier_loop_not_stranded:
  assumes "reach sn_step (\<lambda>_. True) (sn_init queue socket type backend n) (m, ts)"
    and "t < length ts" and "ts ! t = S_wait cookie"
  shows "sn_step (m, ts) (t, SE_step) \<noteq> None \<or> (\<exists>q h. (q, t, h) \<in> set (sn_queued m)) \<or>
         (\<exists>u < length ts. sn_serves (ts ! u) = Some t)"
proof -
  have "sn_ticks.tick_inv (sn_init queue socket type backend n :: ('a, 'b) sn_sys)"
    unfolding sn_ticks.tick_inv_def by (simp add: sn_init_def)
  from sn_ticks.reach_inv[OF assms(1) this] have "sn_ticks.attended (m, ts) t"
    using assms(2,3) unfolding sn_ticks.tick_inv_def by simp
  then show ?thesis
    unfolding sn_ticks.attended_def sys_step_enabled using assms(2,3) by force
qed

text \<open>
  A closed socket is never noticed. \<open>select\<close> reports it by returning -1, which the loop compares with \<open>EBADF\<close>: with the
  mutex free the loop is back at \<open>select\<close> after five steps of its own, for every result that \<open>select\<close> can have on an error
  or a timeout, and so it runs until the notifier is suspended or cancelled.
\<close>

theorem notifier_ignores_closed_socket:
  assumes "sn_CS m = None" and "res \<in> {-1, 0}"
  shows "sn_local t (SE_select res) m (S_select (sn_worker_cookie m)) = Some (m, S_relock (sn_worker_cookie m) res) \<and>
         solo (sn_exec t) 4 (m, S_relock (sn_worker_cookie m) res) = Some (m, S_select (sn_worker_cookie m))"
  using assms by (auto simp: eval_nat_numeral sn_result_def EBADF_def)

theorem notifier_ignores_closed_socket_witness:
  "solo (sn_exec 0) 4 (sn_new, S_relock 0 (-1)) = Some (sn_new, S_select 0)"
  using notifier_ignores_closed_socket[of sn_new "-1" 0] by (simp add: socket_notifier_impl_new_def)

end
