(* ===== verification/Signals.thy ===== *)
theory Signals
  imports Cancelable
begin

text \<open>
  Signals (\<open>include/xdispatch/signals.h\<close>, \<open>src/signals.cpp\<close>): \<open>connect\<close>, the emitting call operator, the invocation of a
  handler on its queue, \<open>disconnect\<close> and \<open>skip_all\<close>.

  A handler is a natural number; \<open>sg_state\<close> holds its \<open>connection_handler\<close>. \<open>m_handlers\<close> is accessed with \<open>m_CS\<close> held, a
  handler's \<open>m_pending\<close> and \<open>m_active\<close> without. \<open>sg_queued h\<close> are the arguments of the invocations of \<open>h\<close> on its
  queue. A serial queue begins them in order and one at a time, a parallel queue begins any of them at any moment
  (\<open>ch_serial\<close> tells which kind of queue the handler has); with a group the invocation takes the same way through the queue.
  \<open>m_pending\<close> is an integer without a bound, since it counts invocations that exist. The rest of the state is the history: \<open>sg_emits h\<close> the invocations that were queued, \<open>sg_current h\<close> those begun and not yet
  called or refused, \<open>sg_calls h\<close> the calls of the function, \<open>sg_dropped h\<close> the refused invocations.

  A handler may call \<open>disconnect\<close>, for itself or for another connection. A handler that emits the same signal again is not
  modelled, and the signal is not destroyed here (theory \<open>Connection\<close> has its destructor). The weak pointer of a connection may have expired only if the handler is not in \<open>m_handlers\<close> any more.
\<close>

section \<open>The model\<close>

record connection_handler =
  ch_active :: cancelable
  ch_pending :: int
  ch_mode :: notification_mode
  ch_serial :: bool

definition connection_handler_new :: "bool \<Rightarrow> notification_mode \<Rightarrow> connection_handler" where
  "connection_handler_new serial m = \<lparr>ch_active = cancelable_new, ch_pending = 0, ch_mode = m, ch_serial = serial\<rparr>"

record 'a signal_p =
  sg_CS :: "tid option"
  sg_handlers :: "nat list"
  sg_state :: "nat \<Rightarrow> connection_handler"
  sg_used :: "nat set"
  sg_queued :: "nat \<Rightarrow> 'a list"
  sg_busy :: "nat \<Rightarrow> bool"
  sg_emits :: "nat \<Rightarrow> 'a list"
  sg_current :: "nat \<Rightarrow> 'a list"
  sg_calls :: "nat \<Rightarrow> 'a list"
  sg_dropped :: "nat \<Rightarrow> 'a list"

definition signal_p_new :: "(nat \<Rightarrow> bool) \<Rightarrow> (nat \<Rightarrow> notification_mode) \<Rightarrow> 'a signal_p" where
  "signal_p_new serial mode =
     \<lparr>sg_CS = None, sg_handlers = [], sg_state = (\<lambda>h. connection_handler_new (serial h) (mode h)), sg_used = {},
      sg_queued = (\<lambda>_. []), sg_busy = (\<lambda>_. False), sg_emits = (\<lambda>_. []), sg_current = (\<lambda>_. []), sg_calls = (\<lambda>_. []),
      sg_dropped = (\<lambda>_. [])\<rparr>"

text \<open>
  The caller of \<open>disconnect\<close>: a client or a handler on its queue. A synchronous handler that calls it runs inside an emit, with
  \<open>m_CS\<close> held by its own thread; \<open>std::mutex\<close> is not recursive, the thread ends in \<open>GD_relock\<close>.
\<close>

datatype 'a sg_caller = SK_client | SK_queue nat 'a

datatype 'a sg_pc =
  G_idle
| GC_lock nat
| GC_push nat
| GC_unlock
| GE_lock 'a
| GE_for 'a "nat list"
| GE_mode 'a nat "nat list" int
| GE_scope 'a nat "nat list" can_pc
| GE_body 'a nat "nat list"
| GE_run 'a nat "nat list"
| GE_queue 'a nat "nat list"
| GE_dec 'a nat "nat list"
| GE_unlock
| GQ_scope nat 'a can_pc
| GQ_body nat 'a
| GQ_run nat 'a
| GQ_end nat
| GD_relock nat 'a nat "nat list"
| GD_lock nat "'a sg_caller"
| GD_erase nat "'a sg_caller"
| GD_unlock nat "'a sg_caller"
| GD_can nat can_pc "'a sg_caller"
| GD_nested nat "'a sg_caller"
| GS_lock
| GS_for "nat list"
| GS_can nat can_pc "nat list"
| GS_unlock

datatype 'a sg_event = SG_connect nat | SG_emit 'a | SG_disconnect nat bool | SG_skip_all | SG_begin nat nat | SG_step

definition sg_upd :: "nat \<Rightarrow> (connection_handler \<Rightarrow> connection_handler) \<Rightarrow> 'a signal_p \<Rightarrow> 'a signal_p" where
  "sg_upd h f m = m\<lparr>sg_state := (sg_state m)(h := f (sg_state m h))\<rparr>"

abbreviation sg_set_active :: "nat \<Rightarrow> cancelable \<Rightarrow> 'a signal_p \<Rightarrow> 'a signal_p" where
  "sg_set_active h c \<equiv> sg_upd h (\<lambda>s. s\<lparr>ch_active := c\<rparr>)"

abbreviation sg_add_pending :: "nat \<Rightarrow> int \<Rightarrow> 'a signal_p \<Rightarrow> 'a signal_p" where
  "sg_add_pending h i \<equiv> sg_upd h (\<lambda>s. s\<lparr>ch_pending := ch_pending s + i\<rparr>)"

text \<open>The call of the handler's function inside the guarded scope: \<open>m_pending--\<close>, then the function.\<close>

definition sg_call :: "nat \<Rightarrow> 'a \<Rightarrow> 'a signal_p \<Rightarrow> 'a signal_p" where
  "sg_call h a m =
     (sg_add_pending h (-1) m)\<lparr>sg_calls := (sg_calls m)(h := sg_calls m h @ [a]),
                               sg_current := (sg_current m)(h := remove1 a (sg_current m h))\<rparr>"

definition sg_drop :: "nat \<Rightarrow> 'a \<Rightarrow> 'a signal_p \<Rightarrow> 'a signal_p" where
  "sg_drop h a m =
     m\<lparr>sg_dropped := (sg_dropped m)(h := sg_dropped m h @ [a]), sg_current := (sg_current m)(h := remove1 a (sg_current m h))\<rparr>"

definition sg_enqueue :: "nat \<Rightarrow> 'a \<Rightarrow> 'a signal_p \<Rightarrow> 'a signal_p" where
  "sg_enqueue h a m =
     m\<lparr>sg_queued := (sg_queued m)(h := sg_queued m h @ [a]), sg_emits := (sg_emits m)(h := sg_emits m h @ [a])\<rparr>"

definition sg_begin :: "nat \<Rightarrow> nat \<Rightarrow> 'a signal_p \<Rightarrow> 'a signal_p" where
  "sg_begin h k m =
     m\<lparr>sg_queued := (sg_queued m)(h := take k (sg_queued m h) @ drop (Suc k) (sg_queued m h)),
       sg_busy := (sg_busy m)(h := True), sg_current := (sg_current m)(h := sg_current m h @ [sg_queued m h ! k])\<rparr>"

fun sg_handler_of :: "'a sg_caller \<Rightarrow> nat option" where
  "sg_handler_of SK_client = None"
| "sg_handler_of (SK_queue h a) = Some h"

fun sg_return :: "'a sg_caller \<Rightarrow> 'a sg_pc" where
  "sg_return SK_client = G_idle"
| "sg_return (SK_queue h a) = GQ_run h a"

definition sg_sync_next :: "'a \<Rightarrow> nat \<Rightarrow> nat list \<Rightarrow> can_pc \<Rightarrow> 'a sg_pc" where
  "sg_sync_next a h hs cp = (if cp = CP_idle then GE_for a hs else if cp = CP_body then GE_body a h hs else GE_scope a h hs cp)"

definition sg_queue_next :: "nat \<Rightarrow> 'a \<Rightarrow> can_pc \<Rightarrow> 'a sg_pc" where
  "sg_queue_next h a cp = (if cp = CP_idle then GQ_end h else if cp = CP_body then GQ_body h a else GQ_scope h a cp)"

definition sg_mode_next :: "connection_handler \<Rightarrow> 'a \<Rightarrow> nat \<Rightarrow> nat list \<Rightarrow> int \<Rightarrow> 'a sg_pc" where
  "sg_mode_next s a h hs pending =
     (if ch_mode s = synchronous_update then GE_scope a h hs CP_enter
      else if ch_mode s = single_updates \<or> pending < 1 then GE_queue a h hs
      else GE_dec a h hs)"

text \<open>
  A step of the handler's \<open>cancelable\<close>. \<open>disconnect\<close> continues with \<open>GD_nested\<close>, the recursion branch of \<open>disable\<close>, exactly if it
  is called by the handler itself.
\<close>

definition sg_can_exec ::
  "nat \<Rightarrow> can_pc \<Rightarrow> 'a signal_p \<Rightarrow> (can_pc \<Rightarrow> 'a signal_p \<Rightarrow> 'a signal_p \<times> 'a sg_pc) \<Rightarrow> ('a signal_p \<times> 'a sg_pc) option" where
  "sg_can_exec h cp m k =
     (case can_exec (ch_active (sg_state m h)) cp of
        None \<Rightarrow> None
      | Some (c, cp') \<Rightarrow> Some (k cp' (sg_set_active h c m)))"

fun sg_exec :: "tid \<Rightarrow> 'a signal_p \<Rightarrow> 'a sg_pc \<Rightarrow> ('a signal_p \<times> 'a sg_pc) option" where
  "sg_exec t m (GC_lock h) = (if sg_CS m = None then Some (m\<lparr>sg_CS := Some t\<rparr>, GC_push h) else None)"
| "sg_exec t m (GC_push h) = Some (m\<lparr>sg_handlers := sg_handlers m @ [h]\<rparr>, GC_unlock)"
| "sg_exec t m GC_unlock = Some (m\<lparr>sg_CS := None\<rparr>, G_idle)"
| "sg_exec t m (GE_lock a) = (if sg_CS m = None then Some (m\<lparr>sg_CS := Some t\<rparr>, GE_for a (sg_handlers m)) else None)"
| "sg_exec t m (GE_for a hs) =
     (case hs of
        [] \<Rightarrow> Some (m, GE_unlock)
      | h # hs \<Rightarrow> Some (sg_add_pending h 1 m, GE_mode a h hs (ch_pending (sg_state m h))))"
| "sg_exec t m (GE_mode a h hs pending) = Some (m, sg_mode_next (sg_state m h) a h hs pending)"
| "sg_exec t m (GE_scope a h hs cp) = sg_can_exec h cp m (\<lambda>cp' m'. (m', sg_sync_next a h hs cp'))"
| "sg_exec t m (GE_body a h hs) = Some (sg_call h a m, GE_run a h hs)"
| "sg_exec t m (GE_run a h hs) = Some (m, GE_scope a h hs CP_leave)"
| "sg_exec t m (GE_queue a h hs) = Some (sg_enqueue h a m, GE_for a hs)"
| "sg_exec t m (GE_dec a h hs) = Some (sg_add_pending h (-1) m, GE_for a hs)"
| "sg_exec t m GE_unlock = Some (m\<lparr>sg_CS := None\<rparr>, G_idle)"
| "sg_exec t m (GQ_scope h a cp) =
     sg_can_exec h cp m (\<lambda>cp' m'. (if cp' = CP_refused then sg_drop h a m' else m', sg_queue_next h a cp'))"
| "sg_exec t m (GQ_body h a) = Some (sg_call h a m, GQ_run h a)"
| "sg_exec t m (GQ_run h a) = Some (m, GQ_scope h a CP_leave)"
| "sg_exec t m (GQ_end h) = Some (m\<lparr>sg_busy := (sg_busy m)(h := False)\<rparr>, G_idle)"
| "sg_exec t m (GD_relock h a g hs) = None"
| "sg_exec t m (GD_lock h k) = (if sg_CS m = None then Some (m\<lparr>sg_CS := Some t\<rparr>, GD_erase h k) else None)"
| "sg_exec t m (GD_erase h k) = Some (m\<lparr>sg_handlers := removeAll h (sg_handlers m)\<rparr>, GD_unlock h k)"
| "sg_exec t m (GD_unlock h k) =
     Some (m\<lparr>sg_CS := None\<rparr>, if sg_handler_of k = Some h then GD_nested h k else GD_can h CP_disable k)"
| "sg_exec t m (GD_can h cp k) =
     (if sg_handler_of k = Some h then None
      else sg_can_exec h cp m (\<lambda>cp' m'. (m', if cp' = CP_idle then sg_return k else GD_can h cp' k)))"
| "sg_exec t m (GD_nested h k) =
     (if sg_handler_of k = Some h
      then Some (sg_set_active h ((ch_active (sg_state m h))\<lparr>m_active := active_disabled\<rparr>) m, sg_return k) else None)"
| "sg_exec t m GS_lock = (if sg_CS m = None then Some (m\<lparr>sg_CS := Some t\<rparr>, GS_for (sg_handlers m)) else None)"
| "sg_exec t m (GS_for hs) = (case hs of [] \<Rightarrow> Some (m, GS_unlock) | h # hs \<Rightarrow> Some (m, GS_can h CP_disable hs))"
| "sg_exec t m (GS_can h cp hs) =
     sg_can_exec h cp m (\<lambda>cp' m'. (m', if cp' = CP_idle then GS_for hs else GS_can h cp' hs))"
| "sg_exec t m GS_unlock = Some (m\<lparr>sg_CS := None\<rparr>, G_idle)"
| "sg_exec t m G_idle = None"

text \<open>Where \<open>disconnect\<close> can be called, and the control state in which it locks \<open>m_CS\<close>.\<close>

fun sg_disconnect :: "nat \<Rightarrow> 'a sg_pc \<Rightarrow> 'a sg_pc option" where
  "sg_disconnect h G_idle = Some (GD_lock h SK_client)"
| "sg_disconnect h (GQ_run g a) = Some (GD_lock h (SK_queue g a))"
| "sg_disconnect h (GE_run a g hs) = Some (GD_relock h a g hs)"
| "sg_disconnect h _ = None"

text \<open>
  \<open>SG_disconnect h alive\<close>: \<open>disconnect\<close> with a connection to \<open>h\<close>, whose weak pointer could be locked or had expired.
  \<open>SG_begin h k\<close>: the queue of \<open>h\<close> begins its \<open>k\<close>-th invocation.
\<close>

fun sg_local :: "tid \<Rightarrow> 'a sg_event \<Rightarrow> 'a signal_p \<Rightarrow> 'a sg_pc \<Rightarrow> ('a signal_p \<times> 'a sg_pc) option" where
  "sg_local t (SG_connect h) m pc =
     (if pc = G_idle \<and> h \<notin> sg_used m then Some (m\<lparr>sg_used := insert h (sg_used m)\<rparr>, GC_lock h) else None)"
| "sg_local t (SG_emit a) m pc = (if pc = G_idle then Some (m, GE_lock a) else None)"
| "sg_local t (SG_disconnect h alive) m pc =
     (case sg_disconnect h pc of
        None \<Rightarrow> None
      | Some pc' \<Rightarrow>
          if h \<in> sg_used m \<and> (h \<in> set (sg_handlers m) \<longrightarrow> alive)
          then Some (m, if alive then pc' else pc) else None)"
| "sg_local t SG_skip_all m pc = (if pc = G_idle then Some (m, GS_lock) else None)"
| "sg_local t (SG_begin h k) m pc =
     (if pc = G_idle \<and> k < length (sg_queued m h) \<and> (ch_serial (sg_state m h) \<longrightarrow> k = 0 \<and> \<not> sg_busy m h)
      then Some (sg_begin h k m, GQ_scope h (sg_queued m h ! k) CP_enter) else None)"
| "sg_local t SG_step m pc = sg_exec t m pc"

type_synonym 'a sg_sys = "('a signal_p, 'a sg_pc) sys"

abbreviation sg_step :: "'a sg_sys \<Rightarrow> tid \<times> 'a sg_event \<Rightarrow> 'a sg_sys option" where
  "sg_step \<equiv> sys_step sg_local"

definition sg_init :: "(nat \<Rightarrow> bool) \<Rightarrow> (nat \<Rightarrow> notification_mode) \<Rightarrow> nat \<Rightarrow> 'a sg_sys" where
  "sg_init serial mode n = (signal_p_new serial mode, replicate n G_idle)"

section \<open>The cancelable of a handler\<close>

definition sg_caller_pc :: "nat \<Rightarrow> 'a sg_caller \<Rightarrow> can_pc" where
  "sg_caller_pc h k = (if sg_handler_of k = Some h then CP_body else CP_idle)"

fun sg_can_pc :: "nat \<Rightarrow> 'a sg_pc \<Rightarrow> can_pc" where
  "sg_can_pc h (GE_scope a g hs cp) = (if g = h then cp else CP_idle)"
| "sg_can_pc h (GE_body a g hs) = (if g = h then CP_body else CP_idle)"
| "sg_can_pc h (GE_run a g hs) = (if g = h then CP_body else CP_idle)"
| "sg_can_pc h (GQ_scope g a cp) = (if g = h then cp else CP_idle)"
| "sg_can_pc h (GQ_body g a) = (if g = h then CP_body else CP_idle)"
| "sg_can_pc h (GQ_run g a) = (if g = h then CP_body else CP_idle)"
| "sg_can_pc h (GD_relock g a g' hs) = (if g' = h then CP_body else CP_idle)"
| "sg_can_pc h (GD_lock g k) = sg_caller_pc h k"
| "sg_can_pc h (GD_erase g k) = sg_caller_pc h k"
| "sg_can_pc h (GD_unlock g k) = sg_caller_pc h k"
| "sg_can_pc h (GD_can g cp k) = (if g = h then cp else sg_caller_pc h k)"
| "sg_can_pc h (GD_nested g k) = (if g = h then CP_nested else sg_caller_pc h k)"
| "sg_can_pc h (GS_can g cp hs) = (if g = h then cp else CP_idle)"
| "sg_can_pc h _ = CP_idle"

lemma sg_upd_simps [simp]:
  "sg_CS (sg_upd h f m) = sg_CS m" "sg_handlers (sg_upd h f m) = sg_handlers m" "sg_used (sg_upd h f m) = sg_used m"
  "sg_queued (sg_upd h f m) = sg_queued m" "sg_busy (sg_upd h f m) = sg_busy m" "sg_emits (sg_upd h f m) = sg_emits m"
  "sg_current (sg_upd h f m) = sg_current m" "sg_calls (sg_upd h f m) = sg_calls m" "sg_dropped (sg_upd h f m) = sg_dropped m"
  "sg_state (sg_upd h f m) g = (if g = h then f (sg_state m h) else sg_state m g)"
  by (simp_all add: sg_upd_def)

lemma sg_next_can [simp]:
  "sg_can_pc h (sg_return k) = sg_caller_pc h k"
  "sg_can_pc h (sg_sync_next a g hs cp) = (if g = h then cp else CP_idle)"
  "sg_can_pc h (sg_queue_next g a cp) = (if g = h then cp else CP_idle)"
  "sg_can_pc h (sg_mode_next s a g hs p) = (if g = h \<and> ch_mode s = synchronous_update then CP_enter else CP_idle)"
  by (cases k; simp add: sg_caller_pc_def sg_sync_next_def sg_queue_next_def sg_mode_next_def)+


lemma sg_can_exec_cases:
  assumes "sg_can_exec h cp m k = Some (m', pc')"
  obtains c cp' where "can_exec (ch_active (sg_state m h)) cp = Some (c, cp')" "(m', pc') = k cp' (sg_set_active h c m)"
  using assms by (auto simp: sg_can_exec_def split: option.splits)

lemma sg_history_simps [simp]:
  "sg_state (sg_drop h a m) = sg_state m" "sg_state (sg_enqueue h a m) = sg_state m" "sg_state (sg_begin h k m) = sg_state m"
  "sg_CS (sg_drop h a m) = sg_CS m" "sg_CS (sg_enqueue h a m) = sg_CS m" "sg_CS (sg_begin h k m) = sg_CS m"
  "sg_CS (sg_call h a m) = sg_CS m"
  "sg_state (sg_call h a m) = sg_state (sg_add_pending h (-1) m)"
  by (simp_all add: sg_drop_def sg_enqueue_def sg_begin_def sg_call_def)

abbreviation sg_can_step :: "nat \<Rightarrow> tid \<Rightarrow> 'a signal_p \<Rightarrow> 'a sg_pc \<Rightarrow> 'a signal_p \<Rightarrow> 'a sg_pc \<Rightarrow> bool" where
  "sg_can_step h t m pc m' pc' \<equiv>
     can_moves t (ch_active (sg_state m h)) (sg_can_pc h pc) (ch_active (sg_state m' h)) (sg_can_pc h pc')"

lemma sg_can_moves_scope:
  assumes "can_exec (ch_active (sg_state m g)) cp = Some (c, cp')"
    and "ch_active (sg_state m' h) = (if g = h then c else ch_active (sg_state m h))"
    and "sg_can_pc h pc = (if g = h then cp else x)" and "sg_can_pc h pc' = (if g = h then cp' else x)"
  shows "sg_can_step h t m pc m' pc'"
  using assms by (cases "g = h") (auto intro: can_moves_idle can_moves_event[of _ CE_step])

lemma sg_can_exec_view:
  assumes "sg_exec t m pc = Some (m', pc')"
  shows "sg_can_step h t m pc m' pc'"
proof (cases pc)
  case (GE_scope a g hs cp)
  then obtain c cp' where "can_exec (ch_active (sg_state m g)) cp = Some (c, cp')"
    "m' = sg_set_active g c m" "pc' = sg_sync_next a g hs cp'"
    using assms by (auto elim!: sg_can_exec_cases)
  then show ?thesis using GE_scope by (intro sg_can_moves_scope[where g = g and cp = cp and x = CP_idle]) auto
next
  case (GQ_scope g a cp)
  then obtain c cp' where "can_exec (ch_active (sg_state m g)) cp = Some (c, cp')"
    "sg_state m' = sg_state (sg_set_active g c m)" "pc' = sg_queue_next g a cp'"
    using assms by (auto elim!: sg_can_exec_cases split: if_splits)
  then show ?thesis using GQ_scope by (intro sg_can_moves_scope[where g = g and cp = cp and x = CP_idle]) auto
next
  case (GD_can g cp k)
  then obtain c cp' where *: "can_exec (ch_active (sg_state m g)) cp = Some (c, cp')" "sg_handler_of k \<noteq> Some g"
    "m' = sg_set_active g c m" "pc' = (if cp' = CP_idle then sg_return k else GD_can g cp' k)"
    using assms by (auto elim!: sg_can_exec_cases split: if_splits)
  then show ?thesis using GD_can
    by (intro sg_can_moves_scope[where g = g and cp = cp and cp' = cp' and x = "sg_caller_pc h k"]) (auto simp: sg_caller_pc_def)
next
  case (GS_can g cp hs)
  then obtain c cp' where "can_exec (ch_active (sg_state m g)) cp = Some (c, cp')"
    "m' = sg_set_active g c m" "pc' = (if cp' = CP_idle then GS_for hs else GS_can g cp' hs)"
    using assms by (auto elim!: sg_can_exec_cases)
  then show ?thesis using GS_can
    by (intro sg_can_moves_scope[where g = g and cp = cp and cp' = cp' and x = CP_idle]) auto
next
  case (GD_nested g k)
  then have "sg_handler_of k = Some g" "m' = sg_set_active g ((ch_active (sg_state m g))\<lparr>m_active := active_disabled\<rparr>) m" "pc' = sg_return k"
    using assms by (auto split: if_splits)
  then show ?thesis using GD_nested
    by (intro sg_can_moves_scope[where g = g and cp = CP_nested and cp' = CP_body and x = "sg_caller_pc h k"]) (auto simp: sg_caller_pc_def)
next
  case (GD_unlock g k)
  then show ?thesis using assms
    by (auto simp: sg_caller_pc_def intro: can_moves_idle can_moves_event[of _ CE_disable] split: if_splits)
next
  case (GE_mode a g hs p)
  then show ?thesis using assms by (auto intro: can_moves_idle can_moves_event[of _ CE_enter])
next
  case (GE_run a g hs)
  then show ?thesis using assms by (auto intro: can_moves_idle can_moves_event[of _ CE_leave])
next
  case (GQ_run g a)
  then show ?thesis using assms by (auto intro: can_moves_idle can_moves_event[of _ CE_leave])
next
  case (GS_for hs)
  then show ?thesis using assms by (auto intro: can_moves_idle can_moves_event[of _ CE_disable] split: list.splits)
qed (use assms in \<open>auto split: if_splits list.splits intro!: can_moves_idle\<close>)

lemma sg_disconnect_can: "sg_disconnect g pc = Some pc' \<Longrightarrow> sg_can_pc h pc' = sg_can_pc h pc"
  by (cases pc) (auto simp: sg_caller_pc_def)

lemma sg_can_local:
  assumes "sg_local t e m pc = Some (m', pc')"
  shows "sg_can_step h t m pc m' pc'"
proof (cases e)
  case (SG_disconnect g alive)
  then show ?thesis using assms
    by (auto split: option.splits if_splits dest: sg_disconnect_can[of _ _ _ h] intro!: can_moves_idle)
next
  case (SG_begin g k)
  then show ?thesis using assms
    by (auto split: if_splits intro: can_moves_idle can_moves_event[of _ CE_enter])
next
  case SG_step
  then show ?thesis using assms by (simp add: sg_can_exec_view)
qed (use assms in \<open>auto split: if_splits intro!: can_moves_idle\<close>)

interpretation sg_cancel: cancelable_client sg_local "\<lambda>m. ch_active (sg_state m h)" "sg_can_pc h" for h
  by unfold_locales (rule sg_can_local)

lemma sg_view_init: "sg_cancel.view h (sg_init serial mode n) = can_init n"
  by (simp add: sg_cancel.view_def sg_init_def signal_p_new_def connection_handler_new_def can_init_def)

section \<open>Delivery on a serial queue\<close>

text \<open>
  The handler \<open>h\<close> is on a serial queue, not synchronous, and neither disconnected nor skipped. Disjoint regions of a thread: an
  emit between \<open>m_pending++\<close> and its decision; an invocation that has begun and not entered the guarded scope; one that has entered
  and not called the function; one inside the scope otherwise; one that has left it.
\<close>

datatype sg_region = RG_open | RG_enter | RG_body | RG_inside | RG_left

fun sg_open :: "nat \<Rightarrow> 'a sg_pc \<Rightarrow> bool" where
  "sg_open h (GE_mode a g hs p) = (g = h)"
| "sg_open h (GE_queue a g hs) = (g = h)"
| "sg_open h (GE_dec a g hs) = (g = h)"
| "sg_open h _ = False"

fun sg_enter :: "nat \<Rightarrow> 'a sg_pc \<Rightarrow> bool" where
  "sg_enter h (GQ_scope g a cp) = (g = h \<and> cp = CP_enter)"
| "sg_enter h _ = False"

fun sg_body :: "nat \<Rightarrow> 'a sg_pc \<Rightarrow> bool" where
  "sg_body h (GQ_body g a) = (g = h)"
| "sg_body h _ = False"

fun sg_serving :: "nat \<Rightarrow> 'a sg_pc \<Rightarrow> bool" where
  "sg_serving h (GQ_scope g a cp) = (g = h)"
| "sg_serving h (GQ_body g a) = (g = h)"
| "sg_serving h (GQ_run g a) = (g = h)"
| "sg_serving h (GQ_end g) = (g = h)"
| "sg_serving h (GD_lock g k) = (sg_handler_of k = Some h)"
| "sg_serving h (GD_erase g k) = (sg_handler_of k = Some h)"
| "sg_serving h (GD_unlock g k) = (sg_handler_of k = Some h)"
| "sg_serving h (GD_can g cp k) = (sg_handler_of k = Some h)"
| "sg_serving h _ = False"

fun sg_in :: "nat \<Rightarrow> sg_region \<Rightarrow> 'a sg_pc \<Rightarrow> bool" where
  "sg_in h RG_open pc = sg_open h pc"
| "sg_in h RG_enter pc = sg_enter h pc"
| "sg_in h RG_body pc = sg_body h pc"
| "sg_in h RG_inside pc = (can_inside (sg_can_pc h pc) \<and> \<not> sg_body h pc)"
| "sg_in h RG_left pc = (sg_serving h pc \<and> \<not> sg_enter h pc \<and> \<not> can_inside (sg_can_pc h pc))"

definition sg_weight :: "nat \<Rightarrow> sg_region \<Rightarrow> 'a sg_pc \<Rightarrow> int" where
  "sg_weight h r pc = (if sg_in h r pc then 1 else 0)"

fun sg_pc_ok :: "nat \<Rightarrow> 'a signal_p \<Rightarrow> 'a sg_pc \<Rightarrow> bool" where
  "sg_pc_ok h m (GE_scope a g hs cp) = (g \<noteq> h)"
| "sg_pc_ok h m (GE_body a g hs) = (g \<noteq> h)"
| "sg_pc_ok h m (GE_run a g hs) = (g \<noteq> h)"
| "sg_pc_ok h m (GQ_scope g a cp) = (g = h \<longrightarrow> cp = CP_enter \<and> sg_current m h = [a] \<or> cp = CP_leave)"
| "sg_pc_ok h m (GQ_body g a) = (g = h \<longrightarrow> sg_current m h = [a])"
| "sg_pc_ok h m (GD_relock g a g' hs) = (g \<noteq> h \<and> g' \<noteq> h)"
| "sg_pc_ok h m (GD_lock g k) = (g \<noteq> h)"
| "sg_pc_ok h m (GD_erase g k) = (g \<noteq> h)"
| "sg_pc_ok h m (GD_unlock g k) = (g \<noteq> h)"
| "sg_pc_ok h m (GD_can g cp k) = (g \<noteq> h)"
| "sg_pc_ok h m (GD_nested g k) = (g \<noteq> h)"
| "sg_pc_ok h m GS_lock = False"
| "sg_pc_ok h m (GS_for hs) = False"
| "sg_pc_ok h m (GS_can g cp hs) = False"
| "sg_pc_ok h m GS_unlock = False"
| "sg_pc_ok h m _ = True"

definition sg_sh_ok :: "nat \<Rightarrow> 'a signal_p \<Rightarrow> (sg_region \<Rightarrow> int) \<Rightarrow> bool" where
  "sg_sh_ok h m n \<longleftrightarrow>
     ch_mode (sg_state m h) \<noteq> synchronous_update \<and> ch_serial (sg_state m h) \<and>
     n RG_enter + n RG_body + n RG_inside + n RG_left = (if sg_busy m h then 1 else 0) \<and>
     m_active (ch_active (sg_state m h)) = (if n RG_body + n RG_inside = 0 then active_enabled else active_running) \<and>
     int (length (sg_current m h)) = n RG_enter + n RG_body \<and>
     ch_pending (sg_state m h) = n RG_open + int (length (sg_queued m h)) + n RG_enter + n RG_body \<and>
     sg_emits m h = sg_calls m h @ sg_current m h @ sg_queued m h \<and> sg_dropped m h = []"

text \<open>The handler is not disconnected and the signal is not skipped.\<close>

definition sg_keeps :: "nat \<Rightarrow> tid \<times> 'a sg_event \<Rightarrow> bool" where
  "sg_keeps h ev \<longleftrightarrow> snd ev \<noteq> SG_skip_all \<and> (\<forall>alive. snd ev \<noteq> SG_disconnect h alive)"

text \<open>What a step that does not concern \<open>h\<close> keeps.\<close>

definition sg_same :: "nat \<Rightarrow> 'a signal_p \<Rightarrow> 'a signal_p \<Rightarrow> bool" where
  "sg_same h m m' \<longleftrightarrow>
     sg_state m' h = sg_state m h \<and> sg_queued m' h = sg_queued m h \<and> sg_busy m' h = sg_busy m h \<and>
     sg_emits m' h = sg_emits m h \<and> sg_current m' h = sg_current m h \<and> sg_calls m' h = sg_calls m h \<and>
     sg_dropped m' h = sg_dropped m h"

lemma sg_same_refl [simp]: "sg_same h m m"
  by (simp add: sg_same_def)

lemma sg_same_simps [simp]:
  "sg_same h m (m\<lparr>sg_CS := x\<rparr>)" "sg_same h m (m\<lparr>sg_handlers := hs\<rparr>)" "sg_same h m (m\<lparr>sg_used := us\<rparr>)"
  "g \<noteq> h \<Longrightarrow> sg_same h m (sg_upd g f m)" "g \<noteq> h \<Longrightarrow> sg_same h m (sg_call g a m)" "g \<noteq> h \<Longrightarrow> sg_same h m (sg_enqueue g a m)"
  "g \<noteq> h \<Longrightarrow> sg_same h m (sg_begin g k m)" "g \<noteq> h \<Longrightarrow> sg_same h m (sg_drop g a (sg_upd g f m))"
  "g \<noteq> h \<Longrightarrow> sg_same h m (m\<lparr>sg_busy := (sg_busy m)(g := b)\<rparr>)"
  by (simp_all add: sg_same_def sg_call_def sg_enqueue_def sg_begin_def sg_drop_def)

lemma sg_same_pc_ok: "sg_same h m m' \<Longrightarrow> sg_pc_ok h m' pc = sg_pc_ok h m pc"
  by (cases pc) (simp_all add: sg_same_def)

lemma sg_same_sh_ok: "sg_same h m m' \<Longrightarrow> sg_sh_ok h m' n = sg_sh_ok h m n"
  by (simp add: sg_same_def sg_sh_ok_def)

lemma all_sg_region: "(\<forall>r. P r) \<longleftrightarrow> P RG_open \<and> P RG_enter \<and> P RG_body \<and> P RG_inside \<and> P RG_left"
  by (metis sg_region.exhaust)

text \<open>A step concerns \<open>h\<close> if it is one of an emit at \<open>h\<close> or of an invocation of \<open>h\<close>.\<close>

fun sg_step_concerns :: "nat \<Rightarrow> 'a sg_pc \<Rightarrow> bool" where
  "sg_step_concerns h (GE_for a hs) = (hs \<noteq> [] \<and> hd hs = h)"
| "sg_step_concerns h (GE_mode a g hs p) = (g = h)"
| "sg_step_concerns h (GE_queue a g hs) = (g = h)"
| "sg_step_concerns h (GE_dec a g hs) = (g = h)"
| "sg_step_concerns h (GQ_scope g a cp) = (g = h)"
| "sg_step_concerns h (GQ_body g a) = (g = h)"
| "sg_step_concerns h (GQ_run g a) = (g = h)"
| "sg_step_concerns h (GQ_end g) = (g = h)"
| "sg_step_concerns h _ = False"

definition sg_concerns :: "nat \<Rightarrow> 'a sg_event \<Rightarrow> 'a sg_pc \<Rightarrow> bool" where
  "sg_concerns h e pc \<longleftrightarrow> e = SG_step \<and> sg_step_concerns h pc \<or> (\<exists>k. e = SG_begin h k)"

lemma sg_return_in [simp]:
  "sg_open h (sg_return k) = False" "sg_enter h (sg_return k) = False" "sg_body h (sg_return k) = False"
  "sg_pc_ok h m (sg_return k)" "sg_serving h (sg_return k) = (sg_handler_of k = Some h)"
  by (cases k; simp)+

lemma sg_next_in [simp]:
  assumes "g \<noteq> h"
  shows "sg_open h (sg_sync_next a g hs cp) = False" "sg_enter h (sg_sync_next a g hs cp) = False"
    "sg_body h (sg_sync_next a g hs cp) = False" "sg_serving h (sg_sync_next a g hs cp) = False" "sg_pc_ok h m (sg_sync_next a g hs cp)"
    "sg_open h (sg_queue_next g a cp) = False" "sg_enter h (sg_queue_next g a cp) = False" "sg_body h (sg_queue_next g a cp) = False"
    "sg_serving h (sg_queue_next g a cp) = False" "sg_pc_ok h m (sg_queue_next g a cp)"
    "sg_open h (sg_mode_next s a g hs p) = False" "sg_enter h (sg_mode_next s a g hs p) = False"
    "sg_body h (sg_mode_next s a g hs p) = False" "sg_serving h (sg_mode_next s a g hs p) = False" "sg_pc_ok h m (sg_mode_next s a g hs p)"
  using assms by (simp_all add: sg_sync_next_def sg_queue_next_def sg_mode_next_def)

definition sg_frame :: "nat \<Rightarrow> 'a signal_p \<Rightarrow> 'a sg_pc \<Rightarrow> 'a signal_p \<Rightarrow> 'a sg_pc \<Rightarrow> bool" where
  "sg_frame h m pc m' pc' \<longleftrightarrow> sg_same h m m' \<and> (\<forall>r. sg_in h r pc' = sg_in h r pc) \<and> sg_pc_ok h m' pc'"

lemma sg_frame_exec:
  assumes "sg_exec t m pc = Some (m', pc')" and "\<not> sg_step_concerns h pc" and "sg_pc_ok h m pc"
  shows "sg_frame h m pc m' pc'"
  by (insert assms, cases pc)
     (auto simp: sg_frame_def all_sg_region sg_caller_pc_def split: if_splits list.splits elim!: sg_can_exec_cases)

lemma sg_frame_local:
  assumes "sg_local t e m pc = Some (m', pc')" and "\<not> sg_concerns h e pc" and "sg_pc_ok h m pc" and "sg_keeps h (t, e)"
  shows "sg_frame h m pc m' pc'"
proof (cases "e = SG_step")
  case True
  then show ?thesis using assms sg_frame_exec[of t m pc m' pc' h] by (simp add: sg_concerns_def)
next
  case False
  then show ?thesis
    by (insert assms, cases e; cases pc)
       (auto simp: sg_frame_def all_sg_region sg_caller_pc_def sg_keeps_def sg_concerns_def split: if_splits)
qed

text \<open>The steps that concern \<open>h\<close>; \<open>n\<close> counts the other threads.\<close>

definition sg_good :: "nat \<Rightarrow> (sg_region \<Rightarrow> int) \<Rightarrow> 'a signal_p \<Rightarrow> 'a sg_pc \<Rightarrow> bool" where
  "sg_good h n m pc \<longleftrightarrow> sg_sh_ok h m (\<lambda>r. n r + sg_weight h r pc) \<and> sg_pc_ok h m pc"

lemmas sg_good_defs = sg_good_def sg_sh_ok_def sg_weight_def

lemma sg_good_serving:
  assumes "sg_good h n m pc" and "\<And>r. 0 \<le> n r" and "sg_enter h pc \<or> sg_body h pc \<or> can_inside (sg_can_pc h pc) \<or> sg_serving h pc"
  shows "sg_busy m h" "n RG_enter = 0" "n RG_body = 0" "n RG_inside = 0" "n RG_left = 0"
proof -
  have "1 \<le> sg_weight h RG_enter pc + sg_weight h RG_body pc + sg_weight h RG_inside pc + sg_weight h RG_left pc"
    using assms(3) by (auto simp: sg_weight_def)
  moreover have "(n RG_enter + n RG_body + n RG_inside + n RG_left) +
      (sg_weight h RG_enter pc + sg_weight h RG_body pc + sg_weight h RG_inside pc + sg_weight h RG_left pc) =
      (if sg_busy m h then 1 else 0)"
    using assms(1) by (auto simp: sg_good_def sg_sh_ok_def)
  ultimately show "sg_busy m h" "n RG_enter = 0" "n RG_body = 0" "n RG_inside = 0" "n RG_left = 0"
    using assms(2)[of RG_enter] assms(2)[of RG_body] assms(2)[of RG_inside] assms(2)[of RG_left]
    by (auto split: if_splits)
qed

lemma sg_good_scope:
  assumes "sg_good h n m (GQ_scope h a cp)" and "\<And>r. 0 \<le> n r"
    and "sg_exec t m (GQ_scope h a cp) = Some (m', pc')"
  shows "sg_good h n m' pc'"
proof -
  obtain c cp' where *: "can_exec (ch_active (sg_state m h)) cp = Some (c, cp')"
    "m' = (if cp' = CP_refused then sg_drop h a (sg_set_active h c m) else sg_set_active h c m)" "pc' = sg_queue_next h a cp'"
    using assms(3) by (auto elim!: sg_can_exec_cases)
  have ok: "cp = CP_enter \<and> sg_current m h = [a] \<or> cp = CP_leave" using assms(1) by (simp add: sg_good_def)
  note b = sg_good_serving[OF assms(1,2), simplified]
  show ?thesis using ok
  proof
    assume cp: "cp = CP_enter \<and> sg_current m h = [a]"
    then have "m_active (ch_active (sg_state m h)) = active_enabled" using assms(1) b by (simp add: sg_good_defs)
    then have "m' = sg_set_active h ((ch_active (sg_state m h))\<lparr>m_active := active_running\<rparr>) m" "pc' = GQ_body h a"
      using * cp by (auto simp: sg_queue_next_def)
    then show ?thesis using assms(1) b cp by (simp add: sg_good_defs)
  next
    assume cp: "cp = CP_leave"
    then have "m_active (ch_active (sg_state m h)) = active_running" using assms(1) b by (simp add: sg_good_defs)
    then have "m' = sg_set_active h ((ch_active (sg_state m h))\<lparr>m_active := active_enabled\<rparr>) m" "pc' = GQ_end h"
      using * cp by (auto simp: sg_queue_next_def)
    then show ?thesis using assms(1) b cp by (simp add: sg_good_defs)
  qed
qed

lemma sg_idle_in [simp]: "sg_in h r G_idle = False"
  by (cases r) auto

lemma sg_good_begin:
  assumes "sg_good h n m G_idle" and "sg_queued m h = a # q" and "\<not> sg_busy m h" and "\<And>r. 0 \<le> n r"
  shows "sg_good h n (sg_begin h 0 m) (GQ_scope h a CP_enter)"
proof -
  have "n RG_enter + n RG_body + n RG_inside + n RG_left = 0" using assms(1,3) by (simp add: sg_good_defs)
  then have "n RG_enter = 0" "n RG_body = 0" "n RG_inside = 0" "n RG_left = 0"
    using assms(4)[of RG_enter] assms(4)[of RG_body] assms(4)[of RG_inside] assms(4)[of RG_left] by auto
  then show ?thesis using assms(1-3) by (simp add: sg_good_defs sg_begin_def)
qed

lemma sg_good_body:
  assumes "sg_good h n m (GQ_body h a)" and "\<And>r. 0 \<le> n r"
  shows "sg_good h n (sg_call h a m) (GQ_run h a)"
proof -
  note b = sg_good_serving[OF assms, simplified]
  then show ?thesis using assms(1) by (simp add: sg_good_defs sg_call_def)
qed

lemma sg_good_emit:
  assumes "sg_good h n m (GE_for a (h # hs))"
  shows "sg_good h n (sg_add_pending h 1 m) (GE_mode a h hs p)"
  using assms by (simp add: sg_good_defs)

lemma sg_good_step:
  assumes "sg_local t e m pc = Some (m', pc')" and "sg_concerns h e pc" and "sg_good h n m pc" and n: "\<And>r. 0 \<le> n r"
  shows "sg_good h n m' pc'"
proof (cases "\<exists>k. e = SG_begin h k")
  case True
  then obtain k where e: "e = SG_begin h k" by blast
  have "ch_serial (sg_state m h)" using assms(3) by (simp add: sg_good_defs)
  then obtain a q where "sg_queued m h = a # q" "k = 0" "pc = G_idle" "\<not> sg_busy m h"
    "m' = sg_begin h 0 m" "pc' = GQ_scope h a CP_enter"
    using assms(1) e by (cases "sg_queued m h") (auto split: if_splits)
  then show ?thesis using sg_good_begin assms(3) n by metis
next
  case False
  then have *: "sg_exec t m pc = Some (m', pc')" "sg_step_concerns h pc" using assms(1,2) by (auto simp: sg_concerns_def)
  show ?thesis
  proof (cases pc)
    case (GQ_scope g a cp)
    then show ?thesis using * sg_good_scope[OF _ n] assms(3) by fastforce
  next
    case (GQ_body g a)
    then show ?thesis using * sg_good_body[OF _ n] assms(3) by fastforce
  next
    case (GE_for a hs)
    then show ?thesis using * assms(3) sg_good_emit by (cases hs) auto
  next
    case (GE_mode a g hs p)
    then have d: "pc' = GE_queue a h hs \<or> pc' = GE_dec a h hs" and eq: "m' = m" "g = h"
      using * assms(3) by (simp_all add: sg_good_defs sg_mode_next_def split: if_splits)
    have "sg_weight h r (GE_queue a h hs) = sg_weight h r (GE_mode a h hs p)"
      "sg_weight h r (GE_dec a h hs) = sg_weight h r (GE_mode a h hs p)" for r
      by (cases r; simp add: sg_weight_def)+
    then show ?thesis using d assms(3) unfolding eq GE_mode sg_good_def by auto
  next
    case (GE_queue a g hs)
    then have eq: "g = h" "m' = sg_enqueue h a m" "pc' = GE_for a hs" using * by auto
    show ?thesis using assms(3) unfolding GE_queue eq by (simp add: sg_good_defs sg_enqueue_def)
  next
    case (GE_dec a g hs)
    then have eq: "g = h" "m' = sg_add_pending h (-1) m" "pc' = GE_for a hs" using * by auto
    show ?thesis using assms(3) unfolding GE_dec eq by (simp add: sg_good_defs)
  next
    case (GQ_run g a)
    then have eq: "g = h" "m' = m" "pc' = GQ_scope h a CP_leave" using * by auto
    show ?thesis using assms(3) unfolding GQ_run eq by (simp add: sg_good_defs)
  next
    case (GQ_end g)
    then have "n RG_enter = 0" "n RG_body = 0" "n RG_inside = 0" "n RG_left = 0"
      using sg_good_serving[OF assms(3) n] *(2) by auto
    then show ?thesis using GQ_end * assms(3) by (auto simp: sg_good_defs)
  qed (use * in auto)
qed

lemma sg_pc_ok_other:
  assumes "sg_local t e m pc = Some (m', pc')" and "sg_concerns h e pc" and "sg_good h n m pc" and "\<And>r. 0 \<le> n r"
    and "\<forall>r. sg_weight h r p \<le> n r" and "sg_pc_ok h m p"
  shows "sg_pc_ok h m' p"
proof (cases "sg_enter h p \<or> sg_body h p")
  case False
  then show ?thesis using assms(6) by (cases p) auto
next
  case True
  then have "1 \<le> n RG_enter + n RG_body"
    using assms(5)[rule_format, of RG_enter] assms(5)[rule_format, of RG_body] assms(4)[of RG_enter] assms(4)[of RG_body]
    by (auto simp: sg_weight_def)
  then have no: "\<not> (sg_enter h pc \<or> sg_body h pc \<or> can_inside (sg_can_pc h pc) \<or> sg_serving h pc)"
    using sg_good_serving[OF assms(3,4)] by auto
  moreover have busy: "sg_busy m h"
    using assms(3) assms(4)[of RG_inside] assms(4)[of RG_left] \<open>1 \<le> n RG_enter + n RG_body\<close> no by (auto simp: sg_good_defs split: if_splits)
  ultimately have "sg_current m' h = sg_current m h"
    using assms(1,2,3) by (cases e; cases pc) (auto simp: sg_concerns_def sg_good_defs sg_enqueue_def split: if_splits list.splits)
  then show ?thesis using assms(6) True by (cases p) auto
qed

lemma sg_local_good:
  assumes "sg_local t e m pc = Some (m', pc')" and "sg_keeps h (t, e)" and "\<And>r. 0 \<le> n r" and "sg_good h n m pc"
  shows "sg_good h n m' pc' \<and> (\<forall>p. (\<forall>r. sg_weight h r p \<le> n r) \<longrightarrow> sg_pc_ok h m p \<longrightarrow> sg_pc_ok h m' p)"
proof (cases "sg_concerns h e pc")
  case True
  then show ?thesis using sg_good_step[OF assms(1) _ assms(4,3)] sg_pc_ok_other[OF assms(1) _ assms(4,3)] by blast
next
  case False
  then have f: "sg_frame h m pc m' pc'" using sg_frame_local[OF assms(1)] assms(2,4) by (simp add: sg_good_def)
  then have "sg_weight h r pc' = sg_weight h r pc" for r by (simp add: sg_frame_def sg_weight_def)
  then show ?thesis using f assms(4) by (auto simp: sg_frame_def sg_good_def sg_same_sh_ok sg_same_pc_ok)
qed

interpretation sg_delivery: counting_system sg_local "sg_keeps h" "sg_weight h" "sg_sh_ok h" "\<lambda>m n. sg_pc_ok h m" for h
proof
  fix r pc show "0 \<le> sg_weight h r pc" by (simp add: sg_weight_def)
next
  fix t e m pc m' pc' and n :: "sg_region \<Rightarrow> int"
  assume "sg_local t e m pc = Some (m', pc')" "sg_keeps h (t, e)" "\<And>k. 0 \<le> n k"
    "sg_sh_ok h m (\<lambda>k. n k + sg_weight h k pc)" "sg_pc_ok h m pc"
  from sg_local_good[OF this(1-3)] this(4,5)
  show "sg_sh_ok h m' (\<lambda>k. n k + sg_weight h k pc') \<and> sg_pc_ok h m' pc' \<and>
      (\<forall>p. (\<forall>k. sg_weight h k p \<le> n k) \<longrightarrow> sg_pc_ok h m p \<longrightarrow> sg_pc_ok h m' p)" by (simp add: sg_good_def)
qed

lemma sg_reach_ok:
  assumes "reach sg_step (sg_keeps h) (sg_init serial mode n) (m, ts)" and "serial h" and "mode h \<noteq> synchronous_update"
  shows "sg_sh_ok h m (\<lambda>r. tsum (sg_weight h r) ts)"
proof -
  have "sg_weight h r (G_idle :: 'a sg_pc) = 0" for r by (simp add: sg_weight_def)
  then have "sg_delivery.count_inv h (sg_init serial mode n :: 'a sg_sys)"
    using assms(2,3)
    by (auto simp: sg_delivery.count_inv_def sg_init_def signal_p_new_def connection_handler_new_def cancelable_new_def sg_sh_ok_def)
  from sg_delivery.reach_inv[OF assms(1) this] show ?thesis by (simp add: sg_delivery.count_inv_def)
qed

section \<open>The mutex\<close>

fun sg_holds :: "'a sg_pc \<Rightarrow> bool" where
  "sg_holds (GC_push h) = True"
| "sg_holds GC_unlock = True"
| "sg_holds (GE_for a hs) = True"
| "sg_holds (GE_mode a h hs p) = True"
| "sg_holds (GE_scope a h hs cp) = True"
| "sg_holds (GE_body a h hs) = True"
| "sg_holds (GE_run a h hs) = True"
| "sg_holds (GE_queue a h hs) = True"
| "sg_holds (GE_dec a h hs) = True"
| "sg_holds GE_unlock = True"
| "sg_holds (GD_relock h a g hs) = True"
| "sg_holds (GD_erase h k) = True"
| "sg_holds (GD_unlock h k) = True"
| "sg_holds (GS_for hs) = True"
| "sg_holds (GS_can h cp hs) = True"
| "sg_holds GS_unlock = True"
| "sg_holds _ = False"

lemma sg_next_holds [simp]:
  "\<not> sg_holds (sg_return k)" "sg_holds (sg_sync_next a h hs cp)" "\<not> sg_holds (sg_queue_next h a cp)"
  "sg_holds (sg_mode_next s a h hs p)"
  by (cases k; simp add: sg_sync_next_def sg_queue_next_def sg_mode_next_def)+

lemma sg_mutex_exec:
  assumes "sg_exec t m pc = Some (m', pc')" and "sg_holds pc \<longleftrightarrow> sg_CS m = Some t"
  shows "(sg_holds pc' \<longleftrightarrow> sg_CS m' = Some t) \<and>
     (sg_CS m' = sg_CS m \<or> sg_CS m = None \<and> sg_CS m' = Some t \<or> sg_CS m = Some t \<and> sg_CS m' = None)"
  by (insert assms, cases pc) (auto split: if_splits list.splits elim!: sg_can_exec_cases)

lemma sg_mutex_local:
  assumes "sg_local t e m pc = Some (m', pc')" and "sg_holds pc \<longleftrightarrow> sg_CS m = Some t"
  shows "(sg_holds pc' \<longleftrightarrow> sg_CS m' = Some t) \<and>
     (sg_CS m' = sg_CS m \<or> sg_CS m = None \<and> sg_CS m' = Some t \<or> sg_CS m = Some t \<and> sg_CS m' = None)"
proof (cases "e = SG_step")
  case True
  then show ?thesis using assms sg_mutex_exec[of t m pc m' pc'] by simp
next
  case False
  then show ?thesis by (insert assms, cases e; cases pc) (auto split: if_splits)
qed

interpretation sg_mutex: mutex_client sg_local sg_CS sg_holds
  by unfold_locales (rule sg_mutex_local)

lemma sg_reach_mutex: "reach sg_step ok (sg_init serial mode n) s \<Longrightarrow> sg_mutex.owner_inv s"
  by (erule sg_mutex.owner_inv_reach) (simp add: sg_mutex.owner_inv_def sg_init_def signal_p_new_def)

section \<open>Properties\<close>

definition sg_in_handler :: "nat \<Rightarrow> 'a sg_pc \<Rightarrow> bool" where
  "sg_in_handler h pc \<longleftrightarrow> can_inside (sg_can_pc h pc)"

abbreviation sg_call_op :: "tid \<Rightarrow> 'a sg_event \<Rightarrow> nat \<Rightarrow> (tid \<times> 'a sg_event) list" where
  "sg_call_op t e k \<equiv> (t, e) # replicate k (t, SG_step)"

lemmas sg_demo_defs = sg_init_def signal_p_new_def connection_handler_new_def cancelable_new_def eval_nat_numeral
  sg_upd_def sg_call_def sg_drop_def sg_enqueue_def sg_begin_def sg_sync_next_def sg_queue_next_def sg_mode_next_def sg_can_exec_def
  sg_keeps_def

text \<open>
  C13. In every reachable state at most one thread executes the function of a handler, in whatever mode and on whatever queue. And
  \<open>disconnect\<close> is final: when the first \<open>disconnect\<close> of a handler from outside of it has returned, the function is not being
  executed and is never called again, whatever invocations are still queued.
\<close>

theorem signal_disconnect_is_final:
  assumes "reach sg_step (\<lambda>_. True) (sg_init serial mode n) s"
  shows "card {t. t < length (snd s) \<and> sg_in_handler h (snd s ! t)} \<le> 1 \<and>
     (\<forall>t a k s'. t < length (snd s) \<and> snd s ! t = GD_can h (CP_dret a) k \<and> a \<noteq> active_disabled \<and> reach sg_step (\<lambda>_. True) s s' \<longrightarrow>
        (\<forall>pc \<in> set (snd s'). \<not> sg_in_handler h pc))"
proof (intro conjI allI impI)
  show "card {t. t < length (snd s) \<and> sg_in_handler h (snd s ! t)} \<le> 1"
    using sg_cancel.client_exclusive[OF assms sg_view_init, of h] by (simp add: sg_in_handler_def)
next
  fix t a k s'
  assume "t < length (snd s) \<and> snd s ! t = GD_can h (CP_dret a) k \<and> a \<noteq> active_disabled \<and> reach sg_step (\<lambda>_. True) s s'"
  then show "\<forall>pc \<in> set (snd s'). \<not> sg_in_handler h pc"
    using sg_cancel.client_disable_final[OF assms sg_view_init, of t h a s'] by (simp add: sg_in_handler_def)
qed

abbreviation sg_demo_events :: "(tid \<times> nat sg_event) list" where
  "sg_demo_events \<equiv> sg_call_op 0 (SG_connect 3) 3 @ sg_call_op 0 (SG_emit 8) 6 @ sg_call_op 0 (SG_disconnect 3 True) 4"

lemma sg_demo_reach:
  "\<exists>m. reach sg_step (\<lambda>_. True) (sg_init (\<lambda>_. True) (\<lambda>_. single_updates) 2)
     (m :: nat signal_p, [GD_can 3 (CP_dret active_enabled) SK_client, G_idle]) \<and> sg_queued m 3 = [8]"
proof -
  have "\<exists>m. run sg_step (sg_init (\<lambda>_. True) (\<lambda>_. single_updates) 2) sg_demo_events =
      Some (m :: nat signal_p, [GD_can 3 (CP_dret active_enabled) SK_client, G_idle]) \<and> sg_queued m 3 = [8]"
    by (simp add: sg_demo_defs)
  then show ?thesis by (fastforce intro: reach_run simp: list_all_iff)
qed

theorem signal_disconnect_is_final_witness:
  "\<exists>m :: nat signal_p. \<not> sg_in_handler 3 (([GD_can 3 (CP_dret active_enabled) SK_client, G_idle] :: nat sg_pc list) ! 1) \<and> sg_queued m 3 = [8]"
proof -
  obtain m :: "nat signal_p" where m: "reach sg_step (\<lambda>_. True) (sg_init (\<lambda>_. True) (\<lambda>_. single_updates) 2)
     (m, [GD_can 3 (CP_dret active_enabled) SK_client, G_idle])" "sg_queued m 3 = [8]"
    using sg_demo_reach by blast
  have "\<forall>pc \<in> set [GD_can 3 (CP_dret active_enabled) SK_client, G_idle :: nat sg_pc]. \<not> sg_in_handler 3 pc"
    using signal_disconnect_is_final[OF m(1), of 3, THEN conjunct2, rule_format,
        of 0 active_enabled SK_client "(m, [GD_can 3 (CP_dret active_enabled) SK_client, G_idle])"]
    by simp
  then show ?thesis using m(2) by (intro exI[of _ m]) simp
qed

text \<open>
  C12. Nothing is lost on a serial queue: for a handler on a serial queue, not in synchronous mode, and in every execution in which neither
  this handler is disconnected nor the signal skipped, the invocations that were queued are, in their order, those whose function has been
  called, the one that has begun and those still queued; none is refused, so with \<open>single_updates\<close> each emit calls the function once.
\<close>

theorem signal_delivers_in_order:
  assumes "reach sg_step (sg_keeps h) (sg_init serial mode n) (m, ts)" and "serial h" and "mode h \<noteq> synchronous_update"
  shows "sg_emits m h = sg_calls m h @ sg_current m h @ sg_queued m h \<and> sg_dropped m h = []"
  using sg_reach_ok[OF assms] by (simp add: sg_sh_ok_def)

lemma sg_delivery_demo:
  "\<exists>m. reach sg_step (sg_keeps 3) (sg_init (\<lambda>_. True) (\<lambda>_. single_updates) 2) (m :: nat signal_p, [G_idle, GQ_run 3 8]) \<and>
     sg_calls m 3 = [8] \<and> sg_queued m 3 = [9]"
proof -
  have "\<exists>m. run sg_step (sg_init (\<lambda>_. True) (\<lambda>_. single_updates) 2)
      (sg_call_op 0 (SG_connect 3) 3 @ sg_call_op 0 (SG_emit 8) 6 @ sg_call_op 0 (SG_emit 9) 6 @ sg_call_op 1 (SG_begin 3 0) 2) =
      Some (m :: nat signal_p, [G_idle, GQ_run 3 8]) \<and> sg_calls m 3 = [8] \<and> sg_queued m 3 = [9]"
    by (simp add: sg_demo_defs)
  then show ?thesis by (fastforce intro: reach_run simp: list_all_iff sg_keeps_def)
qed

theorem signal_delivers_in_order_witness: "\<exists>m :: nat signal_p. sg_emits m 3 = [8, 9] \<and> sg_calls m 3 = [8]"
proof -
  obtain m :: "nat signal_p" where m: "reach sg_step (sg_keeps 3) (sg_init (\<lambda>_. True) (\<lambda>_. single_updates) 2) (m, [G_idle, GQ_run 3 8])"
     "sg_calls m 3 = [8]" "sg_queued m 3 = [9]" using sg_delivery_demo by blast
  have "ch_mode (sg_state m 3) = ch_mode (sg_state m 3) \<and> sg_emits m 3 = sg_calls m 3 @ sg_current m 3 @ sg_queued m 3"
    using signal_delivers_in_order[OF m(1)] by simp
  moreover have "sg_current m 3 = []"
  proof -
    have "tsum (sg_weight 3 RG_enter) [G_idle, GQ_run 3 (8::nat)] = 0" "tsum (sg_weight 3 RG_body) [G_idle, GQ_run 3 (8::nat)] = 0"
      by (simp_all add: sg_weight_def)
    then show ?thesis using sg_reach_ok[OF m(1)] by (simp add: sg_sh_ok_def)
  qed
  ultimately show ?thesis using m(2,3) by (intro exI[of _ m]) simp
qed

text \<open>
  \<open>batch_updates\<close> skips an emit only when it may: at the moment an emit reads \<open>m_pending\<close> for a handler on a serial
  queue, the value is exactly the number of its invocations that have not called the function yet. So an emit queues an invocation
  if there is none, and otherwise the function will still be called after it.
\<close>

theorem signal_pending_is_exact:
  assumes "reach sg_step (sg_keeps h) (sg_init serial mode n) (m, ts)" and "serial h" and "mode h \<noteq> synchronous_update"
    and "t < length ts" and "ts ! t = GE_for a (h # hs)"
  shows "ch_pending (sg_state m h) = int (length (sg_queued m h) + length (sg_current m h))"
proof -
  have CS: "sg_CS m = Some t" using sg_reach_mutex[OF assms(1)] assms(4,5) by (auto simp: sg_mutex.owner_inv_def)
  have "sg_weight h RG_open pc = 0" if pc: "pc \<in> set ts" for pc
  proof -
    obtain u where u: "u < length ts" "pc = ts ! u" using pc by (auto simp: in_set_conv_nth)
    have "u = t" if "sg_open h pc"
    proof -
      have "sg_holds pc" using that by (cases pc) auto
      then show ?thesis using sg_mutex.owner_unique[OF sg_reach_mutex[OF assms(1)], of u t] u assms(4,5) by simp
    qed
    then show ?thesis using u assms(5) by (auto simp: sg_weight_def)
  qed
  then have "tsum (sg_weight h RG_open) ts = 0" by (rule tsum_zero)
  then show ?thesis using sg_reach_ok[OF assms(1-3)] by (simp add: sg_sh_ok_def)
qed

theorem signal_pending_is_exact_witness:
  "\<exists>m :: nat signal_p. ch_pending (sg_state m 3) = int (length (sg_queued m 3) + length (sg_current m 3)) \<and> sg_queued m 3 = [8]"
proof -
  have "\<exists>m. run sg_step (sg_init (\<lambda>_. True) (\<lambda>_. batch_updates) 2)
      (sg_call_op 0 (SG_connect 3) 3 @ sg_call_op 0 (SG_emit 8) 6 @ sg_call_op 0 (SG_emit 9) 1) =
      Some (m :: nat signal_p, [GE_for 9 [3], G_idle]) \<and> sg_queued m 3 = [8]"
    by (simp add: sg_demo_defs)
  then obtain m :: "nat signal_p" where m: "reach sg_step (sg_keeps 3) (sg_init (\<lambda>_. True) (\<lambda>_. batch_updates) 2) (m, [GE_for 9 [3], G_idle])"
    "sg_queued m 3 = [8]" by (fastforce intro: reach_run simp: list_all_iff sg_keeps_def)
  show ?thesis using signal_pending_is_exact[OF m(1), of 0 9 "[]"] m(2) by (intro exI[of _ m]) simp
qed

text \<open>
  On a parallel queue updates are lost. With \<open>single_updates\<close>, two invocations that overlap: the second is refused by the guard
  and its value never reaches the function. The refused invocation leaves \<open>m_pending\<close> above zero, so a handler with
  \<open>batch_updates\<close> after an invocation that was refused is never queued again: every later emit is skipped although nothing is outstanding.
\<close>

theorem signal_parallel_queue_loses_updates:
  "(\<exists>m. reach sg_step (sg_keeps 3) (sg_init (\<lambda>_. False) (\<lambda>_. single_updates) 3) (m :: nat signal_p, [G_idle, G_idle, G_idle]) \<and>
      sg_emits m 3 = [8, 9] \<and> sg_calls m 3 = [8] \<and> sg_queued m 3 = []) \<and>
   (\<exists>m. reach sg_step (sg_keeps 3) (sg_init (\<lambda>_. False) (\<lambda>_. batch_updates) 3) (m :: nat signal_p, [GE_mode 7 3 [] 1, G_idle, G_idle]) \<and>
      sg_queued m 3 = [] \<and> sg_mode_next (sg_state m 3) 7 3 [] 1 = GE_dec 7 3 [])"
proof
  let ?overlap = "sg_call_op 1 (SG_begin 3 0) 2 @ sg_call_op 0 (SG_emit 9) 6 @ sg_call_op 2 (SG_begin 3 0) 3 @ replicate 3 (1, SG_step)"
  have "\<exists>m. run sg_step (sg_init (\<lambda>_. False) (\<lambda>_. single_updates) 3)
      (sg_call_op 0 (SG_connect 3) 3 @ sg_call_op 0 (SG_emit 8) 6 @ ?overlap) = Some (m :: nat signal_p, [G_idle, G_idle, G_idle]) \<and>
      sg_emits m 3 = [8, 9] \<and> sg_calls m 3 = [8] \<and> sg_queued m 3 = []"
    by (simp add: sg_demo_defs)
  then show "\<exists>m. reach sg_step (sg_keeps 3) (sg_init (\<lambda>_. False) (\<lambda>_. single_updates) 3) (m :: nat signal_p, [G_idle, G_idle, G_idle]) \<and>
      sg_emits m 3 = [8, 9] \<and> sg_calls m 3 = [8] \<and> sg_queued m 3 = []"
    by (fastforce intro: reach_run simp: list_all_iff sg_keeps_def)
  have "\<exists>m. run sg_step (sg_init (\<lambda>_. False) (\<lambda>_. batch_updates) 3)
      (sg_call_op 0 (SG_connect 3) 3 @ sg_call_op 0 (SG_emit 8) 6 @ ?overlap @ sg_call_op 0 (SG_emit 7) 2) =
      Some (m :: nat signal_p, [GE_mode 7 3 [] 1, G_idle, G_idle]) \<and>
      sg_queued m 3 = [] \<and> sg_mode_next (sg_state m 3) 7 3 [] 1 = GE_dec 7 3 []"
    by (simp add: sg_demo_defs)
  then show "\<exists>m. reach sg_step (sg_keeps 3) (sg_init (\<lambda>_. False) (\<lambda>_. batch_updates) 3) (m :: nat signal_p, [GE_mode 7 3 [] 1, G_idle, G_idle]) \<and>
      sg_queued m 3 = [] \<and> sg_mode_next (sg_state m 3) 7 3 [] 1 = GE_dec 7 3 []"
    by (fastforce intro: reach_run simp: list_all_iff sg_keeps_def)
qed

text \<open>
  Two deadlocks. A synchronous handler that disconnects itself locks the mutex that its own thread holds. A thread in \<open>skip_all\<close> waits for a
  running handler with \<open>m_CS\<close> held, and the handler waits for \<open>m_CS\<close> in \<open>disconnect\<close>. In both states no thread that is inside a
  method can take a step.
\<close>

theorem signal_deadlocks:
  "(\<exists>m. reach sg_step (\<lambda>_. True) (sg_init (\<lambda>_. True) (\<lambda>_. synchronous_update) 1) (m :: nat signal_p, [GD_relock 3 8 3 []]) \<and>
      (\<forall>e. sg_step (m, [GD_relock 3 8 3 []]) (0, e) = None)) \<and>
   (\<exists>m. reach sg_step (\<lambda>_. True) (sg_init (\<lambda>_. True) (\<lambda>_. single_updates) 2)
        (m :: nat signal_p, [GS_can 3 CP_dwait [], GD_lock 3 (SK_queue 3 8)]) \<and>
      (\<forall>t e. sg_step (m, [GS_can 3 CP_dwait [], GD_lock 3 (SK_queue 3 8)]) (t, e) = None))"
proof
  have "\<exists>m. run sg_step (sg_init (\<lambda>_. True) (\<lambda>_. synchronous_update) 1)
      (sg_call_op 0 (SG_connect 3) 3 @ sg_call_op 0 (SG_emit 8) 5 @ [(0, SG_disconnect 3 True)]) =
      Some (m :: nat signal_p, [GD_relock 3 8 3 []])"
    by (simp add: sg_demo_defs)
  then obtain m :: "nat signal_p" where
    "reach sg_step (\<lambda>_. True) (sg_init (\<lambda>_. True) (\<lambda>_. synchronous_update) 1) (m, [GD_relock 3 8 3 []])"
    by (fastforce intro: reach_run simp: list_all_iff)
  moreover have "sg_step (m, [GD_relock 3 8 3 []]) (0, e) = None" for e by (cases e) auto
  ultimately show "\<exists>m. reach sg_step (\<lambda>_. True) (sg_init (\<lambda>_. True) (\<lambda>_. synchronous_update) 1) (m :: nat signal_p, [GD_relock 3 8 3 []]) \<and>
      (\<forall>e. sg_step (m, [GD_relock 3 8 3 []]) (0, e) = None)" by blast
next
  let ?ts = "[GS_can 3 CP_dwait [], GD_lock 3 (SK_queue 3 (8 :: nat))]"
  have "\<exists>m. run sg_step (sg_init (\<lambda>_. True) (\<lambda>_. single_updates) 2)
      (sg_call_op 0 (SG_connect 3) 3 @ sg_call_op 0 (SG_emit 8) 6 @ sg_call_op 1 (SG_begin 3 0) 2 @
       sg_call_op 0 SG_skip_all 3 @ [(1, SG_disconnect 3 True)]) = Some (m :: nat signal_p, ?ts) \<and>
      sg_CS m = Some 0 \<and> \<not> can_barrier (ch_active (sg_state m 3))"
    by (simp add: sg_demo_defs)
  then obtain m :: "nat signal_p" where m:
    "reach sg_step (\<lambda>_. True) (sg_init (\<lambda>_. True) (\<lambda>_. single_updates) 2) (m, ?ts)"
    "sg_CS m = Some 0" "\<not> can_barrier (ch_active (sg_state m 3))"
    by (fastforce intro: reach_run simp: list_all_iff)
  have "sg_step (m, ?ts) (t, e) = None" for t e
    using m(2,3) by (cases e) (auto simp: less_Suc_eq sg_can_exec_def)
  then show "\<exists>m. reach sg_step (\<lambda>_. True) (sg_init (\<lambda>_. True) (\<lambda>_. single_updates) 2) (m :: nat signal_p, ?ts) \<and>
      (\<forall>t e. sg_step (m, ?ts) (t, e) = None)" using m(1) by blast
qed

end
