(* ===== verification/Connection.thy ===== *)
theory Connection
  imports Types "HOL-Library.Monad_Syntax"
begin

text \<open>
  Connections and their managers (\<open>connection\<close>, \<open>scoped_connection\<close> and \<open>connection_manager\<close> of
  \<open>include/xdispatch/signals.h\<close> and \<open>src/signals.cpp\<close>), seen by one thread; what concurrent emits do is the subject of the
  theory of signals.

  A handler is identified by the signal that created it and a number. \<open>sw_handlers s\<close> is the vector \<open>m_handlers\<close> of the
  signal \<open>s\<close>, \<open>None\<close> once \<open>s\<close> is destroyed. \<open>sw_held h\<close> counts the queued invocations, each of which owns
  a shared pointer to \<open>h\<close>; so the weak pointer of a connection can be locked while \<open>h\<close> is in the vector or held
  (\<open>handler_alive\<close>). \<open>sw_enabled h\<close> is false once \<open>disable\<close> was called. An operation that touches a member of
  a destroyed signal has the result \<open>None\<close>.
\<close>

section \<open>The model\<close>

type_synonym signal_id = nat
type_synonym handler_id = "signal_id \<times> nat"

text \<open>The functors that the overloads of \<open>connect\<close> store in the handler: a callable, a member function and a chained signal.\<close>

datatype 'f sg_functor = F_call 'f | F_member nat 'f | F_emit signal_id

record ('q, 'f) connection_handler_t =
  cht_queue :: 'q
  cht_func :: "'f sg_functor"
  cht_mode :: notification_mode

record ('q, 'f) signal_world =
  sw_handlers :: "signal_id \<Rightarrow> handler_id list option"
  sw_enabled :: "handler_id \<Rightarrow> bool"
  sw_held :: "handler_id \<Rightarrow> nat"
  sw_config :: "handler_id \<Rightarrow> ('q, 'f) connection_handler_t option"
  sw_next :: nat

record connection =
  m_id :: "handler_id option"
  m_parent :: "signal_id option"

type_synonym scoped_connection = connection

record connection_manager =
  m_connections :: "scoped_connection list"

definition handler_alive :: "('q, 'f) signal_world \<Rightarrow> handler_id \<Rightarrow> bool" where
  "handler_alive w h \<longleftrightarrow> (case sw_handlers w (fst h) of None \<Rightarrow> False | Some hs \<Rightarrow> h \<in> set hs) \<or> 0 < sw_held w h"

definition weak_lock :: "('q, 'f) signal_world \<Rightarrow> handler_id option \<Rightarrow> handler_id option" where
  "weak_lock w i = (case i of None \<Rightarrow> None | Some h \<Rightarrow> if handler_alive w h then Some h else None)"

definition connection_empty :: connection where
  "connection_empty = \<lparr>m_id = None, m_parent = None\<rparr>"

subsection \<open>Signals\<close>

definition signal_connect_handler ::
  "signal_id \<Rightarrow> handler_id \<Rightarrow> ('q, 'f) signal_world \<Rightarrow> (connection \<times> ('q, 'f) signal_world) option"
where
  "signal_connect_handler s job w = do {
     hs \<leftarrow> sw_handlers w s;
     Some (\<lparr>m_id = Some job, m_parent = Some s\<rparr>, w\<lparr>sw_handlers := (sw_handlers w)(s \<mapsto> hs @ [job])\<rparr>)
   }"

definition signal_connect ::
  "signal_id \<Rightarrow> 'f sg_functor \<Rightarrow> 'q \<Rightarrow> notification_mode \<Rightarrow> ('q, 'f) signal_world \<Rightarrow>
   (connection \<times> ('q, 'f) signal_world) option"
where
  "signal_connect s f q m w =
     (let h = (s, sw_next w);
          new_connection = \<lparr>cht_queue = q, cht_func = f, cht_mode = m\<rparr>
      in signal_connect_handler s h
           (w\<lparr>sw_config := (sw_config w)(h \<mapsto> new_connection), sw_enabled := (sw_enabled w)(h := True), sw_next := sw_next w + 1\<rparr>))"

definition signal_connect_member ::
  "signal_id \<Rightarrow> nat \<Rightarrow> 'f \<Rightarrow> 'q \<Rightarrow> notification_mode \<Rightarrow> ('q, 'f) signal_world \<Rightarrow> (connection \<times> ('q, 'f) signal_world) option"
where
  "signal_connect_member s obj f q m w = signal_connect s (F_member obj f) q m w"

definition signal_connect_chain ::
  "'q \<Rightarrow> signal_id \<Rightarrow> signal_id \<Rightarrow> ('q, 'f) signal_world \<Rightarrow> (connection \<times> ('q, 'f) signal_world) option"
where
  "signal_connect_chain global_queue s s' w = signal_connect s (F_emit s') global_queue synchronous_update w"

definition signal_destroy :: "signal_id \<Rightarrow> ('q, 'f) signal_world \<Rightarrow> ('q, 'f) signal_world option" where
  "signal_destroy s w = do {
     hs \<leftarrow> sw_handlers w s;
     Some (w\<lparr>sw_enabled := (\<lambda>h. sw_enabled w h \<and> h \<notin> set hs), sw_handlers := (sw_handlers w)(s := None)\<rparr>)
   }"

definition signal_disconnect ::
  "signal_id \<Rightarrow> connection \<Rightarrow> ('q, 'f) signal_world \<Rightarrow> (bool \<times> connection \<times> ('q, 'f) signal_world) option"
where
  "signal_disconnect s c w =
     (case weak_lock w (m_id c) of
        None \<Rightarrow> Some (False, c\<lparr>m_id := None\<rparr>, w)
      | Some h \<Rightarrow> do {
          hs \<leftarrow> sw_handlers w s;
          Some (True, c\<lparr>m_id := None\<rparr>,
                w\<lparr>sw_handlers := (sw_handlers w)(s \<mapsto> removeAll h hs), sw_enabled := (sw_enabled w)(h := False)\<rparr>)
        })"

subsection \<open>Connections\<close>

definition connection_disconnect ::
  "connection \<Rightarrow> ('q, 'f) signal_world \<Rightarrow> (bool \<times> connection \<times> ('q, 'f) signal_world) option"
where
  "connection_disconnect c w =
     (case m_parent c of
        None \<Rightarrow> Some (False, c\<lparr>m_id := None, m_parent := None\<rparr>, w)
      | Some s \<Rightarrow> do {
          (disconnected, c', w') \<leftarrow> signal_disconnect s c w;
          Some (disconnected, c'\<lparr>m_id := None, m_parent := None\<rparr>, w')
        })"

definition connected :: "('q, 'f) signal_world \<Rightarrow> connection \<Rightarrow> bool" where
  "connected w c \<longleftrightarrow> weak_lock w (m_id c) \<noteq> None"

definition is_connected_to :: "connection \<Rightarrow> signal_id \<Rightarrow> bool" where
  "is_connected_to c s \<longleftrightarrow> m_parent c = Some s"

definition connection_eq :: "('q, 'f) signal_world \<Rightarrow> connection \<Rightarrow> connection \<Rightarrow> bool" where
  "connection_eq w c d \<longleftrightarrow> weak_lock w (m_id c) = weak_lock w (m_id d) \<and> m_parent c = m_parent d"

definition connection_neq :: "('q, 'f) signal_world \<Rightarrow> connection \<Rightarrow> connection \<Rightarrow> bool" where
  "connection_neq w c d \<longleftrightarrow> \<not> connection_eq w d c"

subsection \<open>Scoped connections\<close>

definition scoped_new :: "connection \<Rightarrow> scoped_connection" where
  "scoped_new c = c"

definition scoped_empty :: scoped_connection where
  "scoped_empty = connection_empty"

text \<open>The move constructor: the new object and what is left of the argument.\<close>

definition scoped_move :: "scoped_connection \<Rightarrow> scoped_connection \<times> scoped_connection" where
  "scoped_move other = (other, other\<lparr>m_id := None, m_parent := None\<rparr>)"

definition scoped_destroy :: "scoped_connection \<Rightarrow> ('q, 'f) signal_world \<Rightarrow> ('q, 'f) signal_world option" where
  "scoped_destroy c w = do { (_, _, w') \<leftarrow> connection_disconnect c w; Some w' }"

definition scoped_assign ::
  "scoped_connection \<Rightarrow> connection \<Rightarrow> ('q, 'f) signal_world \<Rightarrow> (scoped_connection \<times> ('q, 'f) signal_world) option"
where
  "scoped_assign this other w = do { (_, _, w') \<leftarrow> connection_disconnect this w; Some (other, w') }"

text \<open>The move assignment: the new value of the object, what is left of the argument, and the world.\<close>

definition scoped_move_assign ::
  "scoped_connection \<Rightarrow> scoped_connection \<Rightarrow> ('q, 'f) signal_world \<Rightarrow>
   (scoped_connection \<times> scoped_connection \<times> ('q, 'f) signal_world) option"
where
  "scoped_move_assign this other w = do {
     (_, _, w') \<leftarrow> connection_disconnect this w;
     Some (other, other\<lparr>m_id := None, m_parent := None\<rparr>, w')
   }"

text \<open>\<open>take\<close>: the result and the new value of the object.\<close>

definition scoped_take :: "scoped_connection \<Rightarrow> connection \<times> scoped_connection" where
  "scoped_take this =
     (connection_empty\<lparr>m_id := m_id this, m_parent := m_parent this\<rparr>, this\<lparr>m_id := None, m_parent := None\<rparr>)"

subsection \<open>The connection manager\<close>

definition connection_manager_new :: connection_manager where
  "connection_manager_new = \<lparr>m_connections = []\<rparr>"

definition manager_add :: "connection_manager \<Rightarrow> connection \<Rightarrow> connection_manager" where
  "manager_add cm cn = cm\<lparr>m_connections := m_connections cm @ [scoped_new cn]\<rparr>"

text \<open>The destruction of a range of elements of the vector.\<close>

fun scoped_destroy_all :: "scoped_connection list \<Rightarrow> ('q, 'f) signal_world \<Rightarrow> ('q, 'f) signal_world option" where
  "scoped_destroy_all [] w = Some w"
| "scoped_destroy_all (c # cs) w = do { w' \<leftarrow> scoped_destroy c w; scoped_destroy_all cs w' }"

definition reset_connections ::
  "connection_manager \<Rightarrow> ('q, 'f) signal_world \<Rightarrow> (connection_manager \<times> ('q, 'f) signal_world) option"
where
  "reset_connections cm w = do {
     w' \<leftarrow> scoped_destroy_all (m_connections cm) w;
     Some (cm\<lparr>m_connections := []\<rparr>, w')
   }"

definition manager_destroy :: "connection_manager \<Rightarrow> ('q, 'f) signal_world \<Rightarrow> ('q, 'f) signal_world option" where
  "manager_destroy cm w = do { (_, w') \<leftarrow> reset_connections cm w; Some w' }"

text \<open>
  \<open>std::remove_if\<close> on the vector: \<open>remove_if_from s is r xs w\<close> has the indices \<open>is\<close> before it and moves the next
  element that stays to the index \<open>r\<close>; the result is the new end. \<open>find_connected s xs\<close> is the first index that does not stay.
\<close>

fun remove_if_from ::
  "signal_id \<Rightarrow> nat list \<Rightarrow> nat \<Rightarrow> scoped_connection list \<Rightarrow> ('q, 'f) signal_world \<Rightarrow>
   (nat \<times> scoped_connection list \<times> ('q, 'f) signal_world) option"
where
  "remove_if_from s [] r xs w = Some (r, xs, w)"
| "remove_if_from s (i # is) r xs w =
     (if is_connected_to (xs ! i) s then remove_if_from s is r xs w
      else do {
        (a, b, w') \<leftarrow> scoped_move_assign (xs ! r) (xs ! i) w;
        remove_if_from s is (r + 1) (xs[r := a, i := b]) w'
      })"

fun find_connected :: "signal_id \<Rightarrow> scoped_connection list \<Rightarrow> nat" where
  "find_connected s [] = 0"
| "find_connected s (c # cs) = (if is_connected_to c s then 0 else find_connected s cs + 1)"

definition reset_connections_with ::
  "connection_manager \<Rightarrow> signal_id \<Rightarrow> ('q, 'f) signal_world \<Rightarrow> (connection_manager \<times> ('q, 'f) signal_world) option"
where
  "reset_connections_with cm s w = (let xs = m_connections cm; first = find_connected s xs in do {
     (last, ys, w') \<leftarrow> remove_if_from s [first + 1 ..< length xs] first xs w;
     w'' \<leftarrow> scoped_destroy_all (drop last ys) w';
     Some (cm\<lparr>m_connections := take last ys\<rparr>, w'')
   })"

section \<open>Lemmas\<close>

lemma disconnect_cleared [simp]: "(c :: connection)\<lparr>m_id := None, m_parent := None\<rparr> = connection_empty"
  by (cases c) (simp add: connection_empty_def)

lemma scoped_destroy_empty [simp]: "scoped_destroy connection_empty w = Some w"
  by (simp add: scoped_destroy_def connection_disconnect_def connection_empty_def)

lemma empty_not_connected [simp]: "\<not> is_connected_to connection_empty s"
  by (simp add: is_connected_to_def connection_empty_def)

lemma scoped_move_assign_eq:
  "scoped_move_assign this other w = do { w' \<leftarrow> scoped_destroy this w; Some (other, connection_empty, w') }"
  by (cases "connection_disconnect this w") (auto simp: scoped_move_assign_def scoped_destroy_def)

lemma scoped_destroy_all_append:
  "scoped_destroy_all (xs @ ys) w = do { w' \<leftarrow> scoped_destroy_all xs w; scoped_destroy_all ys w' }"
  by (induction xs arbitrary: w) (auto split: bind_splits)

lemma find_connected_takeWhile: "find_connected s xs = length (takeWhile (\<lambda>c. \<not> is_connected_to c s) xs)"
  by (induction xs) auto

text \<open>
  The loop of \<open>remove_if\<close>: between the elements that stay (\<open>kept\<close>) and those to be examined (\<open>rest\<close>) is a gap of
  elements to be removed and of moved-from ones. Destroying the rest of the gap at the end has the same effect, in the same order,
  as destroying the gap and then all connections of \<open>rest\<close> to the signal.
\<close>

lemma remove_if_from_eq:
  assumes "gap \<noteq> []"
  shows "do {
      (last, ys, w') \<leftarrow> remove_if_from s [length (kept @ gap) ..< length (kept @ gap @ rest)] (length kept) (kept @ gap @ rest) w;
      w'' \<leftarrow> scoped_destroy_all (drop last ys) w';
      Some (take last ys, w'')
    } = do {
      w' \<leftarrow> scoped_destroy_all (gap @ filter (\<lambda>c. is_connected_to c s) rest) w;
      Some (kept @ filter (\<lambda>c. \<not> is_connected_to c s) rest, w')
    }"
  using assms
proof (induction rest arbitrary: kept gap w)
  case Nil
  then show ?case by simp
next
  case (Cons c rest)
  have upt: "[length (kept @ gap) ..< length (kept @ gap @ c # rest)] =
      length (kept @ gap) # [length (kept @ gap @ [c]) ..< length (kept @ gap @ [c] @ rest)]"
    by (subst upt_conv_Cons) (simp_all del: upt_Suc)
  have nth: "(kept @ gap @ c # rest) ! length (kept @ gap) = c"
    by (metis append.assoc nth_append_length)
  show ?case
  proof (cases "is_connected_to c s")
    case True
    then show ?thesis using Cons.IH[of "gap @ [c]" kept w] unfolding upt by (simp add: nth[simplified])
  next
    case False
    obtain g gs where g: "gap = g # gs" using Cons.prems by (cases gap) auto
    have upd: "(kept @ gap @ c # rest)[length kept := c, length (kept @ gap) := connection_empty] =
        (kept @ [c]) @ (gs @ [connection_empty]) @ rest"
      by (simp add: g list_update_append)
    have r: "(kept @ gap @ c # rest) ! length kept = g" by (simp add: g)
    have l: "length (kept @ gap @ [c]) = length ((kept @ [c]) @ (gs @ [connection_empty]))"
      "length (kept @ gap @ [c] @ rest) = length ((kept @ [c]) @ (gs @ [connection_empty]) @ rest)"
      by (simp_all add: g)
    show ?thesis
    proof (cases "scoped_destroy g w")
      case None
      then show ?thesis using False unfolding upt remove_if_from.simps nth r scoped_move_assign_eq by (simp add: g)
    next
      case (Some w')
      have "remove_if_from s [length (kept @ gap) ..< length (kept @ gap @ c # rest)] (length kept) (kept @ gap @ c # rest) w =
          remove_if_from s [length ((kept @ [c]) @ (gs @ [connection_empty])) ..< length ((kept @ [c]) @ (gs @ [connection_empty]) @ rest)]
            (length (kept @ [c])) ((kept @ [c]) @ (gs @ [connection_empty]) @ rest) w'"
        by (simp only: upt remove_if_from.simps nth r scoped_move_assign_eq False Some if_False Option.bind.bind_lunit prod.case upd l) simp
      then show ?thesis
        using Cons.IH[of "gs @ [connection_empty]" "kept @ [c]" w'] False Some
        by (simp add: g scoped_destroy_all_append)
    qed
  qed
qed


lemma signal_disconnect_Some:
  "signal_disconnect s c w = None \<longleftrightarrow> connected w c \<and> sw_handlers w s = None"
  by (auto simp: signal_disconnect_def connected_def split: option.splits bind_splits)

lemma connection_disconnect_None:
  "connection_disconnect c w = None \<longleftrightarrow> connected w c \<and> (\<exists>s. m_parent c = Some s \<and> sw_handlers w s = None)"
proof (cases "m_parent c")
  case (Some s)
  then show ?thesis using signal_disconnect_Some[of s c w]
    by (cases "signal_disconnect s c w") (auto simp: connection_disconnect_def)
qed (simp add: connection_disconnect_def)

section \<open>The steps of a client\<close>

text \<open>
  A client holds connection objects and connects, copies, moves, disconnects; the environment queues
  invocations of connected handlers and executes them, and signals are destroyed.
\<close>

type_synonym ('q, 'f) client_state = "('q, 'f) signal_world \<times> connection list"

inductive client_step :: "('q, 'f) client_state \<Rightarrow> ('q, 'f) client_state \<Rightarrow> bool" where
  connect: "signal_connect s f q m w = Some (c, w') \<Longrightarrow> client_step (w, cs) (w', cs @ [c])"
| copy: "c \<in> set cs \<Longrightarrow> client_step (w, cs) (w, cs @ [c])"
| disconnect: "i < length cs \<Longrightarrow> connection_disconnect (cs ! i) w = Some (b, c, w') \<Longrightarrow> client_step (w, cs) (w', cs[i := c])"
| assign: "i < length cs \<Longrightarrow> d \<in> set cs \<Longrightarrow> scoped_assign (cs ! i) d w = Some (c, w') \<Longrightarrow> client_step (w, cs) (w', cs[i := c])"
| move: "i < length cs \<Longrightarrow> scoped_move (cs ! i) = (c, c') \<Longrightarrow> client_step (w, cs) (w, (cs[i := c']) @ [c])"
| queue_invocation: "sw_handlers w (fst h) = Some hs \<Longrightarrow> h \<in> set hs \<Longrightarrow>
    client_step (w, cs) (w\<lparr>sw_held := (sw_held w)(h := sw_held w h + 1)\<rparr>, cs)"
| execute_invocation: "0 < sw_held w h \<Longrightarrow> client_step (w, cs) (w\<lparr>sw_held := (sw_held w)(h := sw_held w h - 1)\<rparr>, cs)"
| destroy: "signal_destroy s w = Some w' \<Longrightarrow> client_step (w, cs) (w', cs)"

text \<open>
  A careful client destroys a signal only when no invocation of its handlers is queued, which is what the \<open>group\<close> of a signal lets its
  owner wait for. The code does not ask for it; what happens otherwise is shown at the end of this theory.
\<close>

definition careful_step :: "('q, 'f) client_state \<Rightarrow> ('q, 'f) client_state \<Rightarrow> bool" where
  "careful_step st st' \<longleftrightarrow> client_step st st' \<and>
     (\<forall>s n. sw_handlers (fst st) s \<noteq> None \<and> sw_handlers (fst st') s = None \<longrightarrow> sw_held (fst st) (s, n) = 0)"

definition client_init :: "signal_id set \<Rightarrow> ('q, 'f) client_state" where
  "client_init A =
     (\<lparr>sw_handlers = (\<lambda>s. if s \<in> A then Some [] else None), sw_enabled = (\<lambda>_. False), sw_held = (\<lambda>_. 0), sw_config = (\<lambda>_. None),
       sw_next = 0\<rparr>, [])"

abbreviation client_reach :: "signal_id set \<Rightarrow> ('q, 'f) client_state \<Rightarrow> bool" where
  "client_reach A s \<equiv> careful_step\<^sup>*\<^sup>* (client_init A) s"

text \<open>Connections name handlers of their own signal; handlers are new, connected once, and enabled while they are connected.\<close>

definition connection_ok :: "nat \<Rightarrow> connection \<Rightarrow> bool" where
  "connection_ok n c \<longleftrightarrow> (case m_id c of None \<Rightarrow> True | Some h \<Rightarrow> m_parent c = Some (fst h) \<and> snd h < n)"

definition world_ok :: "('q, 'f) signal_world \<Rightarrow> bool" where
  "world_ok w \<longleftrightarrow>
     (\<forall>s hs. sw_handlers w s = Some hs \<longrightarrow>
        distinct hs \<and> (\<forall>h \<in> set hs. fst h = s \<and> snd h < sw_next w \<and> sw_enabled w h \<and> sw_config w h \<noteq> None)) \<and>
     (\<forall>h. 0 < sw_held w h \<longrightarrow> sw_handlers w (fst h) \<noteq> None \<and> snd h < sw_next w)"

definition client_ok :: "('q, 'f) client_state \<Rightarrow> bool" where
  "client_ok s \<longleftrightarrow> world_ok (fst s) \<and> (\<forall>c \<in> set (snd s). connection_ok (sw_next (fst s)) c)"

lemma connection_ok_empty [simp]: "connection_ok n connection_empty"
  by (simp add: connection_ok_def connection_empty_def)

lemma connection_ok_mono: "connection_ok n c \<Longrightarrow> n \<le> n' \<Longrightarrow> connection_ok n' c"
  by (auto simp: connection_ok_def split: option.splits)

lemma signal_connect_effect:
  assumes "signal_connect s f q m w = Some (c, w')"
  obtains hs where "sw_handlers w s = Some hs" "c = \<lparr>m_id = Some (s, sw_next w), m_parent = Some s\<rparr>"
    "w' = w\<lparr>sw_config := (sw_config w)((s, sw_next w) \<mapsto> \<lparr>cht_queue = q, cht_func = f, cht_mode = m\<rparr>),
            sw_enabled := (sw_enabled w)((s, sw_next w) := True), sw_next := sw_next w + 1,
            sw_handlers := (sw_handlers w)(s \<mapsto> hs @ [(s, sw_next w)])\<rparr>"
  using assms by (auto simp: signal_connect_def signal_connect_handler_def Let_def split: bind_splits)

lemma world_ok_handler:
  "world_ok w \<Longrightarrow> sw_handlers w s = Some hs \<Longrightarrow> h \<in> set hs \<Longrightarrow> fst h = s \<and> snd h < sw_next w \<and> sw_enabled w h \<and> sw_config w h \<noteq> None"
  by (simp add: world_ok_def)

lemma world_ok_held: "world_ok w \<Longrightarrow> 0 < sw_held w h \<Longrightarrow> sw_handlers w (fst h) \<noteq> None \<and> snd h < sw_next w"
  by (cases h) (auto simp: world_ok_def)

lemma world_okI:
  assumes "\<And>s hs. sw_handlers w s = Some hs \<Longrightarrow> distinct hs"
    and "\<And>s hs h. sw_handlers w s = Some hs \<Longrightarrow> h \<in> set hs \<Longrightarrow> fst h = s \<and> snd h < sw_next w \<and> sw_enabled w h \<and> sw_config w h \<noteq> None"
    and "\<And>h. 0 < sw_held w h \<Longrightarrow> sw_handlers w (fst h) \<noteq> None \<and> snd h < sw_next w"
  shows "world_ok w"
  unfolding world_ok_def using assms by blast

lemma world_ok_distinct: "world_ok w \<Longrightarrow> sw_handlers w s = Some hs \<Longrightarrow> distinct hs"
  by (simp add: world_ok_def)

lemma world_ok_connect:
  assumes "signal_connect s f q m w = Some (c, w')" "world_ok w"
  shows "world_ok w' \<and> connection_ok (sw_next w') c \<and> sw_next w \<le> sw_next w'"
proof -
  obtain hs where hs: "sw_handlers w s = Some hs" and c: "c = \<lparr>m_id = Some (s, sw_next w), m_parent = Some s\<rparr>"
    and w': "w' = w\<lparr>sw_config := (sw_config w)((s, sw_next w) \<mapsto> \<lparr>cht_queue = q, cht_func = f, cht_mode = m\<rparr>),
            sw_enabled := (sw_enabled w)((s, sw_next w) := True), sw_next := sw_next w + 1,
            sw_handlers := (sw_handlers w)(s \<mapsto> hs @ [(s, sw_next w)])\<rparr>"
    by (rule signal_connect_effect[OF assms(1)])
  have "world_ok w'"
  proof (rule world_okI)
    fix t gs
    assume "sw_handlers w' t = Some gs"
    moreover have "(s, sw_next w) \<notin> set hs" using world_ok_handler[OF assms(2) hs, of "(s, sw_next w)"] by auto
    ultimately show "distinct gs"
      using world_ok_distinct[OF assms(2), of t gs] world_ok_distinct[OF assms(2) hs] by (auto simp: w' split: if_splits)
  next
    fix t gs h
    assume "sw_handlers w' t = Some gs" "h \<in> set gs"
    then show "fst h = t \<and> snd h < sw_next w' \<and> sw_enabled w' h \<and> sw_config w' h \<noteq> None"
      using world_ok_handler[OF assms(2), of t gs h] world_ok_handler[OF assms(2) hs, of h]
      by (auto simp: w' split: if_splits)
  next
    fix h
    assume "0 < sw_held w' h"
    then show "sw_handlers w' (fst h) \<noteq> None \<and> snd h < sw_next w'"
      using world_ok_held[OF assms(2), of h] by (simp add: w')
  qed
  then show ?thesis by (simp add: c w' connection_ok_def)
qed

lemma connection_disconnect_effect:
  assumes "connection_disconnect c w = Some (b, c', w')"
  shows "c' = connection_empty \<and>
    (w' = w \<or> (\<exists>h s hs. m_id c = Some h \<and> m_parent c = Some s \<and> sw_handlers w s = Some hs \<and>
       w' = w\<lparr>sw_handlers := (sw_handlers w)(s \<mapsto> removeAll h hs), sw_enabled := (sw_enabled w)(h := False)\<rparr>))"
  using assms
  by (auto simp: connection_disconnect_def signal_disconnect_def weak_lock_def split: option.splits bind_splits if_splits)

lemma world_ok_disconnect:
  assumes "connection_disconnect c w = Some (b, c', w')" "world_ok w" "connection_ok (sw_next w) c"
  shows "world_ok w' \<and> c' = connection_empty \<and> sw_next w' = sw_next w"
proof -
  have "world_ok (w\<lparr>sw_handlers := (sw_handlers w)(s \<mapsto> removeAll h hs), sw_enabled := (sw_enabled w)(h := False)\<rparr>)"
    if "m_id c = Some h" "m_parent c = Some s" "sw_handlers w s = Some hs" for h s hs
  proof -
    have "s = fst h" using assms(3) that by (simp add: connection_ok_def)
    moreover have "fst g = t" if "sw_handlers w t = Some gs" "g \<in> set gs" for t g gs
      using assms(2) that by (simp add: world_ok_def)
    ultimately show ?thesis using assms(2) that(3) unfolding world_ok_def by (fastforce simp: distinct_removeAll split: if_splits)
  qed
  then show ?thesis using connection_disconnect_effect[OF assms(1)] assms(2) by auto
qed

lemma world_ok_destroy:
  assumes "signal_destroy s w = Some w'" "world_ok w" "\<forall>n. sw_held w (s, n) = 0"
  shows "world_ok w' \<and> sw_next w' = sw_next w"
proof -
  obtain hs where hs: "sw_handlers w s = Some hs"
    and w': "w' = w\<lparr>sw_enabled := (\<lambda>h. sw_enabled w h \<and> h \<notin> set hs), sw_handlers := (sw_handlers w)(s := None)\<rparr>"
    using assms(1) by (auto simp: signal_destroy_def split: bind_splits)
  have "h \<notin> set hs" if "sw_handlers w t = Some gs" "h \<in> set gs" "t \<noteq> s" for t gs h
    using world_ok_handler[OF assms(2) hs, of h] world_ok_handler[OF assms(2) that(1,2)] that(3) by auto
  moreover have "fst h \<noteq> s" if "0 < sw_held w h" for h
    using assms(3) that by (cases h) auto
  ultimately show ?thesis using assms(2) unfolding w' world_ok_def by simp
qed

lemma careful_stepI:
  "client_step st st' \<Longrightarrow> (\<And>s. sw_handlers (fst st) s \<noteq> None \<Longrightarrow> sw_handlers (fst st') s \<noteq> None) \<Longrightarrow> careful_step st st'"
  unfolding careful_step_def by blast

lemma careful_destroy:
  assumes "signal_destroy s w = Some w'" and "careful_step (w, cs) (w', cs')"
  shows "\<forall>n. sw_held w (s, n) = 0"
proof -
  have "sw_handlers w s \<noteq> None" "sw_handlers w' s = None" using assms(1) by (auto simp: signal_destroy_def split: bind_splits)
  then show ?thesis using assms(2) unfolding careful_step_def fst_conv by blast
qed

lemma client_ok_step:
  assumes "careful_step s s'" and "client_ok s"
  shows "client_ok s'"
proof -
  have "client_step s s'" using assms(1) by (simp add: careful_step_def)
  then show ?thesis using assms
  proof (induction rule: client_step.induct)
    case (connect s f q m w c w' cs)
    then show ?case using world_ok_connect[OF connect(1)] by (auto simp: client_ok_def intro: connection_ok_mono)
  next
    case (disconnect i cs w b c w')
    then show ?case using world_ok_disconnect[OF disconnect(2)]
      by (auto simp: client_ok_def dest!: set_update_subset_insert[THEN subsetD])
  next
    case (assign i cs d w c w')
    then obtain b c' where "connection_disconnect (cs ! i) w = Some (b, c', w')" "c = d"
      by (auto simp: scoped_assign_def split: bind_splits)
    with assign show ?case using world_ok_disconnect[of "cs ! i" w b c' w']
      by (auto simp: client_ok_def dest!: set_update_subset_insert[THEN subsetD])
  next
    case (move i cs c c' w)
    then show ?case by (auto simp: client_ok_def scoped_move_def dest!: set_update_subset_insert[THEN subsetD])
  next
    case (destroy w s w' cs)
    then show ?case using world_ok_destroy[OF destroy(1) _ careful_destroy[OF destroy(1,2)]] by (simp add: client_ok_def)
  next
    case (queue_invocation w h hs cs)
    then show ?case using world_ok_handler[of w "fst h" hs h] by (cases h) (auto simp: client_ok_def world_ok_def)
  next
    case (execute_invocation w h cs)
    then show ?case by (cases h) (auto simp: client_ok_def world_ok_def split: if_splits)
  qed (auto simp: client_ok_def)
qed

lemma client_init_ok: "client_ok (client_init A)"
  by (simp add: client_ok_def client_init_def world_ok_def)

lemma client_reach_ok: "client_reach A s \<Longrightarrow> client_ok s"
  by (induction rule: rtranclp_induct) (simp_all add: client_init_ok client_ok_step)


text \<open>What destroying connections does to the signals: their handlers are removed, and the ones still alive disabled.\<close>

definition connection_ids :: "connection list \<Rightarrow> handler_id set" where
  "connection_ids cs = {h. \<exists>c \<in> set cs. m_id c = Some h}"

lemma connection_ids_simps [simp]:
  "connection_ids [] = {}"
  "connection_ids (c # cs) = (case m_id c of None \<Rightarrow> {} | Some h \<Rightarrow> {h}) \<union> connection_ids cs"
  by (auto simp: connection_ids_def split: option.splits)

definition without_handlers :: "handler_id set \<Rightarrow> ('q, 'f) signal_world \<Rightarrow> ('q, 'f) signal_world" where
  "without_handlers H w =
     w\<lparr>sw_handlers := (\<lambda>s. map_option (filter (\<lambda>h. h \<notin> H)) (sw_handlers w s)),
       sw_enabled := (\<lambda>h. sw_enabled w h \<and> \<not> (h \<in> H \<and> handler_alive w h))\<rparr>"

lemma without_handlers_empty [simp]: "without_handlers {} w = w"
proof -
  have "map_option (filter (\<lambda>h. h \<notin> {})) x = x" for x :: "handler_id list option" by (cases x) simp_all
  then show ?thesis by (simp add: without_handlers_def)
qed

lemma held_alive: "0 < sw_held w h \<Longrightarrow> handler_alive w h"
  by (simp add: handler_alive_def)

lemma handler_alive_without:
  "handler_alive (without_handlers H w) h \<longleftrightarrow> h \<notin> H \<and> handler_alive w h \<or> 0 < sw_held w h"
  by (cases "sw_handlers w (fst h)") (auto simp: handler_alive_def without_handlers_def)

lemma without_handlers_Un: "without_handlers H (without_handlers G w) = without_handlers (G \<union> H) w"
proof -
  have f: "map_option (filter (\<lambda>h. h \<notin> H)) (map_option (filter (\<lambda>h. h \<notin> G)) x) = map_option (filter (\<lambda>h. h \<notin> G \<union> H)) x" for x
    by (cases x) (auto intro: filter_cong)
  have e: "(sw_enabled w h \<and> \<not> (h \<in> G \<and> handler_alive w h)) \<and> \<not> (h \<in> H \<and> handler_alive (without_handlers G w) h) \<longleftrightarrow>
      sw_enabled w h \<and> \<not> (h \<in> G \<union> H \<and> handler_alive w h)" for h
    using held_alive[of w h] by (auto simp: handler_alive_without)
  have "without_handlers H (without_handlers G w) = (without_handlers G w)
      \<lparr>sw_handlers := (\<lambda>s. map_option (filter (\<lambda>h. h \<notin> H)) (map_option (filter (\<lambda>h. h \<notin> G)) (sw_handlers w s))),
       sw_enabled := (\<lambda>h. (sw_enabled w h \<and> \<not> (h \<in> G \<and> handler_alive w h)) \<and> \<not> (h \<in> H \<and> handler_alive (without_handlers G w) h))\<rparr>"
    unfolding without_handlers_def[of H] by (simp add: without_handlers_def[of G])
  then show ?thesis unfolding f e by (simp add: without_handlers_def)
qed

lemma connection_disconnect_without:
  assumes "world_ok w" "connection_ok n c"
  shows "connection_disconnect c w = Some (connected w c, connection_empty, without_handlers (connection_ids [c]) w)"
proof (cases "m_id c")
  case None
  then show ?thesis
    by (cases "m_parent c") (simp_all add: connection_disconnect_def signal_disconnect_def weak_lock_def connected_def)
next
  case (Some h)
  then have p: "m_parent c = Some (fst h)" using assms(2) by (simp add: connection_ok_def)
  have other: "map_option (filter (\<lambda>g. g \<noteq> h)) (sw_handlers w s) = sw_handlers w s" if "s \<noteq> fst h \<or> \<not> handler_alive w h" for s
  proof (cases "sw_handlers w s")
    case (Some hs)
    have "h \<notin> set hs"
    proof
      assume "h \<in> set hs"
      with world_ok_handler[OF assms(1) Some, of h] that Some show False by (auto simp: handler_alive_def)
    qed
    then show ?thesis using Some by (auto intro!: filter_True)
  qed simp
  show ?thesis
  proof (cases "handler_alive w h")
    case False
    then have "without_handlers {h} w = w" using other by (auto simp: without_handlers_def intro!: signal_world.equality)
    then show ?thesis using False Some p by (simp add: connection_disconnect_def signal_disconnect_def weak_lock_def connected_def)
  next
    case True
    then obtain hs where hs: "sw_handlers w (fst h) = Some hs"
      using world_ok_held[OF assms(1), of h] by (auto simp: handler_alive_def split: option.splits)
    have f: "(sw_handlers w)(fst h \<mapsto> removeAll h hs) = (\<lambda>s. map_option (filter (\<lambda>g. g \<notin> {h})) (sw_handlers w s))"
    proof
      fix s
      show "((sw_handlers w)(fst h \<mapsto> removeAll h hs)) s = map_option (filter (\<lambda>g. g \<notin> {h})) (sw_handlers w s)"
        using other[of s] hs by (cases "s = fst h") (auto simp: removeAll_filter_not_eq intro: filter_cong)
    qed
    have e: "(sw_enabled w)(h := False) = (\<lambda>g. sw_enabled w g \<and> \<not> (g \<in> {h} \<and> handler_alive w g))"
      using True by (intro ext) simp
    show ?thesis using True Some p hs
      by (simp add: connection_disconnect_def signal_disconnect_def weak_lock_def connected_def without_handlers_def f[simplified] e)
  qed
qed


lemma scoped_destroy_all_without:
  assumes "world_ok w" "\<forall>c \<in> set cs. connection_ok (sw_next w) c"
  shows "scoped_destroy_all cs w = Some (without_handlers (connection_ids cs) w)"
  using assms
proof (induction cs arbitrary: w)
  case (Cons c cs)
  let ?w = "without_handlers (connection_ids [c]) w"
  have d: "connection_disconnect c w = Some (connected w c, connection_empty, ?w)"
    using Cons.prems connection_disconnect_without[of w "sw_next w" c] by simp
  have "world_ok ?w" and n: "sw_next ?w = sw_next w"
    using world_ok_disconnect[OF d] Cons.prems by simp_all
  then have "scoped_destroy_all cs ?w = Some (without_handlers (connection_ids cs) ?w)" using Cons by simp
  then show ?case using d by (simp add: scoped_destroy_def without_handlers_Un)
qed simp

lemma disconnect_without_reach:
  assumes "client_reach A (w, cs)" and "c \<in> set cs"
  shows "connection_disconnect c w = Some (connected w c, connection_empty, without_handlers (connection_ids [c]) w)"
  using client_reach_ok[OF assms(1)] assms(2) connection_disconnect_without[of w "sw_next w" c] by (simp add: client_ok_def)

lemma reset_connections_with_eq:
  "reset_connections_with cm s w = do {
     w' \<leftarrow> scoped_destroy_all (filter (\<lambda>c. is_connected_to c s) (m_connections cm)) w;
     Some (cm\<lparr>m_connections := filter (\<lambda>c. \<not> is_connected_to c s) (m_connections cm)\<rparr>, w')
   }"
proof -
  let ?xs = "m_connections cm" and ?P = "\<lambda>c. \<not> is_connected_to c s"
  let ?kept = "takeWhile ?P ?xs"
  show ?thesis
  proof (cases "dropWhile ?P ?xs")
    case Nil
    then have all: "\<forall>c \<in> set ?xs. ?P c" by (simp add: dropWhile_eq_Nil_conv)
    then have "find_connected s ?xs = length ?xs" by (simp add: find_connected_takeWhile takeWhile_eq_all_conv[THEN iffD2])
    then show ?thesis using all by (simp add: reset_connections_with_def)
  next
    case (Cons c rest)
    have c: "is_connected_to c s" using hd_dropWhile[of ?P ?xs] Cons by simp
    have xs: "?xs = ?kept @ [c] @ rest" using takeWhile_dropWhile_id[of ?P ?xs] Cons by simp
    have k: "filter ?P ?kept = ?kept" "filter (\<lambda>c. is_connected_to c s) ?kept = []"
      by (auto simp: filter_id_conv filter_empty_conv dest: set_takeWhileD)
    have f: "find_connected s ?xs = length ?kept" by (rule find_connected_takeWhile)
    let ?new = "do {
        (last, ys, w') \<leftarrow> remove_if_from s [length (?kept @ [c]) ..< length (?kept @ [c] @ rest)] (length ?kept) (?kept @ [c] @ rest) w;
        w'' \<leftarrow> scoped_destroy_all (drop last ys) w';
        Some (take last ys, w'')
      }"
    have "reset_connections_with cm s w = do { (ys, w') \<leftarrow> ?new; Some (cm\<lparr>m_connections := ys\<rparr>, w') }"
      unfolding reset_connections_with_def Let_def f xs[symmetric] by (simp split: bind_splits prod.splits)
    also have "?new = do {
        w' \<leftarrow> scoped_destroy_all (filter (\<lambda>c. is_connected_to c s) ?xs) w;
        Some (filter ?P ?xs, w')
      }"
      using c k by (subst (3 4) xs, subst remove_if_from_eq) simp_all
    finally show ?thesis by (simp split: bind_splits)
  qed
qed

lemma reset_connections_without:
  assumes "world_ok w" "\<forall>c \<in> set (m_connections cm). connection_ok (sw_next w) c"
  shows "reset_connections cm w = Some (connection_manager_new, without_handlers (connection_ids (m_connections cm)) w)"
  using scoped_destroy_all_without[OF assms] by (simp add: reset_connections_def connection_manager_new_def)

section \<open>Properties\<close>

text \<open>
  C14. \<open>reset_connections_with\<close>, which moves the connections that stay over those to be removed and erases the rest, is
  the same as destroying the connections to the signal one after the other, in their order, and keeping the others, in theirs.
\<close>

theorem reset_connections_with_is_filter:
  "reset_connections_with cm s w = do {
     w' \<leftarrow> scoped_destroy_all (filter (\<lambda>c. is_connected_to c s) (m_connections cm)) w;
     Some (cm\<lparr>m_connections := filter (\<lambda>c. \<not> is_connected_to c s) (m_connections cm)\<rparr>, w')
   }"
  by (rule reset_connections_with_eq)


text \<open>
  C28. Connections are safe for a client that destroys a signal only when none of its invocations is queued: whatever else it does
  with its connections, and however invocations are queued and executed in between, a disconnect never touches a destroyed
  signal, and it removes exactly the handler of the connection from its signal. Without the condition this is false, see
  \<open>connection_can_outlive_signal\<close>.
\<close>

theorem disconnect_is_safe_and_exact:
  assumes "client_reach A (w, cs)" and "c \<in> set cs"
  shows "connection_disconnect c w = Some (connected w c, connection_empty, without_handlers (connection_ids [c]) w)"
  by (rule disconnect_without_reach[OF assms])

definition connection_demo :: "(nat, nat) client_state" where
  "connection_demo = (let (w, cs) = client_init {0} in
     case signal_connect 0 (F_call 5) 7 single_updates w of None \<Rightarrow> (w, cs) | Some (c, w') \<Rightarrow> (w', cs @ [c]))"

lemmas connection_demo_simps = connection_demo_def client_init_def signal_connect_def signal_connect_handler_def Let_def

lemma connection_demo_connect:
  "signal_connect 0 (F_call 5) 7 single_updates (fst (client_init {0})) = Some (hd (snd connection_demo), fst connection_demo)"
  by (simp add: connection_demo_simps)

lemma connection_demo_reach: "client_reach {0} (fst connection_demo, snd connection_demo)"
proof (rule r_into_rtranclp)
  have "snd connection_demo = [] @ [hd (snd connection_demo)]" "snd (client_init {0} :: (nat, nat) client_state) = []"
    by (simp_all add: connection_demo_simps)
  then have "client_step (client_init {0}) (fst connection_demo, snd connection_demo)"
    using client_step.connect[OF connection_demo_connect, of "[]"] by (metis prod.collapse)
  then show "careful_step (client_init {0}) (fst connection_demo, snd connection_demo)"
    by (rule careful_stepI) (auto simp: connection_demo_simps split: if_splits)
qed

theorem disconnect_is_safe_and_exact_witness:
  "\<exists>w'. connection_disconnect (hd (snd connection_demo)) (fst connection_demo) = Some (True, connection_empty, w') \<and>
     sw_handlers (fst connection_demo) 0 = Some [(0, 0)] \<and> sw_handlers w' 0 = Some []"
proof -
  have c: "hd (snd connection_demo) \<in> set (snd connection_demo)" "sw_handlers (fst connection_demo) 0 = Some [(0, 0)]"
    "m_id (hd (snd connection_demo)) = Some (0, 0)"
    by (simp_all add: connection_demo_simps)
  then show ?thesis using disconnect_is_safe_and_exact[OF connection_demo_reach c(1)]
    by (simp add: connected_def weak_lock_def handler_alive_def without_handlers_def)
qed

text \<open>
  A manager takes all its connections down: \<open>reset_connections\<close>, and the destructor, disconnect all connections of the
  manager, from whatever signals, and touch nothing else.
\<close>

theorem reset_connections_disconnects_all:
  assumes "client_reach A (w, cs)" and "set (m_connections cm) \<subseteq> set cs"
  shows "reset_connections cm w = Some (connection_manager_new, without_handlers (connection_ids (m_connections cm)) w)"
proof -
  have "scoped_destroy_all (m_connections cm) w = Some (without_handlers (connection_ids (m_connections cm)) w)"
    using client_reach_ok[OF assms(1)] assms(2) by (intro scoped_destroy_all_without) (auto simp: client_ok_def)
  then show ?thesis by (simp add: reset_connections_def connection_manager_new_def)
qed

theorem reset_connections_disconnects_all_witness:
  "\<exists>w'. reset_connections (manager_add connection_manager_new (hd (snd connection_demo))) (fst connection_demo) =
     Some (connection_manager_new, w') \<and> sw_handlers w' 0 = Some []"
proof -
  have c: "set (m_connections (manager_add connection_manager_new (hd (snd connection_demo)))) \<subseteq> set (snd connection_demo)"
    "sw_handlers (fst connection_demo) 0 = Some [(0, 0)]"
    "connection_ids (m_connections (manager_add connection_manager_new (hd (snd connection_demo)))) = {(0, 0)}"
    by (simp_all add: connection_demo_simps manager_add_def
        connection_manager_new_def scoped_new_def)
  show ?thesis using reset_connections_disconnects_all[OF connection_demo_reach c(1)] c(2)
    unfolding c(3) by (simp add: without_handlers_def)
qed

text \<open>
  C29. Connecting and disconnecting is a round trip: after \<open>connect\<close> the connection is connected to the signal, and disconnecting it
  restores the handlers of all signals; a second disconnect, of the same object or of a copy, has nothing to do.
\<close>

theorem connect_disconnect_roundtrip:
  assumes "client_reach A (w, cs)" and "signal_connect s f q m w = Some (c, w')"
  shows "connected w' c \<and> is_connected_to c s \<and>
    (\<exists>w''. connection_disconnect c w' = Some (True, connection_empty, w'') \<and> sw_handlers w'' = sw_handlers w \<and>
       connection_disconnect connection_empty w'' = Some (False, connection_empty, w'') \<and>
       connection_disconnect c w'' = Some (False, connection_empty, w''))"
proof -
  have ok: "world_ok w" using client_reach_ok[OF assms(1)] by (simp add: client_ok_def)
  obtain hs where hs: "sw_handlers w s = Some hs" and c: "c = \<lparr>m_id = Some (s, sw_next w), m_parent = Some s\<rparr>"
    and w': "sw_handlers w' = (sw_handlers w)(s \<mapsto> hs @ [(s, sw_next w)])" "sw_held w' = sw_held w"
    by (rule signal_connect_effect[OF assms(2)]) (rule that, simp_all)
  have fresh: "(s, sw_next w) \<notin> set hs" "sw_held w (s, sw_next w) = 0"
    using world_ok_handler[OF ok hs, of "(s, sw_next w)"] world_ok_held[OF ok, of "(s, sw_next w)"] by auto
  show ?thesis
    using fresh hs w' by (auto simp: c connected_def is_connected_to_def connection_disconnect_def signal_disconnect_def
        weak_lock_def handler_alive_def connection_empty_def)
qed

theorem connect_disconnect_roundtrip_witness:
  "\<exists>w''. connection_disconnect (hd (snd connection_demo)) (fst connection_demo) = Some (True, connection_empty, w'') \<and>
     sw_handlers w'' = sw_handlers (fst (client_init {0} :: (nat, nat) client_state))"
  using connect_disconnect_roundtrip[OF _ connection_demo_connect, of "{0}" "[]"] by (auto simp: client_init_def)

text \<open>
  Connections may outlive what they refer to. If a signal is destroyed while an invocation is queued, the disconnect of a
  connection, also the one of a manager, locks the mutex of the destroyed signal. And while an invocation is queued a copy of a
  connection stays \<open>connected\<close> after the handler was disconnected, and disconnecting the copy reports success once more.
\<close>

theorem connection_can_outlive_signal:
  "\<exists>(w :: (nat, nat) signal_world) c w' w''.
     client_reach {0} (w, [c]) \<and> signal_destroy 0 w = Some w' \<and> connected w' c \<and> connection_disconnect c w' = None \<and>
     connection_disconnect c w = Some (True, connection_empty, w'') \<and> sw_handlers w'' 0 = Some [] \<and>
     connected w'' c \<and> connection_disconnect c w'' = Some (True, connection_empty, w'')"
proof -
  let ?c = "\<lparr>m_id = Some (0, 0), m_parent = Some 0\<rparr>" and ?v = "fst connection_demo"
  let ?w = "?v\<lparr>sw_held := (sw_held ?v)((0, 0) := sw_held ?v (0, 0) + 1)\<rparr>"
  have c: "snd connection_demo = [?c]" "sw_handlers ?v = (\<lambda>_. None)(0 \<mapsto> [(0, 0)])"
    by (auto simp: connection_demo_simps)
  have "careful_step (?v, [?c]) (?w, [?c])"
    using client_step.queue_invocation[of ?v "(0, 0)" "[(0, 0)]" "[?c]"] by (intro careful_stepI) (simp_all add: c)
  with connection_demo_reach have r: "client_reach {0} (?w, [?c])" by (simp add: c(1))
  have d: "signal_destroy 0 ?w \<noteq> None" by (simp add: signal_destroy_def c(2))
  then obtain w' where w': "signal_destroy 0 ?w = Some w'" by auto
  then have "connected w' ?c" "connection_disconnect ?c w' = None"
    by (auto simp: signal_destroy_def c(2) connected_def weak_lock_def handler_alive_def connection_disconnect_None)
  moreover have "connection_disconnect ?c ?w = Some (True, connection_empty, without_handlers {(0, 0)} ?w)"
    using disconnect_without_reach[OF r, of ?c] by (simp add: connected_def weak_lock_def handler_alive_def)
  moreover have "sw_handlers (without_handlers {(0, 0)} ?w) 0 = Some []" "connected (without_handlers {(0, 0)} ?w) ?c"
    by (simp_all add: without_handlers_def c(2) connected_def weak_lock_def handler_alive_def)
  moreover have "connection_disconnect ?c (without_handlers {(0, 0)} ?w) = Some (True, connection_empty, without_handlers {(0, 0)} ?w)"
  proof -
    have "careful_step (?w, [?c]) (?w, [?c, ?c])" using client_step.copy[of ?c "[?c]" ?w] by (intro careful_stepI) simp_all
    moreover have "client_step (?w, [?c, ?c]) (without_handlers {(0, 0)} ?w, [connection_empty, ?c])"
      using client_step.disconnect[of 0 "[?c, ?c]" ?w True connection_empty "without_handlers {(0, 0)} ?w"]
        disconnect_without_reach[OF r, of ?c] by (simp add: connected_def weak_lock_def handler_alive_def)
    then have "careful_step (?w, [?c, ?c]) (without_handlers {(0, 0)} ?w, [connection_empty, ?c])"
      by (rule careful_stepI) (simp add: without_handlers_def)
    ultimately have "client_reach {0} (without_handlers {(0, 0)} ?w, [connection_empty, ?c])"
      using r by (meson rtranclp.rtrancl_into_rtrancl)
    from disconnect_without_reach[OF this, of ?c] show ?thesis
      by (simp add: without_handlers_Un connected_def weak_lock_def handler_alive_without handler_alive_def)
        (simp add: without_handlers_def)
  qed
  ultimately show ?thesis using r w' by blast
qed

end
