(* ===== verification/Signal_Barrier.thy ===== *)
theory Signal_Barrier
  imports Cancelable
begin

text \<open>
  The barrier for the next raise of a signal (\<open>include/xdispatch/signals_barrier.h\<close>): the value holder, the constructor that
  connects a handler on the parallel default queue, the handler, \<open>wait\<close>, \<open>values\<close> and the destruction of the members.

  The object is shared by the thread that constructs and destroys it, the threads that wait or read the values, the threads
  that emit the signal and those of the pool that execute the handler. A member is \<open>None\<close> outside its lifetime; an
  access to it there is undefined behaviour, the thread ends in \<open>SB_ub\<close>. \<open>sb_connection = Some False\<close> is the empty
  \<open>scoped_connection\<close>. \<open>sb_handler\<close> tells if the handler is in the vector of the signal, \<open>sb_active\<close> is the handler's guard (theory
  \<open>Cancelable\<close>), \<open>sb_queue\<close> the arguments of its queued invocations. The lightweight barrier is used through its specification: \<open>complete\<close> sets the flag,
  \<open>wait\<close> and \<open>was_completed\<close> read it. History: \<open>sb_emits\<close> are the arguments of the raises that reached the handler, \<open>sb_stored\<close> those
  that were stored; \<open>sb_calls\<close> counts the calls of \<open>wait\<close> and \<open>values\<close> in progress.
\<close>

section \<open>The value holder\<close>

text \<open>\<open>bool_pack<bits..., true>\<close> and \<open>bool_pack<true, bits...>\<close> are the same type exactly if all bits are true.\<close>

definition all_true :: "bool list \<Rightarrow> bool" where
  "all_true bits \<longleftrightarrow> bits @ [True] = True # bits"

definition all_default_constructible :: "('t \<Rightarrow> bool) \<Rightarrow> 't list \<Rightarrow> bool" where
  "all_default_constructible is_default_constructible values = all_true (map is_default_constructible values)"

text \<open>The two specialisations: the tuple itself, or a unique pointer to it.\<close>

datatype 'a value_holder = Holder_inline 'a | Holder_ptr "'a option"

definition value_holder_new :: "bool \<Rightarrow> 'a \<Rightarrow> 'a value_holder" where
  "value_holder_new default_constructible d = (if default_constructible then Holder_inline d else Holder_ptr None)"

fun holder_get :: "'a value_holder \<Rightarrow> 'a option" where
  "holder_get (Holder_inline m_values) = Some m_values"
| "holder_get (Holder_ptr m_values) = m_values"

fun holder_set :: "'a \<Rightarrow> 'a value_holder \<Rightarrow> 'a value_holder" where
  "holder_set args (Holder_inline m_values) = Holder_inline args"
| "holder_set args (Holder_ptr m_values) = Holder_ptr (Some args)"

lemma all_true_iff: "all_true bits \<longleftrightarrow> (\<forall>b \<in> set bits. b)"
  by (induction bits) (auto simp: all_true_def)

lemma holder_get_set [simp]: "holder_get (holder_set a h) = Some a"
  by (cases h) simp_all

section \<open>The barrier\<close>

datatype sb_life = Unborn | Constructing | Alive | Destroying | Dead

record 'a signal_barrier =
  sb_life :: sb_life
  sb_barrier :: "bool option"
  sb_connection :: "bool option"
  sb_values :: "'a value_holder option"
  sb_handler :: bool
  sb_active :: cancelable
  sb_queue :: "'a list"
  sb_emits :: "'a list"
  sb_stored :: "'a list"
  sb_calls :: nat

definition signal_barrier_raw :: "'a signal_barrier" where
  "signal_barrier_raw =
     \<lparr>sb_life = Unborn, sb_barrier = None, sb_connection = None, sb_values = None, sb_handler = False,
      sb_active = cancelable_new, sb_queue = [], sb_emits = [], sb_stored = [], sb_calls = 0\<rparr>"

datatype 'a sb_pc =
  SB_idle
| SB_ub
| SBC_connect
| SBC_assign
| SBC_values
| SBW_wait milliseconds
| SBW_ret bool
| SBV_test
| SBV_get
| SBV_ret 'a
| SBV_error
| SBH_scope can_pc 'a
| SBH_set 'a
| SBH_disconnect 'a
| SBH_disable 'a
| SBH_reset 'a
| SBH_complete 'a
| SBD_values
| SBD_connection
| SBD_disable can_pc
| SBD_reset
| SBD_barrier

datatype 'a sb_event =
  SBE_construct
| SBE_wait milliseconds
| SBE_timeout
| SBE_values
| SBE_destroy
| SBE_raise 'a
| SBE_begin nat
| SBE_step

text \<open>The client is between calls.\<close>

fun sb_ready :: "'a sb_pc \<Rightarrow> bool" where
  "sb_ready SB_idle = True"
| "sb_ready (SBW_ret r) = True"
| "sb_ready (SBV_ret a) = True"
| "sb_ready SBV_error = True"
| "sb_ready _ = False"

abbreviation sb_done :: "'a signal_barrier \<Rightarrow> 'a signal_barrier" where
  "sb_done m \<equiv> m\<lparr>sb_calls := sb_calls m - 1\<rparr>"

text \<open>
  The constructor initialises the members in the order of their declaration: the handler is connected (\<open>SBC_connect\<close>) before
  \<open>m_connection\<close> holds the connection (\<open>SBC_assign\<close>) and before \<open>m_values\<close> exists (\<open>SBC_values\<close>). The handler stores the
  values, disconnects itself (\<open>SBH_disconnect\<close> to \<open>SBH_reset\<close>: the handler leaves the vector, the recursion branch of \<open>disable\<close>, the
  connection becomes empty) and completes the barrier. The destructor destroys the members in the reverse order.
\<close>

fun sb_exec ::
  "bool \<Rightarrow> 'a \<Rightarrow> 'a signal_barrier \<Rightarrow> 'a sb_pc \<Rightarrow> ('a signal_barrier \<times> 'a sb_pc) option"
where
  "sb_exec dc d m SBC_connect = Some (m\<lparr>sb_handler := True\<rparr>, SBC_assign)"
| "sb_exec dc d m SBC_assign = Some (m\<lparr>sb_connection := Some True\<rparr>, SBC_values)"
| "sb_exec dc d m SBC_values = Some (m\<lparr>sb_values := Some (value_holder_new dc d), sb_life := Alive\<rparr>, SB_idle)"
| "sb_exec dc d m (SBW_wait timeout) =
     (case sb_barrier m of
        None \<Rightarrow> Some (m, SB_ub)
      | Some c \<Rightarrow> if c then Some (sb_done m, SBW_ret True) else None)"
| "sb_exec dc d m SBV_test =
     (case sb_barrier m of
        None \<Rightarrow> Some (m, SB_ub)
      | Some c \<Rightarrow> if c then Some (m, SBV_get) else Some (sb_done m, SBV_error))"
| "sb_exec dc d m SBV_get =
     (case Option.bind (sb_values m) holder_get of
        None \<Rightarrow> Some (m, SB_ub)
      | Some a \<Rightarrow> Some (sb_done m, SBV_ret a))"
| "sb_exec dc d m (SBH_scope cp a) =
     (case can_exec (sb_active m) cp of
        None \<Rightarrow> None
      | Some (c, cp') \<Rightarrow>
          Some (m\<lparr>sb_active := c\<rparr>,
                if cp' = CP_body then SBH_set a else if cp' = CP_idle then SB_idle else SBH_scope cp' a))"
| "sb_exec dc d m (SBH_set a) =
     (case sb_values m of
        None \<Rightarrow> Some (m, SB_ub)
      | Some h \<Rightarrow> Some (m\<lparr>sb_values := Some (holder_set a h), sb_stored := sb_stored m @ [a]\<rparr>, SBH_disconnect a))"
| "sb_exec dc d m (SBH_disconnect a) =
     (case sb_connection m of
        None \<Rightarrow> Some (m, SB_ub)
      | Some c \<Rightarrow> if c then Some (m\<lparr>sb_handler := False\<rparr>, SBH_disable a) else Some (m, SBH_reset a))"
| "sb_exec dc d m (SBH_disable a) =
     (case can_exec (sb_active m) CP_nested of
        None \<Rightarrow> None
      | Some (c, cp') \<Rightarrow> Some (m\<lparr>sb_active := c\<rparr>, SBH_reset a))"
| "sb_exec dc d m (SBH_reset a) =
     (case sb_connection m of
        None \<Rightarrow> Some (m, SB_ub)
      | Some c \<Rightarrow> Some (m\<lparr>sb_connection := Some False\<rparr>, SBH_complete a))"
| "sb_exec dc d m (SBH_complete a) =
     (case sb_barrier m of
        None \<Rightarrow> Some (m, SB_ub)
      | Some c \<Rightarrow> Some (m\<lparr>sb_barrier := Some True\<rparr>, SBH_scope CP_leave a))"
| "sb_exec dc d m SBD_values = Some (m\<lparr>sb_values := None\<rparr>, SBD_connection)"
| "sb_exec dc d m SBD_connection =
     (if sb_connection m = Some True then Some (m\<lparr>sb_handler := False\<rparr>, SBD_disable CP_disable)
      else Some (m, SBD_reset))"
| "sb_exec dc d m (SBD_disable cp) =
     (case can_exec (sb_active m) cp of
        None \<Rightarrow> None
      | Some (c, cp') \<Rightarrow> Some (m\<lparr>sb_active := c\<rparr>, if cp' = CP_idle then SBD_reset else SBD_disable cp'))"
| "sb_exec dc d m SBD_reset = Some (m\<lparr>sb_connection := None\<rparr>, SBD_barrier)"
| "sb_exec dc d m SBD_barrier = Some (m\<lparr>sb_barrier := None, sb_life := Dead\<rparr>, SB_idle)"
| "sb_exec dc d m _ = None"

text \<open>
  What a careful client does: it does not raise the signal while the barrier is constructed, and destroys the barrier
  once it is completed and no call of \<open>wait\<close> or \<open>values\<close> is in progress.
\<close>

fun sb_careful :: "'a signal_barrier \<Rightarrow> 'a sb_event \<Rightarrow> bool" where
  "sb_careful m (SBE_raise a) = (sb_life m \<noteq> Constructing)"
| "sb_careful m SBE_destroy = (sb_barrier m = Some True \<and> sb_calls m = 0)"
| "sb_careful m _ = True"

text \<open>\<open>SBE_begin k\<close>: the parallel queue begins the \<open>k\<close>-th of the queued invocations of the handler.\<close>

fun sb_request ::
  "'a sb_event \<Rightarrow> 'a signal_barrier \<Rightarrow> 'a sb_pc \<Rightarrow> ('a signal_barrier \<times> 'a sb_pc) option"
where
  "sb_request SBE_construct m pc =
     (if sb_ready pc \<and> sb_life m = Unborn then Some (m\<lparr>sb_life := Constructing, sb_barrier := Some False\<rparr>, SBC_connect) else None)"
| "sb_request (SBE_wait timeout) m pc =
     (if sb_ready pc \<and> sb_life m = Alive then Some (m\<lparr>sb_calls := sb_calls m + 1\<rparr>, SBW_wait timeout) else None)"
| "sb_request SBE_timeout m pc =
     (case pc of
        SBW_wait timeout \<Rightarrow>
          if timeout \<noteq> -1 then
            (case sb_barrier m of None \<Rightarrow> Some (m, SB_ub) | Some c \<Rightarrow> Some (sb_done m, SBW_ret c))
          else None
      | _ \<Rightarrow> None)"
| "sb_request SBE_values m pc =
     (if sb_ready pc \<and> sb_life m = Alive then Some (m\<lparr>sb_calls := sb_calls m + 1\<rparr>, SBV_test) else None)"
| "sb_request SBE_destroy m pc =
     (if sb_ready pc \<and> sb_life m = Alive then Some (m\<lparr>sb_life := Destroying\<rparr>, SBD_values) else None)"
| "sb_request (SBE_raise a) m pc =
     (if sb_ready pc then
        Some (if sb_handler m then m\<lparr>sb_queue := sb_queue m @ [a], sb_emits := sb_emits m @ [a]\<rparr> else m, pc)
      else None)"
| "sb_request (SBE_begin k) m pc =
     (if sb_ready pc \<and> k < length (sb_queue m)
      then Some (m\<lparr>sb_queue := take k (sb_queue m) @ drop (Suc k) (sb_queue m)\<rparr>, SBH_scope CP_enter (sb_queue m ! k))
      else None)"
| "sb_request SBE_step m pc = None"

definition sb_local ::
  "bool \<Rightarrow> 'a \<Rightarrow> bool \<Rightarrow> tid \<Rightarrow> 'a sb_event \<Rightarrow> 'a signal_barrier \<Rightarrow> 'a sb_pc \<Rightarrow> ('a signal_barrier \<times> 'a sb_pc) option"
where
  "sb_local dc d careful t e m pc =
     (if careful \<and> \<not> sb_careful m e then None
      else if e = SBE_step then sb_exec dc d m pc else sb_request e m pc)"

type_synonym 'a sb_sys = "('a signal_barrier, 'a sb_pc) sys"

abbreviation sb_step :: "bool \<Rightarrow> 'a \<Rightarrow> bool \<Rightarrow> 'a sb_sys \<Rightarrow> tid \<times> 'a sb_event \<Rightarrow> 'a sb_sys option" where
  "sb_step dc d careful \<equiv> sys_step (sb_local dc d careful)"

definition sb_init :: "nat \<Rightarrow> 'a sb_sys" where
  "sb_init n = (signal_barrier_raw, replicate n SB_idle)"


section \<open>The invariant of a careful client\<close>

text \<open>
  The regions of the threads: at most one thread constructs, executes the handler's function or destroys (\<open>sb_only\<close>), and
  where it is decides the state of the members (\<open>sb_phase\<close>).
\<close>

datatype sb_region =
  RB_connect | RB_assign | RB_values | RB_set | RB_disconnect | RB_disable | RB_reset | RB_complete
| RB_dvalues | RB_dconnection | RB_dreset | RB_dbarrier | RB_call | RB_enter

fun sb_region_of :: "'a sb_pc \<Rightarrow> sb_region option" where
  "sb_region_of SBC_connect = Some RB_connect"
| "sb_region_of SBC_assign = Some RB_assign"
| "sb_region_of SBC_values = Some RB_values"
| "sb_region_of (SBH_set a) = Some RB_set"
| "sb_region_of (SBH_disconnect a) = Some RB_disconnect"
| "sb_region_of (SBH_disable a) = Some RB_disable"
| "sb_region_of (SBH_reset a) = Some RB_reset"
| "sb_region_of (SBH_complete a) = Some RB_complete"
| "sb_region_of SBD_values = Some RB_dvalues"
| "sb_region_of SBD_connection = Some RB_dconnection"
| "sb_region_of SBD_reset = Some RB_dreset"
| "sb_region_of SBD_barrier = Some RB_dbarrier"
| "sb_region_of (SBW_wait timeout) = Some RB_call"
| "sb_region_of SBV_test = Some RB_call"
| "sb_region_of SBV_get = Some RB_call"
| "sb_region_of (SBH_scope cp a) = (if cp = CP_enter then Some RB_enter else None)"
| "sb_region_of _ = None"

definition sb_weight :: "sb_region \<Rightarrow> 'a sb_pc \<Rightarrow> int" where
  "sb_weight r pc = (if sb_region_of pc = Some r then 1 else 0)"

text \<open>Any number of threads is in a call of \<open>wait\<close> or \<open>values\<close> or about to enter the guarded scope.\<close>

definition sb_many :: "sb_region \<Rightarrow> bool" where
  "sb_many k \<longleftrightarrow> k = RB_call \<or> k = RB_enter"

definition sb_only :: "sb_region option \<Rightarrow> (sb_region \<Rightarrow> int) \<Rightarrow> bool" where
  "sb_only r n \<longleftrightarrow> (\<forall>k. \<not> sb_many k \<longrightarrow> n k = (if r = Some k then 1 else 0))"

abbreviation sb_fresh :: "'a signal_barrier \<Rightarrow> bool" where
  "sb_fresh m \<equiv> sb_active m = cancelable_new \<and> sb_queue m = [] \<and> sb_emits m = [] \<and> sb_stored m = []"

abbreviation sb_filled :: "'a signal_barrier \<Rightarrow> bool" where
  "sb_filled m \<equiv> \<exists>a h. sb_stored m = [a] \<and> a \<in> set (sb_emits m) \<and> sb_values m = Some h \<and> holder_get h = Some a"

abbreviation sb_finished :: "'a signal_barrier \<Rightarrow> bool" where
  "sb_finished m \<equiv>
     \<not> sb_handler m \<and> m_active (sb_active m) = active_disabled \<and> (\<exists>a. sb_stored m = [a] \<and> a \<in> set (sb_emits m))"

fun sb_phase :: "'a signal_barrier \<Rightarrow> sb_region option \<Rightarrow> bool" where
  "sb_phase m None \<longleftrightarrow>
     sb_life m = Unborn \<and> sb_fresh m \<and> \<not> sb_handler m \<or>
     sb_life m = Alive \<and> sb_barrier m = Some False \<and> sb_connection m = Some True \<and> sb_values m \<noteq> None \<and> sb_handler m \<and>
       m_active (sb_active m) = active_enabled \<and> sb_stored m = [] \<or>
     sb_life m = Alive \<and> sb_barrier m = Some True \<and> sb_connection m = Some False \<and> sb_filled m \<and> sb_finished m \<or>
     sb_life m = Dead \<and> sb_finished m"
| "sb_phase m (Some RB_connect) \<longleftrightarrow> sb_life m = Constructing \<and> sb_barrier m = Some False \<and> sb_fresh m \<and> \<not> sb_handler m"
| "sb_phase m (Some RB_assign) \<longleftrightarrow> sb_life m = Constructing \<and> sb_barrier m = Some False \<and> sb_fresh m \<and> sb_handler m"
| "sb_phase m (Some RB_values) \<longleftrightarrow>
     sb_life m = Constructing \<and> sb_barrier m = Some False \<and> sb_connection m = Some True \<and> sb_fresh m \<and> sb_handler m"
| "sb_phase m (Some RB_set) \<longleftrightarrow>
     sb_life m = Alive \<and> sb_barrier m = Some False \<and> sb_connection m = Some True \<and> sb_values m \<noteq> None \<and> sb_handler m \<and>
     m_active (sb_active m) = active_running \<and> sb_stored m = []"
| "sb_phase m (Some RB_disconnect) \<longleftrightarrow>
     sb_life m = Alive \<and> sb_barrier m = Some False \<and> sb_connection m = Some True \<and> sb_filled m \<and>
     m_active (sb_active m) = active_running"
| "sb_phase m (Some RB_disable) \<longleftrightarrow>
     sb_life m = Alive \<and> sb_barrier m = Some False \<and> sb_connection m = Some True \<and> sb_filled m \<and>
     m_active (sb_active m) = active_running \<and> \<not> sb_handler m"
| "sb_phase m (Some RB_reset) \<longleftrightarrow>
     sb_life m = Alive \<and> sb_barrier m = Some False \<and> sb_connection m = Some True \<and> sb_filled m \<and> sb_finished m"
| "sb_phase m (Some RB_complete) \<longleftrightarrow>
     sb_life m = Alive \<and> sb_barrier m = Some False \<and> sb_connection m = Some False \<and> sb_filled m \<and> sb_finished m"
| "sb_phase m (Some RB_dvalues) \<longleftrightarrow> sb_life m = Destroying \<and> sb_connection m = Some False \<and> sb_finished m"
| "sb_phase m (Some RB_dconnection) \<longleftrightarrow> sb_life m = Destroying \<and> sb_connection m = Some False \<and> sb_finished m"
| "sb_phase m (Some RB_dreset) \<longleftrightarrow> sb_life m = Destroying \<and> sb_finished m"
| "sb_phase m (Some RB_dbarrier) \<longleftrightarrow> sb_life m = Destroying \<and> sb_finished m"
| "sb_phase m (Some RB_call) = False"
| "sb_phase m (Some RB_enter) = False"

definition sb_sh_ok :: "'a signal_barrier \<Rightarrow> (sb_region \<Rightarrow> int) \<Rightarrow> bool" where
  "sb_sh_ok m n \<longleftrightarrow>
     int (sb_calls m) = n RB_call \<and> (0 < sb_calls m \<longrightarrow> sb_life m = Alive) \<and>
     set (sb_queue m) \<subseteq> set (sb_emits m) \<and>
     (sb_emits m \<noteq> [] \<and> sb_stored m = [] \<longrightarrow> sb_queue m \<noteq> [] \<or> 0 < n RB_enter \<or> 0 < n RB_set) \<and>
     (\<exists>r. sb_only r n \<and> sb_phase m r)"

fun sb_pc_ok :: "'a signal_barrier \<Rightarrow> 'a sb_pc \<Rightarrow> bool" where
  "sb_pc_ok m SB_ub = False"
| "sb_pc_ok m (SBW_ret r) = (r \<longrightarrow> sb_stored m \<noteq> [])"
| "sb_pc_ok m SBV_get = (sb_barrier m = Some True)"
| "sb_pc_ok m (SBV_ret a) = (sb_stored m = [a])"
| "sb_pc_ok m (SBH_scope cp a) =
     (a \<in> set (sb_emits m) \<and>
      (cp = CP_enter \<or> cp = CP_refused \<or> cp = CP_complete \<or> cp = CP_leave \<and> m_active (sb_active m) = active_disabled))"
| "sb_pc_ok m (SBH_set a) = (a \<in> set (sb_emits m))"
| "sb_pc_ok m (SBH_disconnect a) = (a \<in> set (sb_emits m))"
| "sb_pc_ok m (SBH_disable a) = (a \<in> set (sb_emits m))"
| "sb_pc_ok m (SBH_reset a) = (a \<in> set (sb_emits m))"
| "sb_pc_ok m (SBH_complete a) = (a \<in> set (sb_emits m))"
| "sb_pc_ok m (SBD_disable cp) = False"
| "sb_pc_ok m _ = True"

lemma sb_weight_simps [simp]: "0 \<le> sb_weight k pc" "sb_weight k pc \<le> 1"
  by (simp_all add: sb_weight_def)

lemma sb_only_cases:
  assumes "sb_only r (\<lambda>k. n k + sb_weight k pc)" and "\<And>k. 0 \<le> n k" and "sb_region_of pc = Some k" and "\<not> sb_many k"
  shows "r = Some k" and "sb_only None n"
proof -
  have nk: "\<not> sb_many j \<Longrightarrow> n j + sb_weight j pc = (if r = Some j then 1 else 0)" for j
    using assms(1) by (simp add: sb_only_def)
  from nk[OF assms(4)] assms(2)[of k] assms(3) show r: "r = Some k"
    by (auto simp: sb_weight_def split: if_splits)
  show "sb_only None n"
    unfolding sb_only_def
  proof (intro allI impI)
    fix j assume "\<not> sb_many j"
    from nk[OF this] r assms(3) show "n j = (if None = Some j then 1 else 0)"
      by (auto simp: sb_weight_def split: if_splits)
  qed
qed

lemma sb_only_none:
  assumes "sb_only r (\<lambda>k. n k + sb_weight k pc)" and "\<And>k. sb_region_of pc = Some k \<Longrightarrow> sb_many k"
  shows "sb_only r n"
  using assms by (force simp: sb_only_def sb_weight_def)

lemma sb_only_add:
  "sb_only None n \<Longrightarrow> sb_region_of pc = Some k \<Longrightarrow> \<not> sb_many k \<Longrightarrow> sb_only (Some k) (\<lambda>k. n k + sb_weight k pc)"
  "sb_only r n \<Longrightarrow> (\<And>k. sb_region_of pc = Some k \<Longrightarrow> sb_many k) \<Longrightarrow> sb_only r (\<lambda>k. n k + sb_weight k pc)"
  by (force simp: sb_only_def sb_weight_def)+


lemma sb_pc_ok_mono:
  assumes "sb_pc_ok m p"
    and "sb_stored m \<noteq> [] \<Longrightarrow> sb_stored m' = sb_stored m" and "set (sb_emits m) \<subseteq> set (sb_emits m')"
    and "m_active (sb_active m) = active_disabled \<Longrightarrow> m_active (sb_active m') = active_disabled"
    and "sb_barrier m = Some True \<Longrightarrow> sb_region_of p = Some RB_call \<Longrightarrow> sb_barrier m' = Some True"
  shows "sb_pc_ok m' p"
  using assms by (cases p) auto

text \<open>The three parts of a step: the shared state, the thread itself and what the other threads rely on.\<close>

definition sb_good :: "(sb_region \<Rightarrow> int) \<Rightarrow> 'a signal_barrier \<Rightarrow> 'a signal_barrier \<Rightarrow> 'a sb_pc \<Rightarrow> bool" where
  "sb_good n m m' pc' \<longleftrightarrow>
     sb_sh_ok m' (\<lambda>k. n k + sb_weight k pc') \<and> sb_pc_ok m' pc' \<and>
     (sb_stored m \<noteq> [] \<longrightarrow> sb_stored m' = sb_stored m) \<and> set (sb_emits m) \<subseteq> set (sb_emits m') \<and>
     (m_active (sb_active m) = active_disabled \<longrightarrow> m_active (sb_active m') = active_disabled) \<and>
     (sb_barrier m = Some True \<longrightarrow> sb_barrier m' = Some True \<or> n RB_call = 0)"

lemma sb_goodI:
  assumes "sb_only r n" "sb_pc_ok m' pc'"
    and "(case sb_region_of pc' of None \<Rightarrow> sb_phase m' r
          | Some k \<Rightarrow> if sb_many k then sb_phase m' r else r = None \<and> sb_phase m' (Some k))"
    and "sb_emits m' \<noteq> [] \<Longrightarrow> sb_stored m' = [] \<Longrightarrow>
           sb_queue m' \<noteq> [] \<or> 0 < n RB_enter + sb_weight RB_enter pc' \<or> 0 < n RB_set + sb_weight RB_set pc'"
    and "int (sb_calls m') = n RB_call + sb_weight RB_call pc'" "0 < sb_calls m' \<longrightarrow> sb_life m' = Alive"
    and "set (sb_queue m') \<subseteq> set (sb_emits m')"
    and "sb_stored m \<noteq> [] \<longrightarrow> sb_stored m' = sb_stored m" "set (sb_emits m) \<subseteq> set (sb_emits m')"
    and "m_active (sb_active m) = active_disabled \<longrightarrow> m_active (sb_active m') = active_disabled"
    and "sb_barrier m = Some True \<longrightarrow> sb_barrier m' = Some True \<or> n RB_call = 0"
  shows "sb_good n m m' pc'"
proof -
  from assms(3) have "\<exists>r. sb_only r (\<lambda>k. n k + sb_weight k pc') \<and> sb_phase m' r"
    using sb_only_add(1)[of n pc'] sb_only_add(2)[of r n pc'] assms(1) by (auto split: option.splits if_splits)
  then show ?thesis using assms by (simp add: sb_good_def sb_sh_ok_def)
qed

lemma sb_phase_frame [simp]:
  "sb_phase (m\<lparr>sb_calls := c\<rparr>) r = sb_phase m r"
  by (cases r; cases "the r") auto

lemma sb_alive_barrier:
  assumes "sb_phase m r" and "sb_life m = Alive"
  shows "\<exists>c. sb_barrier m = Some c \<and> (c \<longrightarrow> sb_filled m)"
  using assms by (cases r; cases "the r") auto

lemma sb_exec_good:
  assumes e: "sb_exec dc d m pc = Some (m', pc')"
    and s: "sb_sh_ok m (\<lambda>k. n k + sb_weight k pc)" and p: "sb_pc_ok m pc" and n: "\<And>k. 0 \<le> n k"
  shows "sb_good n m m' pc'"
proof -
  obtain r where calls: "int (sb_calls m) = n RB_call + sb_weight RB_call pc" and alive: "0 < sb_calls m \<longrightarrow> sb_life m = Alive"
    and q: "set (sb_queue m) \<subseteq> set (sb_emits m)"
    and live: "sb_emits m \<noteq> [] \<Longrightarrow> sb_stored m = [] \<Longrightarrow>
      sb_queue m \<noteq> [] \<or> 0 < n RB_enter + sb_weight RB_enter pc \<or> 0 < n RB_set + sb_weight RB_set pc"
    and r: "sb_only r (\<lambda>k. n k + sb_weight k pc)" and ph: "sb_phase m r"
    using s by (auto simp: sb_sh_ok_def)
  show ?thesis
  proof (cases "\<exists>k. sb_region_of pc = Some k \<and> \<not> sb_many k")
    case True
    then obtain k where k: "sb_region_of pc = Some k" "\<not> sb_many k" by blast
    from sb_only_cases[OF r n k] have rk: "r = Some k" and none: "sb_only None n" by blast+
    have w: "sb_weight RB_call pc = 0" "sb_weight RB_enter pc = 0" using k by (auto simp: sb_weight_def sb_many_def)
    show ?thesis

    proof (cases pc)
      case (SBC_connect)
      then show ?thesis using e calls alive q live ph p k w unfolding rk
        by (clarsimp; intro sb_goodI[OF none]; simp add: sb_weight_def sb_many_def cancelable_new_def)
    next
      case (SBC_assign)
      then show ?thesis using e calls alive q live ph p k w unfolding rk
        by (clarsimp; intro sb_goodI[OF none]; simp add: sb_weight_def sb_many_def cancelable_new_def)
    next
      case (SBC_values)
      then show ?thesis using e calls alive q live ph p k w unfolding rk
        by (clarsimp; intro sb_goodI[OF none]; simp add: sb_weight_def sb_many_def cancelable_new_def)
    next
      case (SBH_set a)
      then show ?thesis using e calls alive q live ph p k w unfolding rk
        by (clarsimp; intro sb_goodI[OF none]; simp add: sb_weight_def sb_many_def cancelable_new_def)
    next
      case (SBH_disconnect a)
      then show ?thesis using e calls alive q live ph p k w unfolding rk
        by (clarsimp; intro sb_goodI[OF none]; simp add: sb_weight_def sb_many_def cancelable_new_def)
    next
      case (SBH_disable a)
      then show ?thesis using e calls alive q live ph p k w unfolding rk
        by (clarsimp; intro sb_goodI[OF none]; simp add: sb_weight_def sb_many_def cancelable_new_def)
    next
      case (SBH_reset a)
      then show ?thesis using e calls alive q live ph p k w unfolding rk
        by (clarsimp; intro sb_goodI[OF none]; simp add: sb_weight_def sb_many_def cancelable_new_def)
    next
      case (SBH_complete a)
      then show ?thesis using e calls alive q live ph p k w unfolding rk
        by (clarsimp; intro sb_goodI[OF none]; simp add: sb_weight_def sb_many_def cancelable_new_def)
    next
      case (SBD_values)
      then show ?thesis using e calls alive q live ph p k w unfolding rk
        by (clarsimp; intro sb_goodI[OF none]; simp add: sb_weight_def sb_many_def cancelable_new_def)
    next
      case (SBD_connection)
      then show ?thesis using e calls alive q live ph p k w unfolding rk
        by (clarsimp; intro sb_goodI[OF none]; simp add: sb_weight_def sb_many_def cancelable_new_def)
    next
      case (SBD_reset)
      then show ?thesis using e calls alive q live ph p k w unfolding rk
        by (clarsimp; intro sb_goodI[OF none]; simp add: sb_weight_def sb_many_def cancelable_new_def)
    next
      case (SBD_barrier)
      then show ?thesis using e calls alive q live ph p k w unfolding rk
        by (clarsimp; intro sb_goodI[OF none]; simp add: sb_weight_def sb_many_def cancelable_new_def)
    qed (use k in \<open>auto simp: sb_many_def split: if_splits\<close>)
  next
    case False
    then have "sb_only r n" by (intro sb_only_none[OF r]) blast
    have w: "sb_weight RB_call pc = (if sb_region_of pc = Some RB_call then 1 else 0)" by (simp add: sb_weight_def)
    note only = \<open>sb_only r n\<close>
    have c: "\<exists>c. sb_barrier m = Some c \<and> (c \<longrightarrow> sb_filled m)" if "sb_region_of pc = Some RB_call"
      using sb_alive_barrier[OF ph] calls alive n[of RB_call] that by (simp add: sb_weight_def)
    show ?thesis
    proof (cases pc)
      case (SBW_wait timeout)
      then show ?thesis using e calls alive q live ph c p w n[of RB_call]
        by (clarsimp split: if_splits; intro sb_goodI[OF only]; auto simp: sb_weight_def sb_many_def)
    next
      case SBV_test
      then show ?thesis using e calls alive q live ph c p w n[of RB_call]
        by (clarsimp split: if_splits; intro sb_goodI[OF only]; auto simp: sb_weight_def sb_many_def)
    next
      case SBV_get
      then show ?thesis using e calls alive q live ph c p w n[of RB_call]
        by (clarsimp split: if_splits; intro sb_goodI[OF only]; auto simp: sb_weight_def sb_many_def)
    next
      case (SBH_scope cp a)
      have a: "a \<in> set (sb_emits m)" using p SBH_scope by simp
      have c: "cp = CP_enter \<or> cp = CP_refused \<or> cp = CP_complete \<or> cp = CP_leave \<and> m_active (sb_active m) = active_disabled"
        using p SBH_scope by simp
      show ?thesis
      proof (cases "cp = CP_enter \<and> m_active (sb_active m) = active_enabled")
        case True
        then have "r = None" using ph a by (cases r; cases "the r") auto
        then show ?thesis using True SBH_scope a e calls alive q live ph w n[of RB_enter] n[of RB_set]
          by (clarsimp; intro sb_goodI[OF only]; clarsimp simp: sb_weight_def sb_many_def)
      next
        case False
        have fr: "\<not> sb_fresh m" using a by auto
        obtain c' cp' where c': "can_exec (sb_active m) cp = Some (c', cp')" "m' = m\<lparr>sb_active := c'\<rparr>"
          "m_active c' = m_active (sb_active m)" "pc' = (if cp' = CP_idle then SB_idle else SBH_scope cp' a)"
          "cp' = CP_idle \<or> cp' = CP_refused \<or> cp' = CP_complete"
          using c e SBH_scope False by (auto split: if_splits)
        have "sb_phase m' r" using ph fr c'(2,3) by (cases r; cases "the r") auto
        moreover have "sb_queue m \<noteq> [] \<or> 0 < n RB_enter \<or> 0 < n RB_set" if "sb_emits m \<noteq> []" "sb_stored m = []"
        proof (cases "cp = CP_enter")
          case True
          then have "r = Some RB_set" using ph fr False that by (cases r; cases "the r") auto
          then show ?thesis using only by (simp add: sb_only_def sb_many_def)
        next
          case False
          then show ?thesis using live[OF that] SBH_scope by (simp add: sb_weight_def)
        qed
        ultimately show ?thesis using SBH_scope a calls alive q w c'
          by (intro sb_goodI[OF only]) (auto simp: sb_weight_def sb_many_def)
      qed
    next
      case (SBD_disable cp)
      then show ?thesis using p by simp
    qed (use e False in \<open>simp_all add: sb_many_def\<close>)
  qed
qed


lemma sb_phase_raise [simp]:
  assumes "sb_life m \<noteq> Constructing" "sb_handler m"
  shows "sb_phase m r \<Longrightarrow> sb_phase (m\<lparr>sb_queue := q, sb_emits := sb_emits m @ [a]\<rparr>) r"
  using assms by (cases r; cases "the r") auto

lemma sb_phase_begin:
  assumes "sb_queue m \<noteq> []"
  shows "sb_phase m r \<Longrightarrow> sb_phase (m\<lparr>sb_queue := q\<rparr>) r"
  using assms by (cases r; cases "the r") auto

lemma sb_phase_raw: "sb_sh_ok signal_barrier_raw (\<lambda>_. 0)"
  unfolding sb_sh_ok_def by (intro conjI exI[of _ None]) (simp_all add: sb_only_def signal_barrier_raw_def)

lemma sb_ready_region: "sb_ready pc \<Longrightarrow> sb_region_of pc = None"
  by (cases pc) auto

lemma sb_request_good:
  assumes e: "sb_request e m pc = Some (m', pc')" and c: "sb_careful m e"
    and s: "sb_sh_ok m (\<lambda>k. n k + sb_weight k pc)" and p: "sb_pc_ok m pc" and n: "\<And>k. 0 \<le> n k"
  shows "sb_good n m m' pc'"
proof -
  obtain r where calls: "int (sb_calls m) = n RB_call + sb_weight RB_call pc" and alive: "0 < sb_calls m \<longrightarrow> sb_life m = Alive"
    and q: "set (sb_queue m) \<subseteq> set (sb_emits m)"
    and live: "sb_emits m \<noteq> [] \<Longrightarrow> sb_stored m = [] \<Longrightarrow>
      sb_queue m \<noteq> [] \<or> 0 < n RB_enter + sb_weight RB_enter pc \<or> 0 < n RB_set + sb_weight RB_set pc"
    and r: "sb_only r (\<lambda>k. n k + sb_weight k pc)" and ph: "sb_phase m r"
    using s by (auto simp: sb_sh_ok_def)
  show ?thesis
  proof (cases "e = SBE_timeout")
    case True
    then obtain timeout where pc: "pc = SBW_wait timeout" using e by (auto split: sb_pc.splits)
    then have only: "sb_only r n" using sb_only_none[OF r] by (simp add: sb_many_def)
    obtain b where "sb_barrier m = Some b" "b \<longrightarrow> sb_filled m"
      using sb_alive_barrier[OF ph] calls alive n[of RB_call] pc by (auto simp: sb_weight_def sb_many_def)
    then show ?thesis using e True pc calls alive q live ph n[of RB_call]
      by (clarsimp split: if_splits; intro sb_goodI[OF only]; auto simp: sb_weight_def sb_many_def)
  next
    case False
    then have ready: "sb_ready pc" using e by (cases e) (auto split: if_splits)
    then have reg: "sb_region_of pc = None" and w: "sb_weight RB_call pc = 0" and w': "\<And>k. sb_weight k pc = 0"
      by (auto simp: sb_weight_def dest: sb_ready_region)
    have only: "sb_only r n" using sb_only_none[OF r] reg by simp
    have live: "sb_emits m \<noteq> [] \<Longrightarrow> sb_stored m = [] \<Longrightarrow> sb_queue m \<noteq> [] \<or> 0 < n RB_enter \<or> 0 < n RB_set"
      using live by (simp add: w')
    have none: "r = None" if "sb_life m = Unborn \<or> sb_barrier m = Some True \<and> sb_life m = Alive"
      using that ph by (cases r; cases "the r") auto
    show ?thesis
    proof (cases e)
      case SBE_construct
      then show ?thesis using e c calls alive q live ph none only w
        by (clarsimp split: if_splits; intro sb_goodI; auto simp: sb_weight_def sb_many_def)
    next
      case (SBE_wait timeout)
      then show ?thesis using e c calls alive q live ph w
        by (clarsimp split: if_splits; intro sb_goodI[OF only]; auto simp: sb_weight_def sb_many_def)
    next
      case SBE_values
      then show ?thesis using e c calls alive q live ph w
        by (clarsimp split: if_splits; intro sb_goodI[OF only]; auto simp: sb_weight_def sb_many_def)
    next
      case SBE_destroy
      then show ?thesis using e c calls alive q live ph none only w
        by (clarsimp split: if_splits; intro sb_goodI; auto simp: sb_weight_def sb_many_def)
    next
      case (SBE_raise a)
      then have m': "m' = (if sb_handler m then m\<lparr>sb_queue := sb_queue m @ [a], sb_emits := sb_emits m @ [a]\<rparr> else m)"
        and pc': "pc' = pc" using e by (auto split: if_splits)
      have "sb_life m \<noteq> Constructing" using c SBE_raise by simp
      then have "sb_phase m' r" using ph sb_phase_raise[of m r] by (auto simp: m')
      moreover have "sb_pc_ok m' pc'" using p unfolding pc' by (rule sb_pc_ok_mono) (auto simp: m')
      ultimately show ?thesis using calls alive q live reg
        by (intro sb_goodI[OF only]) (auto simp: m' pc' sb_many_def sb_weight_def)
    next
      case (SBE_begin k)
      then have m': "m' = m\<lparr>sb_queue := take k (sb_queue m) @ drop (Suc k) (sb_queue m)\<rparr>"
        and pc': "pc' = SBH_scope CP_enter (sb_queue m ! k)" and k: "k < length (sb_queue m)" using e by (auto split: if_splits)
      have "sb_queue m \<noteq> []" using k by auto
      then have "sb_phase m' r" unfolding m' using ph by (rule sb_phase_begin)
      then show ?thesis using calls alive q live w k
        using n[of RB_enter]
        by (intro sb_goodI[OF only]) (auto simp: m' pc' sb_many_def sb_weight_def dest: in_set_takeD in_set_dropD)
    qed (use e False in simp_all)
  qed
qed

interpretation sb_invariant: counting_system "sb_local dc d True" "\<lambda>_. True" sb_weight sb_sh_ok "\<lambda>m n. sb_pc_ok m" for dc d
proof
  fix k and pc :: "'a sb_pc" show "0 \<le> sb_weight k pc" by simp
next
  fix t e and m :: "'a signal_barrier" and pc m' pc' and n :: "sb_region \<Rightarrow> int"
  assume l: "sb_local dc d True t e m pc = Some (m', pc')" and n: "\<And>k. 0 \<le> n k"
    and s: "sb_sh_ok m (\<lambda>k. n k + sb_weight k pc)" and p: "sb_pc_ok m pc"
  have c: "sb_careful m e" using l by (auto simp: sb_local_def split: if_splits)
  have "sb_exec dc d m pc = Some (m', pc') \<or> sb_request e m pc = Some (m', pc')"
    using l by (auto simp: sb_local_def split: if_splits)
  then have g: "sb_good n m m' pc'"
    using sb_exec_good[OF _ s p n] sb_request_good[OF _ c s p n] by blast
  have "sb_pc_ok m' q" if "\<And>k. sb_weight k q \<le> n k" "sb_pc_ok m q" for q
  proof (rule sb_pc_ok_mono[OF that(2)])
    assume "sb_barrier m = Some True" "sb_region_of q = Some RB_call"
    then show "sb_barrier m' = Some True" using g that(1)[of RB_call] by (auto simp: sb_good_def sb_weight_def)
  qed (use g in \<open>auto simp: sb_good_def\<close>)
  then show "sb_sh_ok m' (\<lambda>k. n k + sb_weight k pc') \<and> sb_pc_ok m' pc' \<and>
      (\<forall>q. (\<forall>k. sb_weight k q \<le> n k) \<longrightarrow> sb_pc_ok m q \<longrightarrow> sb_pc_ok m' q)"
    using g by (simp add: sb_good_def)
qed

lemma sb_reach_inv:
  assumes "reach (sb_step dc d True) ok (sb_init n) s"
  shows "sb_invariant.count_inv s"
proof (rule sb_invariant.reach_inv)
  show "reach (sb_step dc d True) (\<lambda>_. True) (sb_init n) s" using assms by (rule reach_mono) simp
  have "(\<lambda>k. tsum (sb_weight k) (replicate n (SB_idle :: 'a sb_pc))) = (\<lambda>_. 0)" by (simp add: sb_weight_def)
  then show "sb_invariant.count_inv (sb_init n :: 'a sb_sys)"
    using sb_phase_raw unfolding sb_invariant.count_inv_def by (simp add: sb_init_def)
qed


section \<open>Progress\<close>

text \<open>The thread in region \<open>r\<close> of the handler is at most six steps from the completion.\<close>

definition sb_completes :: "bool \<Rightarrow> 'a \<Rightarrow> 'a signal_barrier \<Rightarrow> 'a sb_pc \<Rightarrow> bool" where
  "sb_completes dc d m pc \<longleftrightarrow>
     (\<exists>k \<le> 6. \<exists>m' pc' a. solo (sb_exec dc d) k (m, pc) = Some (m', pc') \<and>
       sb_barrier m' = Some True \<and> sb_stored m' = [a] \<and> a \<in> set (sb_emits m))"

lemma sb_enter_completes:
  assumes "sb_phase m None" "sb_life m = Alive" "sb_barrier m = Some False" "a \<in> set (sb_emits m)"
  shows "sb_completes dc d m (SBH_scope CP_enter a)"
  using assms unfolding sb_completes_def by (intro exI[of _ 6]) (auto simp: eval_nat_numeral)

lemma sb_region_completes:
  assumes "sb_phase m (Some k)" "sb_life m = Alive" "sb_region_of pc = Some k" "sb_pc_ok m pc"
  shows "sb_completes dc d m pc"
proof (cases pc)
  case (SBH_set a)
  then show ?thesis using assms unfolding sb_completes_def by (intro exI[of _ 5]) (auto simp: eval_nat_numeral)
next
  case (SBH_disconnect a)
  then show ?thesis using assms unfolding sb_completes_def by (intro exI[of _ 4]) (auto simp: eval_nat_numeral)
next
  case (SBH_disable a)
  then show ?thesis using assms unfolding sb_completes_def by (intro exI[of _ 3]) (auto simp: eval_nat_numeral)
next
  case (SBH_reset a)
  then show ?thesis using assms unfolding sb_completes_def by (intro exI[of _ 2]) (auto simp: eval_nat_numeral)
next
  case (SBH_complete a)
  then show ?thesis using assms unfolding sb_completes_def by (intro exI[of _ 1]) auto
qed (use assms in \<open>auto split: if_splits\<close>)

lemma sb_region_enter: "sb_region_of pc = Some RB_enter \<Longrightarrow> \<exists>a. pc = SBH_scope CP_enter a"
  by (cases pc) (auto split: if_splits)

lemma sb_region_thread:
  assumes "0 < tsum (sb_weight k) ts"
  obtains pc where "pc \<in> set ts" "sb_region_of pc = Some k"
  using tsum_pos_member[OF assms] by (auto simp: sb_weight_def in_set_conv_nth split: if_splits)

section \<open>Properties\<close>

text \<open>
  C15. With a careful client, whatever the interleaving of waiters, readers, emitters and pool threads: no member is accessed outside its lifetime, exactly
  one raise is stored, \<open>wait\<close> returns true only after it, and every call of \<open>values\<close> returns it.
\<close>

theorem signal_barrier_stores_one_raise:
  assumes "reach (sb_step dc d True) ok (sb_init n) s"
  shows "SB_ub \<notin> set (snd s) \<and> length (sb_stored (fst s)) \<le> 1 \<and> set (sb_stored (fst s)) \<subseteq> set (sb_emits (fst s)) \<and>
     (SBW_ret True \<in> set (snd s) \<longrightarrow> sb_stored (fst s) \<noteq> []) \<and>
     (\<forall>a. SBV_ret a \<in> set (snd s) \<longrightarrow> sb_stored (fst s) = [a])"
proof -
  have inv: "sb_sh_ok (fst s) (\<lambda>k. tsum (sb_weight k) (snd s))" "\<And>pc. pc \<in> set (snd s) \<Longrightarrow> sb_pc_ok (fst s) pc"
    using sb_reach_inv[OF assms] by (auto simp: sb_invariant.count_inv_def)
  obtain r where "sb_phase (fst s) r" using inv(1) by (auto simp: sb_sh_ok_def)
  then have "sb_stored (fst s) = [] \<or> (\<exists>a \<in> set (sb_emits (fst s)). sb_stored (fst s) = [a])"
    by (cases r; cases "the r") auto
  then have "length (sb_stored (fst s)) \<le> 1" "set (sb_stored (fst s)) \<subseteq> set (sb_emits (fst s))" by auto
  then show ?thesis using inv(2)[of SB_ub] inv(2)[of "SBW_ret True"] inv(2)[of "SBV_ret _"] by auto
qed

definition sb_demo :: "(tid \<times> nat sb_event) list" where
  "sb_demo =
     [(0, SBE_construct), (0, SBE_step), (0, SBE_step), (0, SBE_step), (0, SBE_wait (-1)),
      (1, SBE_raise 7), (1, SBE_raise 8), (1, SBE_begin 0), (1, SBE_step), (1, SBE_step), (1, SBE_step), (1, SBE_step),
      (1, SBE_step), (1, SBE_step), (0, SBE_step), (0, SBE_values), (0, SBE_step), (0, SBE_step)]"

definition sb_demo_state :: "nat sb_sys" where
  "sb_demo_state =
     (\<lparr>sb_life = Alive, sb_barrier = Some True, sb_connection = Some False, sb_values = Some (Holder_inline 7),
       sb_handler = False, sb_active = cancelable_new\<lparr>m_active := active_disabled\<rparr>, sb_queue = [8], sb_emits = [7, 8],
       sb_stored = [7], sb_calls = 0\<rparr>, [SBV_ret 7, SBH_scope CP_leave 7])"

lemma sb_demo_reach: "reach (sb_step True 0 True) (\<lambda>_. True) (sb_init 2) sb_demo_state"
  by (rule reach_run[where es = sb_demo])
     (simp_all add: sb_demo_def sb_demo_state_def sb_init_def signal_barrier_raw_def sb_local_def cancelable_new_def
        value_holder_new_def numeral_2_eq_2)

theorem signal_barrier_stores_one_raise_witness: "sb_stored (fst sb_demo_state) = [7]"
  using signal_barrier_stores_one_raise[OF sb_demo_reach] by (simp add: sb_demo_state_def)

text \<open>
  C16. A raise after the construction is not lost: as long as the barrier is not completed, a thread that executes the handler, or one
  that begins a queued invocation, completes it with at most six steps of its own and stores an argument that was raised.
\<close>

theorem signal_barrier_raise_completes:
  assumes "reach (sb_step dc d True) ok (sb_init n) (m, ts)"
    and "sb_life m = Alive" and "sb_barrier m = Some False" and "sb_emits m \<noteq> []"
  shows "\<exists>pc \<in> set ts \<union> SBH_scope CP_enter ` set (sb_queue m). sb_completes dc d m pc"
proof -
  have inv: "sb_sh_ok m (\<lambda>k. tsum (sb_weight k) ts)" "\<And>pc. pc \<in> set ts \<Longrightarrow> sb_pc_ok m pc"
    using sb_reach_inv[OF assms(1)] by (auto simp: sb_invariant.count_inv_def)
  obtain r where r: "sb_only r (\<lambda>k. tsum (sb_weight k) ts)" "sb_phase m r"
    and q: "set (sb_queue m) \<subseteq> set (sb_emits m)"
    and live: "sb_stored m = [] \<longrightarrow> sb_queue m \<noteq> [] \<or> 0 < tsum (sb_weight RB_enter) ts \<or> 0 < tsum (sb_weight RB_set) ts"
    using inv(1) assms(4) by (auto simp: sb_sh_ok_def)
  show ?thesis
  proof (cases r)
    case None
    then have st: "sb_stored m = []" "tsum (sb_weight RB_set) ts = 0"
      using r assms(2,3) by (auto simp: sb_only_def sb_many_def)
    show ?thesis
    proof (cases "sb_queue m = []")
      case True
      then obtain pc where pc: "pc \<in> set ts" "sb_region_of pc = Some RB_enter"
        using live st by (auto elim: sb_region_thread)
      then obtain a where "pc = SBH_scope CP_enter a" using sb_region_enter by blast
      then have "sb_completes dc d m pc"
        using sb_enter_completes[of m a dc d] inv(2)[OF pc(1)] r(2) None assms(2,3) by simp
      then show ?thesis using pc(1) by blast
    next
      case False
      then have "hd (sb_queue m) \<in> set (sb_queue m)" by simp
      moreover from this have "sb_completes dc d m (SBH_scope CP_enter (hd (sb_queue m)))"
        using sb_enter_completes[of m "hd (sb_queue m)" dc d] r(2) None assms(2,3) q by blast
      ultimately show ?thesis by blast
    qed
  next
    case (Some k)
    have "\<not> sb_many k" using r(2) Some by (auto simp: sb_many_def)
    then have "0 < tsum (sb_weight k) ts" using r(1) Some by (simp add: sb_only_def)
    then obtain pc where pc: "pc \<in> set ts" "sb_region_of pc = Some k" by (rule sb_region_thread)
    then have "sb_completes dc d m pc" using sb_region_completes[of m k pc dc d] r(2) Some assms(2) inv(2) by blast
    then show ?thesis using pc(1) by blast
  qed
qed

definition sb_armed :: "nat signal_barrier" where
  "sb_armed =
     \<lparr>sb_life = Alive, sb_barrier = Some False, sb_connection = Some True, sb_values = Some (Holder_ptr None), sb_handler = True,
      sb_active = cancelable_new, sb_queue = [7], sb_emits = [7], sb_stored = [], sb_calls = 0\<rparr>"

theorem signal_barrier_raise_completes_witness:
  "\<exists>pc \<in> {SB_idle, SBH_scope CP_enter 7}. sb_completes False 0 sb_armed pc"
proof -
  have "reach (sb_step False 0 True) (\<lambda>_. True) (sb_init 1) (sb_armed, [SB_idle])"
    by (rule reach_run[where es = "[(0, SBE_construct), (0, SBE_step), (0, SBE_step), (0, SBE_step), (0, SBE_raise 7)]"])
       (simp_all add: sb_armed_def sb_init_def signal_barrier_raw_def sb_local_def value_holder_new_def)
  from signal_barrier_raise_completes[OF this] show ?thesis by (auto simp: sb_armed_def)
qed


text \<open>
  Without the client's care the members are used outside their lifetime. A raise during the construction lets the handler run
  before \<open>m_connection\<close> and \<open>m_values\<close> exist; a barrier that is destroyed while its handler runs destroys \<open>m_values\<close> before it
  waits for the handler. In both executions the handler is executed in the way the code schedules it and ends in undefined behaviour.
\<close>

theorem signal_barrier_lifetime_hazards:
  "(\<exists>m. reach (sb_step dc d False) (\<lambda>ev. snd ev \<noteq> SBE_destroy) (sb_init 2) (m, [SBC_assign, SB_ub])) \<and>
   (\<exists>m. reach (sb_step dc d False) (\<lambda>_. True) (sb_init 2) (m, [SBD_connection, SB_ub]) \<and> sb_life m = Destroying \<and> sb_emits m \<noteq> [])"
proof
  let ?m = "signal_barrier_raw\<lparr>sb_life := Constructing, sb_barrier := Some False, sb_handler := True,
      sb_active := cancelable_new\<lparr>m_active := active_running\<rparr>, sb_emits := [d]\<rparr>"
  have "reach (sb_step dc d False) (\<lambda>ev. snd ev \<noteq> SBE_destroy) (sb_init 2) (?m, [SBC_assign, SB_ub])"
    by (rule reach_run[where es = "[(0, SBE_construct), (0, SBE_step), (1, SBE_raise d), (1, SBE_begin 0), (1, SBE_step), (1, SBE_step)]"])
       (simp_all add: sb_init_def signal_barrier_raw_def sb_local_def numeral_2_eq_2 cancelable_new_def)
  then show "\<exists>m. reach (sb_step dc d False) (\<lambda>ev. snd ev \<noteq> SBE_destroy) (sb_init 2) (m, [SBC_assign, SB_ub])" by blast
  let ?m = "signal_barrier_raw\<lparr>sb_life := Destroying, sb_barrier := Some False, sb_connection := Some True, sb_handler := True,
      sb_active := cancelable_new\<lparr>m_active := active_running\<rparr>, sb_emits := [d]\<rparr>"
  have "reach (sb_step dc d False) (\<lambda>_. True) (sb_init 2) (?m, [SBD_connection, SB_ub])"
    by (rule reach_run[where es = "[(0, SBE_construct), (0, SBE_step), (0, SBE_step), (0, SBE_step), (1, SBE_raise d), (1, SBE_begin 0),
          (1, SBE_step), (0, SBE_destroy), (0, SBE_step), (1, SBE_step)]"])
       (simp_all add: sb_init_def signal_barrier_raw_def sb_local_def numeral_2_eq_2 cancelable_new_def)
  then show "\<exists>m. reach (sb_step dc d False) (\<lambda>_. True) (sb_init 2) (m, [SBD_connection, SB_ub]) \<and> sb_life m = Destroying \<and> sb_emits m \<noteq> []"
    by (intro exI[of _ ?m]) simp
qed

end
