(* ===== verification/Waitable_Queue.thy ===== *)
theory Waitable_Queue
  imports Timer Executor
begin

text \<open>
  The waitable queue (\<open>include/xdispatch/waitable_queue.h\<close>, \<open>src/waitable_queue.cpp\<close>): a queue in front of an inner
  queue, whose operations can also be executed by a thread that waits for them.

  The members are accessed with \<open>m_CS\<close> held. \<open>wq_tokens\<close> counts the worker operations handed to the inner queue and not yet begun;
  the inner queue may begin them at any moment on any idle thread, also in parallel. \<open>wq_cond\<close> are the threads that sleep in
  \<open>m_cond\<close>. \<open>wq_added\<close>, \<open>wq_current\<close> and \<open>wq_finished\<close> are the operations added, the one taken from the list and not yet
  counted, and those counted. An operation may add operations and wait itself (\<open>WK_run\<close>). \<open>WE_throw\<close> is an exception
  that leaves an operation; the thread continues outside of the queue (\<open>WQ_thrown\<close>).
\<close>

section \<open>The model\<close>

record 'o waitable_queue =
  wq_CS :: "tid option"
  wq_cond :: "tid list"
  wq_operations :: "'o list"
  wq_completed :: nat
  wq_active :: bool
  wq_tokens :: nat
  wq_added :: "'o list"
  wq_current :: "'o list"
  wq_finished :: "'o list"

definition waitable_queue_new :: "'o waitable_queue" where
  "waitable_queue_new =
     \<lparr>wq_CS = None, wq_cond = [], wq_operations = [], wq_completed = 0, wq_active = False, wq_tokens = 0, wq_added = [],
      wq_current = [], wq_finished = []\<rparr>"

text \<open>
  Who called \<open>async\<close> or a wait: a client, or an operation executed in a \<open>drain_one\<close>; and where \<open>drain_one\<close>
  returns to: the inner queue, or \<open>wait_for_one\<close> (\<open>True\<close> if it was called by \<open>wait_for_all\<close>).
\<close>

datatype 'o wq_caller = WK_client | WK_run "'o wq_cont" 'o
and 'o wq_cont = K_inner | K_wait bool "'o wq_caller"

datatype 'o wq_pc =
  WQ_idle
| WQ_thrown
| A_lock 'o "'o wq_caller"
| A_push 'o "'o wq_caller"
| A_unlock "'o wq_caller"
| A_inner "'o wq_caller"
| D_lock "'o wq_cont"
| D_test "'o wq_cont"
| D_blocked "'o wq_cont"
| D_unlock "'o wq_cont" 'o
| D_run "'o wq_cont" 'o
| D_relock "'o wq_cont" 'o
| D_count "'o wq_cont" 'o
| D_done "'o wq_cont"
| D_release "'o wq_cont"
| WO_enter bool "'o wq_caller"
| WA_while "'o wq_caller"
| WO_while bool "'o wq_caller"
| WO_blocked bool "'o wq_caller"
| WO_reacquire bool "'o wq_caller"
| WO_pred bool "'o wq_caller"
| WO_unlock bool "'o wq_caller"
| WO_lock bool "'o wq_caller"
| WO_return "'o wq_caller"

datatype 'o wq_event = WE_add 'o | WE_wait bool | WE_inner | WE_spurious | WE_throw | WE_step

fun wq_caller_return :: "'o wq_caller \<Rightarrow> 'o wq_pc" where
  "wq_caller_return WK_client = WQ_idle"
| "wq_caller_return (WK_run k op) = D_run k op"

fun wq_cont_return :: "'o wq_cont \<Rightarrow> 'o wq_pc" where
  "wq_cont_return K_inner = WQ_idle"
| "wq_cont_return (K_wait b c) = WO_lock b c"

definition wq_sleep :: "tid \<Rightarrow> 'o waitable_queue \<Rightarrow> 'o waitable_queue" where
  "wq_sleep t m = m\<lparr>wq_CS := None, wq_cond := wq_cond m @ [t]\<rparr>"

text \<open>The part of \<open>drain_one\<close> up to the execution of the operation, with the mutex held.\<close>

definition drain_begin :: "tid \<Rightarrow> 'o waitable_queue \<Rightarrow> 'o wq_cont \<Rightarrow> 'o waitable_queue \<times> 'o wq_pc" where
  "drain_begin t m k =
     (if wq_active m then (wq_sleep t m, D_blocked k)
      else case wq_operations m of
             [] \<Rightarrow> (m\<lparr>wq_active := True\<rparr>, D_done k)
           | op # rest \<Rightarrow> (m\<lparr>wq_active := True, wq_operations := rest, wq_current := [op]\<rparr>, D_unlock k op))"

text \<open>One round of the loop of \<open>wait_for_one\<close>, with the mutex held.\<close>

definition wait_for_one_round ::
  "tid \<Rightarrow> 'o waitable_queue \<Rightarrow> bool \<Rightarrow> 'o wq_caller \<Rightarrow> 'o waitable_queue \<times> 'o wq_pc" where
  "wait_for_one_round t m b c =
     (let finish = (if b then WA_while c else WO_return c)
      in if wq_completed m = 0
         then if wq_active m then (wq_sleep t m, WO_blocked b c)
              else if wq_operations m = [] then (m, finish)
              else (m, WO_unlock b c)
         else (m\<lparr>wq_completed := wq_completed m - 1\<rparr>, finish))"

fun wq_exec :: "tid \<Rightarrow> 'o waitable_queue \<Rightarrow> 'o wq_pc \<Rightarrow> ('o waitable_queue \<times> 'o wq_pc) option" where
  "wq_exec t m (A_lock op c) = (if wq_CS m = None then Some (m\<lparr>wq_CS := Some t\<rparr>, A_push op c) else None)"
| "wq_exec t m (A_push op c) =
     Some (m\<lparr>wq_operations := wq_operations m @ [op], wq_added := wq_added m @ [op]\<rparr>, A_unlock c)"
| "wq_exec t m (A_unlock c) = Some (m\<lparr>wq_CS := None\<rparr>, A_inner c)"
| "wq_exec t m (A_inner c) = Some (m\<lparr>wq_tokens := wq_tokens m + 1\<rparr>, wq_caller_return c)"
| "wq_exec t m (D_lock k) = (if wq_CS m = None then Some (m\<lparr>wq_CS := Some t\<rparr>, D_test k) else None)"
| "wq_exec t m (D_test k) = Some (drain_begin t m k)"
| "wq_exec t m (D_blocked k) = (if t \<in> set (wq_cond m) then None else Some (m, D_lock k))"
| "wq_exec t m (D_unlock k op) = Some (m\<lparr>wq_CS := None\<rparr>, D_run k op)"
| "wq_exec t m (D_run k op) = Some (m, D_relock k op)"
| "wq_exec t m (D_relock k op) = (if wq_CS m = None then Some (m\<lparr>wq_CS := Some t\<rparr>, D_count k op) else None)"
| "wq_exec t m (D_count k op) =
     Some (m\<lparr>wq_completed := wq_completed m + 1, wq_current := [], wq_finished := wq_finished m @ [op]\<rparr>, D_done k)"
| "wq_exec t m (D_done k) = Some (m\<lparr>wq_active := False, wq_cond := []\<rparr>, D_release k)"
| "wq_exec t m (D_release k) = Some (m\<lparr>wq_CS := None\<rparr>, wq_cont_return k)"
| "wq_exec t m (WO_enter b c) =
     (if wq_CS m = None then Some (m\<lparr>wq_CS := Some t\<rparr>, if b then WA_while c else WO_while b c) else None)"
| "wq_exec t m (WA_while c) =
     Some (m, if wq_active m \<or> wq_operations m \<noteq> [] then WO_while True c else WO_return c)"
| "wq_exec t m (WO_while b c) = Some (wait_for_one_round t m b c)"
| "wq_exec t m (WO_blocked b c) = (if t \<in> set (wq_cond m) then None else Some (m, WO_reacquire b c))"
| "wq_exec t m (WO_reacquire b c) = (if wq_CS m = None then Some (m\<lparr>wq_CS := Some t\<rparr>, WO_pred b c) else None)"
| "wq_exec t m (WO_pred b c) = Some (if wq_active m then (wq_sleep t m, WO_blocked b c) else (m, WO_while b c))"
| "wq_exec t m (WO_unlock b c) = Some (m\<lparr>wq_CS := None\<rparr>, D_lock (K_wait b c))"
| "wq_exec t m (WO_lock b c) = (if wq_CS m = None then Some (m\<lparr>wq_CS := Some t\<rparr>, WO_while b c) else None)"
| "wq_exec t m (WO_return c) = Some (m\<lparr>wq_CS := None\<rparr>, wq_caller_return c)"
| "wq_exec t m WQ_idle = None"
| "wq_exec t m WQ_thrown = None"

fun wq_caller_at :: "'o wq_pc \<Rightarrow> 'o wq_caller option" where
  "wq_caller_at WQ_idle = Some WK_client"
| "wq_caller_at (D_run k op) = Some (WK_run k op)"
| "wq_caller_at _ = None"

text \<open>\<open>WE_wait False\<close> is \<open>wait_for_one\<close>, \<open>WE_wait True\<close> is \<open>wait_for_all\<close>.\<close>

fun wq_local :: "tid \<Rightarrow> 'o wq_event \<Rightarrow> 'o waitable_queue \<Rightarrow> 'o wq_pc \<Rightarrow> ('o waitable_queue \<times> 'o wq_pc) option" where
  "wq_local t (WE_add op) m pc = (case wq_caller_at pc of None \<Rightarrow> None | Some c \<Rightarrow> Some (m, A_lock op c))"
| "wq_local t (WE_wait b) m pc = (case wq_caller_at pc of None \<Rightarrow> None | Some c \<Rightarrow> Some (m, WO_enter b c))"
| "wq_local t WE_inner m pc =
     (if pc = WQ_idle \<and> wq_tokens m > 0 then Some (m\<lparr>wq_tokens := wq_tokens m - 1\<rparr>, D_lock K_inner) else None)"
| "wq_local t WE_spurious m pc =
     (case pc of
        D_blocked k \<Rightarrow> Some (m\<lparr>wq_cond := filter (\<lambda>v. v \<noteq> t) (wq_cond m)\<rparr>, pc)
      | WO_blocked b c \<Rightarrow> Some (m\<lparr>wq_cond := filter (\<lambda>v. v \<noteq> t) (wq_cond m)\<rparr>, pc)
      | _ \<Rightarrow> None)"
| "wq_local t WE_throw m pc = (case pc of D_run k op \<Rightarrow> Some (m, WQ_thrown) | _ \<Rightarrow> None)"
| "wq_local t WE_step m pc = wq_exec t m pc"

type_synonym 'o wq_sys = "('o waitable_queue, 'o wq_pc) sys"

abbreviation wq_step :: "'o wq_sys \<Rightarrow> tid \<times> 'o wq_event \<Rightarrow> 'o wq_sys option" where
  "wq_step \<equiv> sys_step wq_local"

definition wq_init :: "nat \<Rightarrow> 'o wq_sys" where
  "wq_init n = (waitable_queue_new, replicate n WQ_idle)"

text \<open>\<open>apply\<close> is a sequence of calls of one thread; \<open>after\<close> sets up a timer of its own.\<close>

definition wq_apply :: "nat \<Rightarrow> (nat \<Rightarrow> 'o) \<Rightarrow> 'o wq_event list" where
  "wq_apply n op = map (\<lambda>i. WE_add (op i)) [0..<n] @ [WE_wait True]"

definition wq_after :: "('q, 'h) timer_impl \<Rightarrow> milliseconds \<Rightarrow> 'h \<Rightarrow> ('q, 'h) timer_impl" where
  "wq_after timer delay op = (let timer = tm_body (C_handler op) timer in tm_body (C_resume delay) timer)"

section \<open>The invariant\<close>

fun wq_nested :: "'o wq_caller \<Rightarrow> 'o list" where
  "wq_nested WK_client = []"
| "wq_nested (WK_run k op) = [op]"

fun wq_cont_nested :: "'o wq_cont \<Rightarrow> 'o list" where
  "wq_cont_nested K_inner = []"
| "wq_cont_nested (K_wait b c) = wq_nested c"

text \<open>The operation that a thread has taken and not counted yet.\<close>

fun wq_taken :: "'o wq_pc \<Rightarrow> 'o list" where
  "wq_taken (A_lock op c) = wq_nested c"
| "wq_taken (A_push op c) = wq_nested c"
| "wq_taken (A_unlock c) = wq_nested c"
| "wq_taken (A_inner c) = wq_nested c"
| "wq_taken (D_lock k) = wq_cont_nested k"
| "wq_taken (D_test k) = wq_cont_nested k"
| "wq_taken (D_blocked k) = wq_cont_nested k"
| "wq_taken (D_unlock k op) = [op]"
| "wq_taken (D_run k op) = [op]"
| "wq_taken (D_relock k op) = [op]"
| "wq_taken (D_count k op) = [op]"
| "wq_taken (WO_enter b c) = wq_nested c"
| "wq_taken (WA_while c) = wq_nested c"
| "wq_taken (WO_while b c) = wq_nested c"
| "wq_taken (WO_blocked b c) = wq_nested c"
| "wq_taken (WO_reacquire b c) = wq_nested c"
| "wq_taken (WO_pred b c) = wq_nested c"
| "wq_taken (WO_unlock b c) = wq_nested c"
| "wq_taken (WO_lock b c) = wq_nested c"
| "wq_taken (WO_return c) = wq_nested c"
| "wq_taken (D_release k) = wq_cont_nested k"
| "wq_taken _ = []"

fun wq_finishing :: "'o wq_pc \<Rightarrow> bool" where
  "wq_finishing (D_done k) = True"
| "wq_finishing _ = False"

definition wq_holder :: "'o wq_pc \<Rightarrow> bool" where
  "wq_holder pc \<longleftrightarrow> wq_taken pc \<noteq> [] \<or> wq_finishing pc"

definition wq_weight :: "unit \<Rightarrow> 'o wq_pc \<Rightarrow> int" where
  "wq_weight u pc = (if wq_holder pc then 1 else 0)"

definition wq_sh_ok :: "'o waitable_queue \<Rightarrow> (unit \<Rightarrow> int) \<Rightarrow> bool" where
  "wq_sh_ok m n \<longleftrightarrow>
     n () = (if wq_active m then 1 else 0) \<and> (\<not> wq_active m \<longrightarrow> wq_current m = []) \<and>
     wq_added m = wq_finished m @ wq_current m @ wq_operations m \<and> (wq_cond m \<noteq> [] \<longrightarrow> wq_active m)"

text \<open>A \<open>drain_one\<close> that was called by a wait inside an operation never takes an operation.\<close>

fun wq_cont_of :: "'o wq_pc \<Rightarrow> 'o wq_cont option" where
  "wq_cont_of (D_unlock k op) = Some k"
| "wq_cont_of (D_run k op) = Some k"
| "wq_cont_of (D_relock k op) = Some k"
| "wq_cont_of (D_count k op) = Some k"
| "wq_cont_of (D_done k) = Some k"
| "wq_cont_of (D_release k) = Some k"
| "wq_cont_of (A_lock op c) = (case c of WK_client \<Rightarrow> None | WK_run k op \<Rightarrow> Some k)"
| "wq_cont_of (A_push op c) = (case c of WK_client \<Rightarrow> None | WK_run k op \<Rightarrow> Some k)"
| "wq_cont_of (A_unlock c) = (case c of WK_client \<Rightarrow> None | WK_run k op \<Rightarrow> Some k)"
| "wq_cont_of (A_inner c) = (case c of WK_client \<Rightarrow> None | WK_run k op \<Rightarrow> Some k)"
| "wq_cont_of (WO_enter b c) = (case c of WK_client \<Rightarrow> None | WK_run k op \<Rightarrow> Some k)"
| "wq_cont_of (WA_while c) = (case c of WK_client \<Rightarrow> None | WK_run k op \<Rightarrow> Some k)"
| "wq_cont_of (WO_while b c) = (case c of WK_client \<Rightarrow> None | WK_run k op \<Rightarrow> Some k)"
| "wq_cont_of (WO_blocked b c) = (case c of WK_client \<Rightarrow> None | WK_run k op \<Rightarrow> Some k)"
| "wq_cont_of (WO_reacquire b c) = (case c of WK_client \<Rightarrow> None | WK_run k op \<Rightarrow> Some k)"
| "wq_cont_of (WO_pred b c) = (case c of WK_client \<Rightarrow> None | WK_run k op \<Rightarrow> Some k)"
| "wq_cont_of (WO_unlock b c) = (case c of WK_client \<Rightarrow> None | WK_run k op \<Rightarrow> Some k)"
| "wq_cont_of (WO_lock b c) = (case c of WK_client \<Rightarrow> None | WK_run k op \<Rightarrow> Some k)"
| "wq_cont_of (WO_return c) = (case c of WK_client \<Rightarrow> None | WK_run k op \<Rightarrow> Some k)"
| "wq_cont_of _ = None"

definition wq_pc_ok :: "'o waitable_queue \<Rightarrow> 'o wq_pc \<Rightarrow> bool" where
  "wq_pc_ok m pc \<longleftrightarrow>
     (wq_holder pc \<longrightarrow> wq_current m = wq_taken pc) \<and> (\<forall>k. wq_cont_of pc = Some k \<longrightarrow> wq_cont_nested k = [])"

definition wq_no_throw :: "tid \<times> 'o wq_event \<Rightarrow> bool" where
  "wq_no_throw ev \<longleftrightarrow> snd ev \<noteq> WE_throw"

lemma wq_return_simps [simp]:
  "wq_taken (wq_caller_return c) = wq_nested c" "wq_taken (wq_cont_return k) = wq_cont_nested k"
  "\<not> wq_finishing (wq_caller_return c)" "\<not> wq_finishing (wq_cont_return k)"
  "wq_cont_of (wq_caller_return c) = (case c of WK_client \<Rightarrow> None | WK_run k op \<Rightarrow> Some k)"
  "wq_cont_of (wq_cont_return k) = (case k of K_wait b (WK_run k' op) \<Rightarrow> Some k' | _ \<Rightarrow> None)"
  by (cases c; cases k; simp split: wq_caller.splits)+

text \<open>What one step does; \<open>act\<close> says whether other threads count as holders.\<close>

definition wq_good :: "int \<Rightarrow> 'o waitable_queue \<Rightarrow> 'o wq_pc \<Rightarrow> bool" where
  "wq_good n m pc \<longleftrightarrow> wq_sh_ok m (\<lambda>_. n + wq_weight () pc) \<and> wq_pc_ok m pc"

lemmas wq_good_defs = wq_good_def wq_sh_ok_def wq_pc_ok_def wq_weight_def wq_holder_def

lemma wq_good_test:
  assumes "wq_good n m (D_test k)" and "0 \<le> n"
  shows "wq_good n (fst (drain_begin t m k)) (snd (drain_begin t m k))"
proof (cases "wq_active m")
  case True
  then show ?thesis using assms by (simp add: drain_begin_def wq_good_defs wq_sleep_def)
next
  case False
  then have "wq_cont_nested k = []" using assms by (auto simp: wq_good_defs split: if_splits)
  then show ?thesis using assms False by (auto simp: drain_begin_def wq_good_defs split: list.splits)
qed

lemma wq_good_round:
  assumes "wq_good n m (WO_while b c)" and "0 \<le> n"
  shows "wq_good n (fst (wait_for_one_round t m b c)) (snd (wait_for_one_round t m b c))"
  using assms by (auto simp: wait_for_one_round_def Let_def wq_good_defs wq_sleep_def)

lemma wq_good_exec:
  assumes "wq_exec t m pc = Some (m', pc')" and "wq_good n m pc" and "0 \<le> n"
  shows "wq_good n m' pc'"
proof (cases pc)
  case (D_test k)
  then show ?thesis using assms wq_good_test[of n m k t] by (cases "drain_begin t m k") simp
next
  case (WO_while b c)
  then show ?thesis using assms wq_good_round[of n m b c t] by (cases "wait_for_one_round t m b c") simp
next
  case (D_release k)
  then show ?thesis using assms by (auto simp: wq_good_defs split: if_splits wq_cont.splits wq_caller.splits)
qed (use assms in \<open>auto simp: wq_good_defs wq_sleep_def split: if_splits\<close>)

lemma wq_caller_at_taken:
  "wq_caller_at pc = Some c \<Longrightarrow> wq_taken pc = wq_nested c \<and> \<not> wq_finishing pc \<and>
     wq_cont_of pc = (case c of WK_client \<Rightarrow> None | WK_run k op \<Rightarrow> Some k)"
  by (cases pc) auto

lemma wq_good_local:
  assumes "wq_local t e m pc = Some (m', pc')" and "wq_no_throw (t, e)" and "wq_good n m pc" and "0 \<le> n"
  shows "wq_good n m' pc'"
proof (cases e)
  case (WE_add op)
  then show ?thesis using assms(1,3) by (auto simp: wq_good_defs dest: wq_caller_at_taken split: option.splits)
next
  case (WE_wait b)
  then show ?thesis using assms(1,3) by (auto simp: wq_good_defs dest: wq_caller_at_taken split: option.splits)
next
  case WE_spurious
  then show ?thesis using assms(1,3) by (cases pc) (auto simp: wq_good_defs split: if_splits)
next
  case WE_step
  then show ?thesis using assms wq_good_exec by simp
qed (use assms in \<open>auto simp: wq_good_defs wq_no_throw_def split: if_splits wq_pc.splits\<close>)

text \<open>Only a holder changes the operation taken, or a thread that becomes the holder.\<close>

lemma wq_current_step:
  assumes "wq_local t e m pc = Some (m', pc')"
  shows "wq_current m' = wq_current m \<or> wq_holder pc \<or> \<not> wq_active m"
proof (cases "e = WE_step")
  case True
  then show ?thesis
    by (insert assms, cases pc)
       (auto simp: wq_holder_def drain_begin_def wait_for_one_round_def Let_def wq_sleep_def split: if_splits list.splits)
next
  case False
  then show ?thesis by (insert assms, cases e; cases pc) (auto split: if_splits)
qed

interpretation wq_invariant: counting_system wq_local wq_no_throw wq_weight wq_sh_ok "\<lambda>m n. wq_pc_ok m"
proof
  fix k pc show "0 \<le> wq_weight k pc" by (simp add: wq_weight_def)
next
  fix t e m pc m' pc' and n :: "unit \<Rightarrow> int"
  assume l: "wq_local t e m pc = Some (m', pc')" and ok: "wq_no_throw (t, e)" and n: "\<And>k. 0 \<le> n k"
    and s: "wq_sh_ok m (\<lambda>k. n k + wq_weight k pc)" and p: "wq_pc_ok m pc"
  have g: "wq_good (n ()) m pc" using s p by (simp add: wq_good_def wq_sh_ok_def)
  from wq_good_local[OF l ok g n] have g': "wq_good (n ()) m' pc'" .
  have "wq_pc_ok m' q" if q: "\<forall>k. wq_weight k q \<le> n k" "wq_pc_ok m q" for q
  proof (cases "wq_holder q")
    case True
    then have "1 \<le> n ()" using q(1)[rule_format, of "()"] by (simp add: wq_weight_def)
    then have "\<not> wq_holder pc" "wq_active m" using s by (auto simp: wq_sh_ok_def wq_weight_def split: if_splits)
    then show ?thesis using wq_current_step[OF l] q(2) by (auto simp: wq_pc_ok_def)
  qed (use q(2) in \<open>simp add: wq_pc_ok_def\<close>)
  then show "wq_sh_ok m' (\<lambda>k. n k + wq_weight k pc') \<and> wq_pc_ok m' pc' \<and>
      (\<forall>q. (\<forall>k. wq_weight k q \<le> n k) \<longrightarrow> wq_pc_ok m q \<longrightarrow> wq_pc_ok m' q)"
    using g' by (simp add: wq_good_def wq_sh_ok_def)
qed

lemma wq_reach_ok:
  assumes "reach wq_step wq_no_throw (wq_init n) (m, ts)"
  shows "wq_sh_ok m (\<lambda>k. tsum (wq_weight k) ts)" and "pc \<in> set ts \<Longrightarrow> wq_pc_ok m pc"
proof -
  have "wq_invariant.count_inv (wq_init n :: 'a wq_sys)"
    by (auto simp: wq_invariant.count_inv_def wq_init_def waitable_queue_new_def wq_sh_ok_def wq_pc_ok_def wq_weight_def wq_holder_def)
  from wq_invariant.reach_inv[OF assms this]
  show "wq_sh_ok m (\<lambda>k. tsum (wq_weight k) ts)" "pc \<in> set ts \<Longrightarrow> wq_pc_ok m pc"
    by (auto simp: wq_invariant.count_inv_def)
qed

section \<open>Properties\<close>

lemmas wq_run_no_throw = reach_run[where f = wq_step and ok = wq_no_throw]

abbreviation wq_reachable :: "'o wq_sys \<Rightarrow> bool" where
  "wq_reachable s \<equiv> \<exists>n. reach wq_step wq_no_throw (wq_init n) s"

interpretation wq_executor: ordered_executor wq_reachable "\<lambda>s. wq_added (fst s)"
  "\<lambda>s. wq_current (fst s) @ wq_operations (fst s)" "\<lambda>s. wq_finished (fst s)"
proof
  fix s :: "'o wq_sys"
  assume "wq_reachable s"
  then obtain n where "reach wq_step wq_no_throw (wq_init n) (fst s, snd s)" by auto
  from wq_reach_ok(1)[OF this]
  show "wq_added (fst s) = wq_finished (fst s) @ wq_current (fst s) @ wq_operations (fst s)" by (simp add: wq_sh_ok_def)
qed

text \<open>
  C25. The waitable queue executes its operations one at a time, in order and exactly once, whatever the kind
  of its inner queue and however many threads wait and take over the execution.
\<close>

theorem waitable_queue_serial_fifo:
  assumes "reach wq_step wq_no_throw (wq_init n) (m, ts)"
  shows "card {t. t < length ts \<and> wq_taken (ts ! t) \<noteq> []} \<le> 1 \<and>
         wq_added m = wq_finished m @ wq_current m @ wq_operations m"
proof
  have "tsum (wq_weight ()) ts \<le> 1" using wq_reach_ok(1)[OF assms] by (simp add: wq_sh_ok_def)
  moreover have "tsum (\<lambda>pc. if wq_taken pc \<noteq> [] then 1 else 0) ts \<le> tsum (wq_weight ()) ts"
    by (rule tsum_mono) (simp add: wq_weight_def wq_holder_def)
  ultimately have "tsum (\<lambda>pc. if wq_taken pc \<noteq> [] then 1 else 0) ts \<le> 1" by simp
  then show "card {t. t < length ts \<and> wq_taken (ts ! t) \<noteq> []} \<le> 1" by (simp add: tsum_indicator)
  show "wq_added m = wq_finished m @ wq_current m @ wq_operations m"
    using wq_executor.in_order[of "(m, ts)"] assms by auto
qed

definition wq_demo :: "nat wq_sys" where
  "wq_demo =
     (\<lparr>wq_CS = None, wq_cond = [], wq_operations = [9], wq_completed = 0, wq_active = True, wq_tokens = 2,
       wq_added = [8, 9], wq_current = [8], wq_finished = []\<rparr>, [WQ_idle, D_run (K_wait True WK_client) 8])"

abbreviation wq_add_events :: "tid \<Rightarrow> nat \<Rightarrow> (tid \<times> nat wq_event) list" where
  "wq_add_events t op \<equiv> (t, WE_add op) # replicate 4 (t, WE_step)"

lemma wq_demo_reach: "reach wq_step wq_no_throw (wq_init 2) (fst wq_demo, snd wq_demo)"
proof (rule reach_run)
  show "run wq_step (wq_init 2) (wq_add_events 0 8 @ wq_add_events 0 9 @ [(1, WE_wait True)] @ replicate 7 (1, WE_step)) =
      Some (fst wq_demo, snd wq_demo)"
    by (simp add: wq_demo_def wq_init_def waitable_queue_new_def eval_nat_numeral wait_for_one_round_def drain_begin_def Let_def)
qed (simp add: wq_no_throw_def list_all_iff)

theorem waitable_queue_serial_fifo_witness:
  "card {t. t < length (snd wq_demo) \<and> wq_taken (snd wq_demo ! t) \<noteq> []} \<le> 1"
  by (rule waitable_queue_serial_fifo[OF wq_demo_reach, THEN conjunct1])

text \<open>
  C26. \<open>wait_for_all\<close> and \<open>apply\<close> wait for everything: when the loop of \<open>wait_for_all\<close> ends, all operations that
  have been added to the queue are finished.
\<close>

theorem wait_for_all_is_complete:
  assumes "reach wq_step wq_no_throw (wq_init n) (m, ts)"
    and "wq_local t WE_step m (WA_while c) = Some (m', WO_return c)"
  shows "wq_finished m' = wq_added m'"
proof -
  have "\<not> wq_active m" "wq_operations m = []" "m' = m" using assms(2) by (auto split: if_splits)
  then show ?thesis using wq_reach_ok(1)[OF assms(1)] by (simp add: wq_sh_ok_def)
qed

theorem wait_for_all_is_complete_witness:
  "\<exists>m. wq_local 0 WE_step m (WA_while WK_client) = Some (m :: nat waitable_queue, WO_return WK_client) \<and> wq_finished m = [8]"
proof -
  let ?es = "wq_add_events 0 8 @ [(0, WE_wait True)] @ replicate 14 (0, WE_step)"
  have "\<exists>m. run wq_step (wq_init 1) ?es = Some (m :: nat waitable_queue, [WA_while WK_client]) \<and>
      wq_local 0 WE_step m (WA_while WK_client) = Some (m, WO_return WK_client) \<and> wq_added m = [8]"
    by (simp add: wq_init_def waitable_queue_new_def eval_nat_numeral wait_for_one_round_def drain_begin_def Let_def)
  then obtain m :: "nat waitable_queue" where m: "reach wq_step wq_no_throw (wq_init 1) (m, [WA_while WK_client])"
    "wq_local 0 WE_step m (WA_while WK_client) = Some (m, WO_return WK_client)" "wq_added m = [8]"
    using wq_run_no_throw by (fastforce simp: wq_no_throw_def list_all_iff)
  show ?thesis using wait_for_all_is_complete[OF m(1,2)] m(2,3) by (intro exI[of _ m]) simp
qed

text \<open>
  A sleeping thread sleeps for a reason: a thread that sleeps in the condition variable can go on, or another
  operation is being executed or about to be counted, by a thread that will wake all sleepers.
\<close>

theorem waitable_queue_sleeper_has_reason:
  assumes "reach wq_step wq_no_throw (wq_init n) (m, ts)"
    and "t < length ts" and "ts ! t = WO_blocked b c \<or> ts ! t = D_blocked k"
  shows "wq_step (m, ts) (t, WE_step) \<noteq> None \<or> (\<exists>u < length ts. wq_holder (ts ! u))"
proof (cases "t \<in> set (wq_cond m)")
  case True
  then have "0 < tsum (wq_weight ()) ts" using wq_reach_ok(1)[OF assms(1)] by (auto simp: wq_sh_ok_def)
  then show ?thesis by (auto dest!: tsum_pos_member simp: wq_weight_def split: if_splits)
next
  case False
  then show ?thesis using assms(2,3) unfolding sys_step_enabled by auto
qed

lemma wq_thrown_stuck: "e = WE_spurious \<or> wq_local t e m WQ_thrown = None"
  by (cases e) simp_all

lemma wq_blocked_stuck: "wq_cond m = [0] \<Longrightarrow> e = WE_spurious \<or> wq_local 0 e m (WO_blocked b c) = None"
  by (cases e) simp_all

lemma wq_sleeper_stuck:
  assumes "wq_cond m = [0]"
  shows "e = WE_spurious \<or> wq_step (m, [WO_blocked b c, WQ_thrown]) (t, e) = None"
  using wq_blocked_stuck[OF assms, of e b c] wq_thrown_stuck[of e t m] by (auto simp: nth_Cons split: nat.splits)

text \<open>The control states in which a thread waits for \<open>m_active\<close> to be cleared, or finds it set and comes back to them.\<close>

fun wq_waits :: "'o wq_pc \<Rightarrow> bool" where
  "wq_waits (WO_blocked b c) = True"
| "wq_waits (WO_reacquire b c) = True"
| "wq_waits (WO_pred b c) = True"
| "wq_waits (D_lock k) = True"
| "wq_waits (D_test k) = True"
| "wq_waits (D_blocked k) = True"
| "wq_waits _ = False"

text \<open>\<open>m_active\<close> is set and no thread is left that would clear it.\<close>

definition wq_stopped :: "'o wq_sys \<Rightarrow> bool" where
  "wq_stopped s \<longleftrightarrow> wq_active (fst s) \<and> (\<forall>pc \<in> set (snd s). wq_holder pc \<longrightarrow> wq_waits pc)"

definition wq_idles :: "'o waitable_queue \<Rightarrow> 'o waitable_queue \<Rightarrow> bool" where
  "wq_idles m m' \<longleftrightarrow> wq_active m' \<and> wq_current m' = wq_current m \<and> wq_finished m' = wq_finished m \<and>
     (\<exists>ops. wq_operations m' = wq_operations m @ ops)"

lemma wq_stopped_exec:
  assumes "wq_exec t m pc = Some (m', pc')" and "wq_active m" and "wq_holder pc \<longrightarrow> wq_waits pc"
  shows "wq_idles m m' \<and> (wq_holder pc' \<longrightarrow> wq_waits pc') \<and> (wq_waits pc \<longrightarrow> wq_waits pc')"
proof (cases pc)
  case (D_release k)
  then show ?thesis using assms
    by (cases k) (auto simp: wq_holder_def wq_idles_def)
next
  case (A_inner c)
  then show ?thesis using assms by (cases c) (auto simp: wq_holder_def wq_idles_def)
next
  case (WO_return c)
  then show ?thesis using assms by (cases c) (auto simp: wq_holder_def wq_idles_def)
qed (use assms in \<open>auto simp: wq_holder_def wq_idles_def drain_begin_def wait_for_one_round_def Let_def wq_sleep_def split: if_splits\<close>)

lemma wq_stopped_local:
  assumes "wq_local t e m pc = Some (m', pc')" and "wq_active m" and "wq_holder pc \<longrightarrow> wq_waits pc"
  shows "wq_idles m m' \<and> (wq_holder pc' \<longrightarrow> wq_waits pc') \<and> (wq_waits pc \<longrightarrow> wq_waits pc')"
proof (cases "e = WE_step")
  case True
  then show ?thesis using assms wq_stopped_exec by simp
next
  case False
  then show ?thesis
    by (insert assms, cases e; cases pc) (auto simp: wq_holder_def wq_idles_def split: if_splits)
qed

lemma wq_stopped_step:
  assumes "wq_step s ev = Some s'" and "wq_stopped s"
  shows "wq_stopped s' \<and> wq_idles (fst s) (fst s') \<and> length (snd s') = length (snd s) \<and>
         (\<forall>u < length (snd s). wq_waits (snd s ! u) \<longrightarrow> wq_waits (snd s' ! u))"
  using assms(1)
proof (rule sys_step_Some)
  fix m ts t e m' pc'
  assume *: "s = (m, ts)" "ev = (t, e)" "t < length ts" "wq_local t e m (ts ! t) = Some (m', pc')" "s' = (m', ts[t := pc'])"
  have "wq_idles m m' \<and> (wq_holder pc' \<longrightarrow> wq_waits pc') \<and> (wq_waits (ts ! t) \<longrightarrow> wq_waits pc')"
    using wq_stopped_local[OF *(4)] assms(2) *(1,3) by (simp add: wq_stopped_def)
  then show ?thesis using assms(2) *
    by (auto simp: wq_stopped_def wq_idles_def nth_list_update dest!: set_update_cases)
qed

lemma wq_stopped_reach:
  assumes "reach wq_step ok s s'" and "wq_stopped s"
  shows "wq_stopped s' \<and> wq_idles (fst s) (fst s') \<and> length (snd s') = length (snd s) \<and>
         (\<forall>u < length (snd s). wq_waits (snd s ! u) \<longrightarrow> wq_waits (snd s' ! u))"
  using assms
proof (induction rule: reach.induct)
  case reach_refl
  then show ?case by (simp add: wq_stopped_def wq_idles_def)
next
  case reach_step
  then show ?case by (auto simp: wq_idles_def dest!: wq_stopped_step)
qed

lemma wq_holder_unique:
  assumes "wq_sh_ok m (\<lambda>k. tsum (wq_weight k) ts)" and "t < length ts" and "wq_holder (ts ! t)"
  shows "wq_active m" and "u < length ts \<Longrightarrow> wq_holder (ts ! u) \<Longrightarrow> u = t"
proof -
  have w: "0 \<le> wq_weight () pc" if "pc \<in> set ts" for pc by (simp add: wq_weight_def)
  show "wq_active m"
    using assms(1,3) tsum_ge_member[of t ts "wq_weight ()", OF assms(2) w]
    by (auto simp: wq_sh_ok_def wq_weight_def split: if_splits)
  show "u = t" if "u < length ts" "wq_holder (ts ! u)"
    using assms(1,3) that tsum_two[OF assms(2) that(1), of "wq_weight ()"] w
    by (auto simp: wq_sh_ok_def wq_weight_def split: if_splits)
qed

lemma wq_thrown_stops:
  assumes "wq_sh_ok m (\<lambda>k. tsum (wq_weight k) ts)" and "wq_step (m, ts) (t, WE_throw) = Some (m', ts')"
  shows "m' = m \<and> ts' = ts[t := WQ_thrown] \<and> wq_stopped (m', ts')"
proof -
  from assms(2) obtain k op where *: "t < length ts" "ts ! t = D_run k op" "m' = m" "ts' = ts[t := WQ_thrown]"
    unfolding sys_step_iff by (auto split: wq_pc.splits)
  have h: "wq_holder (ts ! t)" using * by (simp add: wq_holder_def)
  have "\<not> wq_holder (ts' ! u)" if "u < length ts'" for u
    using wq_holder_unique(2)[OF assms(1) *(1) h, of u] that * by (cases "u = t") (auto simp: wq_holder_def)
  then show ?thesis using wq_holder_unique(1)[OF assms(1) *(1) h] * by (auto simp: wq_stopped_def in_set_conv_nth)
qed

lemma wq_nested_wait_stops:
  assumes "wq_sh_ok m (\<lambda>k. tsum (wq_weight k) ts)" and "t < length ts" and "ts ! t = WO_blocked b (WK_run k op)"
  shows "wq_stopped (m, ts)"
proof -
  have h: "wq_holder (ts ! t)" using assms(3) by (simp add: wq_holder_def)
  show ?thesis using wq_holder_unique[OF assms(1,2) h] assms(3) by (fastforce simp: wq_stopped_def in_set_conv_nth)
qed

text \<open>
  C40. Two ways in which a waitable queue stops for good. In an execution in which no operation has thrown yet, let an
  operation wait for its own queue and have to sleep (nothing was recorded as completed), or let an exception leave
  an operation. From then on \<open>m_active\<close> stays set: whatever the threads do, spurious wake-ups included, no further operation is
  taken, executed or counted, what is added stays queued, and every thread that sleeps in a wait, or has come to
  sleep in one since, never leaves it; in the first case that is also the operation itself.
\<close>

theorem waitable_queue_stops:
  assumes "reach wq_step wq_no_throw (wq_init n) (m, ts)"
    and "s = (m, ts) \<and> t < length ts \<and> ts ! t = WO_blocked b (WK_run k op) \<or> wq_step (m, ts) (t, WE_throw) = Some s"
    and "reach wq_step (\<lambda>_. True) s (m1, ts1)" and "reach wq_step (\<lambda>_. True) (m1, ts1) (m2, ts2)"
  shows "wq_active m2 \<and> wq_current m2 = wq_current m \<and> wq_finished m2 = wq_finished m \<and>
         (\<exists>ops. wq_operations m2 = wq_operations m @ ops) \<and>
         (\<forall>u < length ts2. \<forall>k op. ts2 ! u \<noteq> D_run k op) \<and>
         (\<forall>u < length ts1. wq_waits (ts1 ! u) \<longrightarrow> wq_waits (ts2 ! u)) \<and>
         (s = (m, ts) \<longrightarrow> wq_waits (ts2 ! t))"
proof -
  note ok = wq_reach_ok(1)[OF assms(1)]
  have s: "wq_stopped s \<and> fst s = m \<and> (s = (m, ts) \<longrightarrow> t < length ts \<and> wq_waits (ts ! t))"
    using assms(2)
  proof
    assume *: "s = (m, ts) \<and> t < length ts \<and> ts ! t = WO_blocked b (WK_run k op)"
    then show ?thesis using wq_nested_wait_stops[OF ok, of t b k op] by simp
  next
    assume *: "wq_step (m, ts) (t, WE_throw) = Some s"
    obtain m' ts' where s: "s = (m', ts')" by (cases s)
    have t: "t < length ts" "ts ! t \<noteq> WQ_thrown" using * unfolding s sys_step_iff by auto
    then have "ts \<noteq> ts[t := WQ_thrown]" by (metis nth_list_update_eq)
    then show ?thesis using wq_thrown_stops[OF ok, of t m' ts'] * by (auto simp: s)
  qed
  note r1 = wq_stopped_reach[OF assms(3)] and r2 = wq_stopped_reach[OF assms(4)]
  have all: "wq_stopped (m2, ts2)" "wq_idles m m1" "wq_idles m1 m2" "length ts1 = length (snd s)"
    "\<forall>u < length (snd s). wq_waits (snd s ! u) \<longrightarrow> wq_waits (ts1 ! u)"
    "\<forall>u < length ts1. wq_waits (ts1 ! u) \<longrightarrow> wq_waits (ts2 ! u)"
    using s r1 r2 by auto
  have "ts2 ! u \<noteq> D_run k op" if "u < length ts2" for u k op
    using all(1) nth_mem[OF that] by (auto simp: wq_stopped_def wq_holder_def)
  moreover have "s = (m, ts) \<longrightarrow> wq_waits (ts2 ! t)" using s all(4-6) by auto
  ultimately show ?thesis using all(2,3,6) by (auto simp: wq_idles_def)
qed

text \<open>The witness: an operation on the only thread waits for its own queue.\<close>

definition wq_stopped_demo :: "nat wq_sys" where
  "wq_stopped_demo =
     (\<lparr>wq_CS = None, wq_cond = [0], wq_operations = [], wq_completed = 0, wq_active = True, wq_tokens = 0,
       wq_added = [8], wq_current = [8], wq_finished = []\<rparr>, [WO_blocked False (WK_run K_inner 8), WQ_idle])"

lemma wq_stopped_demo_reach: "reach wq_step wq_no_throw (wq_init 2) (fst wq_stopped_demo, snd wq_stopped_demo)"
proof (rule reach_run)
  show "run wq_step (wq_init 2) (wq_add_events 0 8 @ [(0, WE_inner)] @ replicate 3 (0, WE_step) @
      [(0, WE_wait False), (0, WE_step), (0, WE_step)]) = Some (fst wq_stopped_demo, snd wq_stopped_demo)"
    by (simp add: wq_stopped_demo_def wq_init_def waitable_queue_new_def eval_nat_numeral wait_for_one_round_def
        drain_begin_def wq_sleep_def Let_def)
qed (simp add: wq_no_throw_def list_all_iff)

theorem waitable_queue_stops_witness:
  "\<exists>m2 ts2. run wq_step wq_stopped_demo (wq_add_events 1 9 @ [(1, WE_wait True), (1, WE_step), (1, WE_step), (1, WE_step), (0, WE_spurious)]) =
       Some (m2, ts2) \<and> wq_active m2 \<and> wq_finished m2 = [] \<and> wq_waits (ts2 ! 0)"
proof -
  let ?es = "wq_add_events 1 9 @ [(1, WE_wait True), (1, WE_step), (1, WE_step), (1, WE_step), (0, WE_spurious)]"
  have "run wq_step wq_stopped_demo ?es \<noteq> None"
    by (simp add: wq_stopped_demo_def eval_nat_numeral wait_for_one_round_def wq_sleep_def Let_def)
  then obtain m2 ts2 where r: "run wq_step wq_stopped_demo ?es = Some (m2, ts2)" by auto
  have re: "reach wq_step (\<lambda>_. True) (fst wq_stopped_demo, snd wq_stopped_demo) (m2, ts2)"
    using reach_run[OF r] by (simp add: list_all_iff)
  have "wq_active m2 \<and> wq_finished m2 = wq_finished (fst wq_stopped_demo) \<and> wq_waits (ts2 ! 0)"
    using waitable_queue_stops[OF wq_stopped_demo_reach _ reach_refl re, of 0 False K_inner 8] by (simp add: wq_stopped_demo_def)
  then show ?thesis using r by (simp add: wq_stopped_demo_def)
qed

text \<open>
  Both ways into this state exist: an operation that waits for its own queue while nothing is recorded as completed, and an
  exception that leaves an operation while another one is queued. Without a spurious wake-up no thread takes a step again.
\<close>

theorem waitable_queue_can_deadlock:
  "(\<exists>m. reach wq_step wq_no_throw (wq_init 1) (m :: nat waitable_queue, [WO_blocked False (WK_run K_inner 8)]) \<and> wq_cond m = [0] \<and>
      (\<forall>e. e = WE_spurious \<or> wq_step (m, [WO_blocked False (WK_run K_inner 8)]) (0, e) = None)) \<and>
   (\<exists>m. reach wq_step (\<lambda>_. True) (wq_init 2) (m :: nat waitable_queue, [WO_blocked True WK_client, WQ_thrown]) \<and> wq_cond m = [0] \<and>
      wq_operations m = [9] \<and> (\<forall>t e. e = WE_spurious \<or> wq_step (m, [WO_blocked True WK_client, WQ_thrown]) (t, e) = None))"
proof
  have "\<exists>m. run wq_step (wq_init 1) (wq_add_events 0 8 @ [(0, WE_inner)] @ replicate 3 (0, WE_step) @ [(0, WE_wait False), (0, WE_step), (0, WE_step)]) =
      Some (m :: nat waitable_queue, [WO_blocked False (WK_run K_inner 8)]) \<and> wq_cond m = [0]"
    by (simp add: wq_init_def waitable_queue_new_def eval_nat_numeral wait_for_one_round_def drain_begin_def wq_sleep_def Let_def)
  then obtain m :: "nat waitable_queue" where m: "reach wq_step wq_no_throw (wq_init 1) (m, [WO_blocked False (WK_run K_inner 8)])" "wq_cond m = [0]"
    using wq_run_no_throw by (fastforce simp: wq_no_throw_def list_all_iff)
  have "e = WE_spurious \<or> wq_step (m, [WO_blocked False (WK_run K_inner 8)]) (0, e) = None" for e
    using m(2) by (cases e) auto
  then show "\<exists>m. reach wq_step wq_no_throw (wq_init 1) (m :: nat waitable_queue, [WO_blocked False (WK_run K_inner 8)]) \<and> wq_cond m = [0] \<and>
      (\<forall>e. e = WE_spurious \<or> wq_step (m, [WO_blocked False (WK_run K_inner 8)]) (0, e) = None)" using m by blast
next
  let ?ts = "[WO_blocked True WK_client, WQ_thrown] :: nat wq_pc list"
  let ?es = "wq_add_events 0 8 @ wq_add_events 0 9 @ [(1, WE_inner)] @ replicate 3 (1, WE_step) @
        [(1, WE_throw), (0, WE_wait True)] @ replicate 3 (0, WE_step)"
  have "\<exists>m. run wq_step (wq_init 2) ?es = Some (m :: nat waitable_queue, ?ts) \<and> wq_cond m = [0] \<and> wq_operations m = [9]"
    by (simp add: wq_init_def waitable_queue_new_def eval_nat_numeral wait_for_one_round_def drain_begin_def wq_sleep_def Let_def)
  then obtain m :: "nat waitable_queue" where r: "run wq_step (wq_init 2) ?es = Some (m, ?ts)" and m: "wq_cond m = [0]" "wq_operations m = [9]"
    by blast
  have re: "reach wq_step (\<lambda>_. True) (wq_init 2) (m, ?ts)" by (rule reach_run[OF r]) (simp add: list_all_iff)
  have stuck: "e = WE_spurious \<or> wq_step (m, ?ts) (t, e) = None" for t e
    by (rule wq_sleeper_stuck[OF m(1)])
  show "\<exists>m. reach wq_step (\<lambda>_. True) (wq_init 2) (m :: nat waitable_queue, ?ts) \<and> wq_cond m = [0] \<and>
      wq_operations m = [9] \<and> (\<forall>t e. e = WE_spurious \<or> wq_step (m, ?ts) (t, e) = None)"
    by (intro exI[of _ m] conjI allI re m stuck)
qed

text \<open>\<open>after\<close> sets its timer up in the same way as the queues of the naive backend.\<close>

lemma wq_after_is_create_and_dispatch: "wq_after timer delay op = create_and_dispatch timer delay op"
  by (simp add: wq_after_def create_and_dispatch_def Let_def)

end
