(* ===== verification/Thread_Utils.thy ===== *)
theory Thread_Utils
  imports Threadpool "HOL-Library.Word"
begin

text \<open>
  Threads, priorities and the environment (\<open>src/thread_utils.cpp\<close>, \<open>src/trace_utils.cpp\<close>, and the maps of priorities of
  \<open>src/libdispatch/libdispatch_queue.cpp\<close> and \<open>src/qt5/qt5_threadpool.cpp\<close>). What the operating system answers and the values
  of environment variables are arguments, the calls to the operating system are results. \<open>atoi\<close> is the function
  of the C library; where its result does not fit into an \<open>int\<close> the behaviour of C is undefined, and the theorems exclude it.
\<close>

section \<open>Priorities\<close>

text \<open>The order of the priorities, most urgent last, which the different maps are measured against.\<close>

definition priority_rank :: "queue_priority \<Rightarrow> nat" where
  "priority_rank p =
     (case p of BACKGROUND \<Rightarrow> 0 | UTILITY \<Rightarrow> 1 | PRIO_DEFAULT \<Rightarrow> 2 | USER_INITIATED \<Rightarrow> 3 | USER_INTERACTIVE \<Rightarrow> 4)"

lemma priority_rank_inj: "priority_rank p = priority_rank q \<longleftrightarrow> p = q"
  by (cases p; cases q) (simp_all add: priority_rank_def)

instantiation queue_priority :: linorder
begin

definition less_eq_queue_priority :: "queue_priority \<Rightarrow> queue_priority \<Rightarrow> bool" where
  "less_eq_queue_priority p q \<longleftrightarrow> priority_rank p \<le> priority_rank q"

definition less_queue_priority :: "queue_priority \<Rightarrow> queue_priority \<Rightarrow> bool" where
  "less_queue_priority p q \<longleftrightarrow> priority_rank p < priority_rank q"

instance
  by intro_classes (auto simp: less_eq_queue_priority_def less_queue_priority_def priority_rank_inj)

end

definition map_priority_to_nice :: "int \<Rightarrow> queue_priority \<Rightarrow> int" where
  "map_priority_to_nice nice_base priority =
     (case priority of
        USER_INTERACTIVE \<Rightarrow> nice_base
      | USER_INITIATED \<Rightarrow> nice_base
      | PRIO_DEFAULT \<Rightarrow> nice_base
      | UTILITY \<Rightarrow> nice_base + 1
      | BACKGROUND \<Rightarrow> nice_base + 2)"

datatype qos_class =
  QOS_CLASS_USER_INTERACTIVE
| QOS_CLASS_USER_INITIATED
| QOS_CLASS_UTILITY
| QOS_CLASS_DEFAULT
| QOS_CLASS_BACKGROUND

definition map_priority_to_qos :: "queue_priority \<Rightarrow> qos_class" where
  "map_priority_to_qos priority =
     (case priority of
        USER_INTERACTIVE \<Rightarrow> QOS_CLASS_USER_INTERACTIVE
      | USER_INITIATED \<Rightarrow> QOS_CLASS_USER_INITIATED
      | UTILITY \<Rightarrow> QOS_CLASS_UTILITY
      | PRIO_DEFAULT \<Rightarrow> QOS_CLASS_DEFAULT
      | BACKGROUND \<Rightarrow> QOS_CLASS_BACKGROUND)"

datatype dispatch_priority =
  DISPATCH_QUEUE_PRIORITY_HIGH
| DISPATCH_QUEUE_PRIORITY_DEFAULT
| DISPATCH_QUEUE_PRIORITY_LOW
| DISPATCH_QUEUE_PRIORITY_BACKGROUND

text \<open>\<open>priority_2_native\<close> returns a class of service where the platform has them and a priority otherwise.\<close>

definition priority_2_native :: "bool \<Rightarrow> queue_priority \<Rightarrow> qos_class + dispatch_priority" where
  "priority_2_native have_qos priority =
     (if have_qos then Inl (map_priority_to_qos priority)
      else Inr (case priority of
             USER_INTERACTIVE \<Rightarrow> DISPATCH_QUEUE_PRIORITY_HIGH
           | USER_INITIATED \<Rightarrow> DISPATCH_QUEUE_PRIORITY_HIGH
           | UTILITY \<Rightarrow> DISPATCH_QUEUE_PRIORITY_LOW
           | PRIO_DEFAULT \<Rightarrow> DISPATCH_QUEUE_PRIORITY_DEFAULT
           | BACKGROUND \<Rightarrow> DISPATCH_QUEUE_PRIORITY_BACKGROUND))"

text \<open>The priority that \<open>ThreadPoolProxy::execute\<close> passes to the pool of Qt.\<close>

definition qt5_runnable_priority :: "queue_priority \<Rightarrow> int" where
  "qt5_runnable_priority priority =
     (case priority of
        BACKGROUND \<Rightarrow> 0
      | PRIO_DEFAULT \<Rightarrow> 20
      | UTILITY \<Rightarrow> 20
      | USER_INITIATED \<Rightarrow> 40
      | USER_INTERACTIVE \<Rightarrow> 100)"

datatype os_call =
  OS_set_qos qos_class
| OS_setpriority int int
| OS_warning
| OS_pthread_setname string
| OS_prctl_set_name string
| OS_set_thread_name int string

datatype priority_platform = Platform_qos | Platform_setpriority | Platform_none

text \<open>\<open>err\<close> is the result of the system call, \<open>tid\<close> the one of \<open>SYS_gettid\<close>; the check of a debug build is left out.\<close>

definition set_current_thread_priority :: "priority_platform \<Rightarrow> int \<Rightarrow> int \<Rightarrow> int \<Rightarrow> queue_priority \<Rightarrow> os_call list" where
  "set_current_thread_priority platform nice_base tid err priority =
     (case platform of
        Platform_qos \<Rightarrow> OS_set_qos (map_priority_to_qos priority) # (if err \<noteq> 0 then [OS_warning] else [])
      | Platform_setpriority \<Rightarrow> OS_setpriority tid (map_priority_to_nice nice_base priority) # (if err \<noteq> 0 then [OS_warning] else [])
      | Platform_none \<Rightarrow> [])"

section \<open>Names of threads\<close>

record threadname_info =
  dwType :: int
  szName :: string
  dwThreadID :: int
  dwFlags :: int

definition thread_name_info :: "int \<Rightarrow> string \<Rightarrow> threadname_info" where
  "thread_name_info thread_id name = \<lparr>dwType = 0x100, szName = name, dwThreadID = thread_id, dwFlags = 0\<rparr>"

record name_platform =
  have_pthread_setname :: bool
  have_prctl :: bool
  have_set_thread_name :: bool
  debugger_present :: bool

definition set_current_thread_name :: "name_platform \<Rightarrow> bool \<Rightarrow> int \<Rightarrow> string \<Rightarrow> os_call list" where
  "set_current_thread_name platform debug_enabled thread_id name =
     (if have_pthread_setname platform then [OS_pthread_setname name] else []) @
     (if have_prctl platform then [OS_prctl_set_name name] else []) @
     (if have_set_thread_name platform \<and> (debug_enabled \<or> debugger_present platform)
      then [OS_set_thread_name (dwThreadID (thread_name_info thread_id name)) (szName (thread_name_info thread_id name))] else [])"

section \<open>The environment\<close>

definition is_space :: "char \<Rightarrow> bool" where
  "is_space c \<longleftrightarrow> (of_char c :: nat) = 32 \<or> 9 \<le> (of_char c :: nat) \<and> (of_char c :: nat) \<le> 13"

definition is_digit :: "char \<Rightarrow> bool" where
  "is_digit c \<longleftrightarrow> 48 \<le> (of_char c :: nat) \<and> (of_char c :: nat) \<le> 57"

fun atoi_digits :: "int \<Rightarrow> string \<Rightarrow> int" where
  "atoi_digits n [] = n"
| "atoi_digits n (c # cs) = (if is_digit c then atoi_digits (10 * n + (of_char c - 48)) cs else n)"

definition atoi :: "string \<Rightarrow> int" where
  "atoi s =
     (case dropWhile is_space s of
        [] \<Rightarrow> 0
      | c # cs \<Rightarrow> if c = CHR ''-'' then - atoi_digits 0 cs else if c = CHR ''+'' then atoi_digits 0 cs else atoi_digits 0 (c # cs))"

definition is_env_enabled :: "string option \<Rightarrow> bool" where
  "is_env_enabled value = (case value of None \<Rightarrow> False | Some v \<Rightarrow> 1 = atoi v)"

definition is_trace_enabled :: "string option \<Rightarrow> bool" where
  "is_trace_enabled xdispatch2_trace = is_env_enabled xdispatch2_trace"

definition is_debug_enabled :: "bool \<Rightarrow> string option \<Rightarrow> bool" where
  "is_debug_enabled debug xdispatch2_trace = (if debug then True else is_trace_enabled xdispatch2_trace)"

section \<open>The number of threads\<close>

text \<open>
  How the platform asks for the number of processors: \<open>sysconf\<close> and its result, \<open>sysctl\<close> and the value it stored (\<open>None\<close> on failure), or not
  at all; on Windows \<open>dwNumberOfProcessors\<close>. The \<open>catch\<close> of the source is never reached, \<open>atoi\<close> does not throw.
\<close>

datatype processor_query = Query_sysconf int | Query_sysctl "int option" | Query_none

definition override_count :: "string option \<Rightarrow> int" where
  "override_count xdispatch2_thread_count = (case xdispatch2_thread_count of None \<Rightarrow> 0 | Some s \<Rightarrow> atoi s)"

definition system_thread_count :: "string option \<Rightarrow> processor_query \<Rightarrow> nat option \<Rightarrow> 64 word" where
  "system_thread_count env query system_info =
     (let fallback = (case system_info of None \<Rightarrow> 2 | Some n \<Rightarrow> if n > 0 then of_nat n else 2)
      in if override_count env > 0 then of_int (override_count env)
         else case query of
                Query_sysconf n \<Rightarrow> if n < 0 then fallback else of_int n
              | Query_sysctl (Some v) \<Rightarrow> of_int v
              | Query_sysctl None \<Rightarrow> fallback
              | Query_none \<Rightarrow> fallback)"

text \<open>The cast in the constructor of the thread pool, at the width of the types.\<close>

definition max_threads_of :: "64 word \<Rightarrow> int" where
  "max_threads_of n = sint (ucast (2 * n) :: 32 word)"

section \<open>Properties\<close>

lemma sint_ucast_wrap32: "sint (ucast (n :: 64 word) :: 32 word) = wrap32 (uint n)"
proof -
  have "sint (ucast n :: 32 word) = signed_take_bit 31 (uint n)"
    by (simp add: sint_uint signed_take_bit_take_bit unsigned_ucast_eq)
  then show ?thesis by (simp add: wrap32_def signed_take_bit_eq_take_bit_shift take_bit_eq_mod)
qed

lemma wrap32_mod: "wrap32 (x mod 18446744073709551616) = wrap32 x"
proof -
  have "(x mod 18446744073709551616 + 2147483648) mod 4294967296 = (x + 2147483648) mod (4294967296 :: int)"
    by (subst (1 2) mod_add_left_eq[symmetric]) (simp add: mod_mod_cancel)
  then show ?thesis by (simp add: wrap32_def)
qed

lemma max_threads_of_wrap32: "max_threads_of n = wrap32 (2 * uint n)"
proof -
  have "uint (2 * n) = 2 * uint n mod 18446744073709551616" by (simp add: uint_word_ariths)
  then show ?thesis by (simp add: max_threads_of_def sint_ucast_wrap32 wrap32_mod)
qed

lemma max_threads_of_pool: "m_max_threads (threadpool_new (uint n)) = max_threads_of n"
  by (simp add: threadpool_new_def max_threads_of_wrap32)

text \<open>
  The priorities: all backends order them in the same way. A more urgent priority never gets a larger nice value, a smaller priority
  in the pool of Qt or a later bucket of the thread pool, and the nice value stays within two steps of the one of the process.
\<close>

theorem priority_maps_agree:
  assumes "p \<le> q"
  shows "map_priority_to_nice base q \<le> map_priority_to_nice base p \<and> qt5_runnable_priority p \<le> qt5_runnable_priority q \<and>
    bucket_of q \<le> bucket_of p \<and>
    base \<le> map_priority_to_nice base p \<and> map_priority_to_nice base p \<le> base + 2"
  using assms by (cases p; cases q) (simp_all add: less_eq_queue_priority_def priority_rank_def map_priority_to_nice_def qt5_runnable_priority_def)

theorem priority_maps_agree_witness: "map_priority_to_nice 0 USER_INITIATED \<le> map_priority_to_nice 0 BACKGROUND"
proof -
  have "BACKGROUND \<le> USER_INITIATED" by (simp add: less_eq_queue_priority_def priority_rank_def)
  from priority_maps_agree[OF this, of 0] show ?thesis by simp
qed

definition processors_ok :: "int \<Rightarrow> bool" where
  "processors_ok n \<longleftrightarrow> 1 \<le> n \<and> n \<le> 1073741823"

definition query_ok :: "processor_query \<Rightarrow> bool" where
  "query_ok q \<longleftrightarrow> (case q of Query_sysconf n \<Rightarrow> n = -1 \<or> processors_ok n | Query_sysctl (Some v) \<Rightarrow> processors_ok v | _ \<Rightarrow> True)"

lemma processors_ok_word: "processors_ok n \<Longrightarrow> uint (of_int n :: 64 word) = n"
  unfolding processors_ok_def uint_word_of_int by (rule mod_pos_pos_trivial) simp_all

text \<open>
  The number of threads is within bounds: if the operating system answers as documented (an error, or between one and
  \<open>2 ^ 30 - 1\<close> processors) and \<open>XDISPATCH2_THREAD_COUNT\<close> is unset or at most \<open>2 ^ 30 - 1\<close>, whatever else its text
  is, then there is at least one thread, and the maximum of the thread pool is twice their number, without wrapping.
\<close>

theorem thread_count_bounds:
  assumes "query_ok query" and "case system_info of None \<Rightarrow> True | Some n \<Rightarrow> n < 1073741824"
    and "override_count env \<le> 1073741823"
  shows "1 \<le> uint (system_thread_count env query system_info) \<and>
    max_threads_of (system_thread_count env query system_info) = 2 * uint (system_thread_count env query system_info) \<and>
    m_max_threads (threadpool_new (uint (system_thread_count env query system_info))) =
      max_threads_of (system_thread_count env query system_info)"
proof -
  let ?n = "system_thread_count env query system_info"
  have two: "uint (2 :: 64 word) = 2" by simp
  have info: "uint (of_nat n :: 64 word) = int n" if "n < 1073741824" for n
  proof -
    have "uint (of_int (int n) :: 64 word) = int n"
      unfolding uint_word_of_int using that by (intro mod_pos_pos_trivial) simp_all
    then show ?thesis by simp
  qed
  have "processors_ok (uint ?n)"
  proof (cases "override_count env > 0")
    case True
    then have "processors_ok (override_count env)" using assms(3) by (simp add: processors_ok_def)
    then show ?thesis using True by (simp add: system_thread_count_def processors_ok_word)
  next
    case False
    have "processors_ok (uint (case system_info of None \<Rightarrow> 2 | Some n \<Rightarrow> if n > 0 then of_nat n else (2 :: 64 word)))"
      using assms(2) info two by (auto simp: processors_ok_def split: option.splits)
    then show ?thesis using False assms(1)
      by (auto simp: system_thread_count_def query_ok_def processors_ok_word split: processor_query.splits option.splits)
  qed
  then show ?thesis unfolding max_threads_of_pool by (simp add: max_threads_of_wrap32 processors_ok_def)
qed

theorem thread_count_bounds_witness:
  "system_thread_count (Some ''6'') (Query_sysconf 8) None = 6 \<and> max_threads_of (system_thread_count (Some ''6'') (Query_sysconf 8) None) = 12"
proof -
  have e: "override_count (Some ''6'') = 6" by (simp add: override_count_def atoi_def is_space_def is_digit_def)
  have n: "system_thread_count (Some ''6'') (Query_sysconf 8) None = 6" by (simp add: system_thread_count_def e)
  have "max_threads_of (system_thread_count (Some ''6'') (Query_sysconf 8) None) =
      2 * uint (system_thread_count (Some ''6'') (Query_sysconf 8) None)"
    by (rule thread_count_bounds[THEN conjunct2, THEN conjunct1]) (simp_all add: query_ok_def processors_ok_def e)
  then show ?thesis unfolding n by simp
qed

text \<open>
  Above that the override turns against itself: \<open>XDISPATCH2_THREAD_COUNT=2000000000\<close> makes the maximum negative, the pool never
  creates a worker, and an operation given to it is never started.
\<close>

theorem thread_count_override_starves_pool:
  "max_threads_of (system_thread_count (Some ''2000000000'') query system_info) = - 294967296 \<and>
   (\<exists>d. reach tp_step (\<lambda>_. True) (tp_init 2000000000 1 1) (d, [P_client, W_unborn]) \<and> tp_submitted d = [7 :: nat] \<and> tp_started d = [] \<and>
      m_max_threads d = - 294967296 \<and> tp_unborn d = 0 \<and> (\<forall>e. tp_step (d, [P_client, W_unborn]) (1, e) = None))"
proof
  have "override_count (Some ''2000000000'') = 2000000000" by (simp add: override_count_def atoi_def is_space_def is_digit_def)
  then show "max_threads_of (system_thread_count (Some ''2000000000'') query system_info) = - 294967296"
    by (simp add: system_thread_count_def max_threads_of_wrap32 uint_word_of_int wrap32_def)
  let ?es = "(0, TE_execute (7 :: nat) BACKGROUND) # replicate 5 (0, TE_step)"
  have "\<exists>d. run tp_step (tp_init 2000000000 1 1) ?es = Some (d, [P_client, W_unborn]) \<and> tp_submitted d = [7] \<and> tp_started d = [] \<and>
      m_max_threads d = - 294967296 \<and> tp_unborn d = 0 \<and> \<not> tp_aborted d"
    by (simp add: tp_demo_defs eval_nat_numeral wrap32_def)
  then obtain d where r: "run tp_step (tp_init 2000000000 1 1) ?es = Some (d, [P_client, W_unborn])"
    and d: "tp_submitted d = [7]" "tp_started d = []" "m_max_threads d = - 294967296" "tp_unborn d = 0" "\<not> tp_aborted d" by blast
  have re: "reach tp_step (\<lambda>_. True) (tp_init 2000000000 1 1) (d, [P_client, W_unborn])" by (rule reach_run[OF r]) (simp add: list_all_iff)
  have "tp_step (d, [P_client, W_unborn]) (1, e) = None" for e
    using d(4,5) by (cases e) (simp_all add: tp_local_def)
  then show "\<exists>d. reach tp_step (\<lambda>_. True) (tp_init 2000000000 1 1) (d, [P_client, W_unborn]) \<and> tp_submitted d = [7 :: nat] \<and>
      tp_started d = [] \<and> m_max_threads d = - 294967296 \<and> tp_unborn d = 0 \<and> (\<forall>e. tp_step (d, [P_client, W_unborn]) (1, e) = None)"
    using re d by blast
qed

text \<open>The debugger reads a thread name only from a record with type \<open>0x1000\<close>, as the comment in the structure says.\<close>

lemma thread_name_type: "dwType (thread_name_info thread_id name) \<noteq> 0x1000"
  by (simp add: thread_name_info_def)

end
