(* ===== verification/Libdispatch.thy ===== *)
theory Libdispatch
  imports Types "HOL-Library.Word" "HOL-Library.Multiset"
begin

text \<open>
  The implementations of the libdispatch backend (\<open>src/libdispatch\<close>), as the sequences of calls that they make to the system library
  and to the allocator. The library itself is not modelled. What the code relies on is its documentation: an object is
  created with one reference; a source is created suspended and has to be resumed once more than it was suspended; a point in
  time is made by \<open>dispatch_time\<close> from a signed number of nanoseconds.

  The creation of a source is assumed to succeed.

  \<open>M_new\<close> and \<open>M_free\<close> are the allocation and the destruction of an \<open>operation_wrap\<close>, identified by its address.
\<close>

section \<open>Points in time\<close>

datatype dispatch_time = Time_now | Time_forever | Time_after int

abbreviation msec_max :: milliseconds where "msec_max \<equiv> 9223372036854775807"

text \<open>\<open>count() * NSEC_PER_MSEC\<close> is a product of unsigned 64 bit numbers, converted back to a signed one.\<close>

definition nsec_word :: "milliseconds \<Rightarrow> 64 word" where
  "nsec_word t = of_int t * 1000000"

definition nsec_delta :: "milliseconds \<Rightarrow> int" where
  "nsec_delta t = sint (nsec_word t)"

section \<open>The calls\<close>

datatype 'o native_call =
  N_create nat
| N_retain nat
| N_release nat
| N_async nat nat
| N_apply nat nat 'o
| N_after dispatch_time nat nat
| N_group_async nat nat nat
| N_group_wait nat dispatch_time
| N_group_notify nat nat nat
| N_set_timer nat dispatch_time "64 word" "64 word"
| N_set_context nat nat
| N_set_handler nat
| N_set_target nat nat
| N_resume nat
| N_suspend nat
| N_cancel nat
| M_new nat 'o
| M_free nat

text \<open>\<open>object_scope_T\<close>: \<open>take\<close> moves the object out, the destructor releases what is left.\<close>

record object_scope =
  os_object :: "nat option"

definition object_scope_new :: "nat \<Rightarrow> object_scope" where
  "object_scope_new object = \<lparr>os_object = Some object\<rparr>"

definition object_scope_take :: "object_scope \<Rightarrow> nat option \<times> object_scope" where
  "object_scope_take s = (os_object s, s\<lparr>os_object := None\<rparr>)"

definition object_scope_destroy :: "object_scope \<Rightarrow> 'o native_call list" where
  "object_scope_destroy s = (case os_object s of None \<Rightarrow> [] | Some object \<Rightarrow> [N_release object])"

section \<open>Queues and groups\<close>

record queue_impl_native =
  lq_native :: nat

definition lq_new :: "nat \<Rightarrow> queue_impl_native \<times> 'o native_call list" where
  "lq_new native = (\<lparr>lq_native = native\<rparr>, [N_retain native])"

definition lq_destroy :: "queue_impl_native \<Rightarrow> 'o native_call list" where
  "lq_destroy q = [N_release (lq_native q)]"

definition lq_async :: "queue_impl_native \<Rightarrow> nat \<Rightarrow> 'o \<Rightarrow> 'o native_call list" where
  "lq_async q wrapper op = [M_new wrapper op, N_async (lq_native q) wrapper]"

definition lq_apply :: "queue_impl_native \<Rightarrow> nat \<Rightarrow> 'o \<Rightarrow> 'o native_call list" where
  "lq_apply q n op = [N_apply n (lq_native q) op]"

definition lq_after :: "queue_impl_native \<Rightarrow> milliseconds \<Rightarrow> nat \<Rightarrow> 'o \<Rightarrow> 'o native_call list" where
  "lq_after q delay wrapper op = [M_new wrapper op, N_after (Time_after (nsec_delta delay)) (lq_native q) wrapper]"

text \<open>\<open>create_serial_queue\<close> of the backend, for the native queue that \<open>dispatch_queue_create\<close> returns.\<close>

definition lq_create_serial :: "nat \<Rightarrow> queue_impl_native \<times> 'o native_call list" where
  "lq_create_serial native =
     (let scope = object_scope_new native; (taken, scope') = object_scope_take scope; (q, calls) = lq_new (the taken)
      in (q, [N_create native] @ calls @ object_scope_destroy scope'))"

record group_impl_native =
  lg_native :: nat

definition lg_new :: "nat \<Rightarrow> group_impl_native \<times> 'o native_call list" where
  "lg_new native = (\<lparr>lg_native = native\<rparr>, [N_retain native])"

definition lg_destroy :: "group_impl_native \<Rightarrow> 'o native_call list" where
  "lg_destroy g = [N_release (lg_native g)]"

definition lg_async :: "group_impl_native \<Rightarrow> nat \<Rightarrow> nat \<Rightarrow> 'o \<Rightarrow> 'o native_call list" where
  "lg_async g queue wrapper op = [M_new wrapper op, N_group_async (lg_native g) queue wrapper]"

definition lg_notify :: "group_impl_native \<Rightarrow> nat \<Rightarrow> nat \<Rightarrow> 'o \<Rightarrow> 'o native_call list" where
  "lg_notify g queue wrapper op = [M_new wrapper op, N_group_notify (lg_native g) queue wrapper]"

definition lg_wait_time :: "milliseconds \<Rightarrow> dispatch_time" where
  "lg_wait_time timeout =
     (if timeout = msec_max then Time_forever else if timeout = 0 then Time_now else Time_after (nsec_delta timeout))"

text \<open>\<open>result\<close> is what \<open>dispatch_group_wait\<close> returns.\<close>

definition lg_wait :: "group_impl_native \<Rightarrow> milliseconds \<Rightarrow> int \<Rightarrow> bool \<times> 'o native_call list" where
  "lg_wait g timeout result = (result = 0, [N_group_wait (lg_native g) (lg_wait_time timeout)])"

section \<open>Timers\<close>

record timer_impl_native =
  lt_native :: nat
  lt_interval :: "64 word"
  lt_latency :: "64 word"
  lt_delay :: dispatch_time
  lt_wrapper :: "nat option"

datatype 'o lt_op =
  LT_interval milliseconds
| LT_latency timer_precision
| LT_handler nat 'o
| LT_target_queue nat
| LT_resume milliseconds
| LT_suspend
| LT_cancel

definition lt_new :: "nat \<Rightarrow> timer_impl_native \<times> 'o native_call list" where
  "lt_new native = (\<lparr>lt_native = native, lt_interval = 0, lt_latency = 0, lt_delay = Time_now, lt_wrapper = None\<rparr>, [N_retain native])"

definition lt_create :: "nat \<Rightarrow> timer_impl_native \<times> 'o native_call list" where
  "lt_create native =
     (let scope = object_scope_new native; (taken, scope') = object_scope_take scope; (t, calls) = lt_new (the taken)
      in (t, [N_create native] @ calls @ object_scope_destroy scope'))"

definition lt_set_timer :: "timer_impl_native \<Rightarrow> 'o native_call" where
  "lt_set_timer t = N_set_timer (lt_native t) (lt_delay t) (lt_interval t) (lt_latency t)"

definition lt_free_wrapper :: "timer_impl_native \<Rightarrow> 'o native_call list" where
  "lt_free_wrapper t = (case lt_wrapper t of None \<Rightarrow> [] | Some w \<Rightarrow> [M_free w])"

definition latency_of :: "timer_precision \<Rightarrow> 64 word" where
  "latency_of precision = (case precision of COARSE \<Rightarrow> 1000000000 | PRECISION_DEFAULT \<Rightarrow> 5 * 1000000 | PRECISE \<Rightarrow> 0)"

fun lt_call :: "'o lt_op \<Rightarrow> timer_impl_native \<Rightarrow> timer_impl_native \<times> 'o native_call list" where
  "lt_call (LT_interval interval) t =
     (let t' = t\<lparr>lt_interval := nsec_word interval, lt_delay := Time_after (sint (nsec_word interval))\<rparr> in (t', [lt_set_timer t']))"
| "lt_call (LT_latency precision) t = (let t' = t\<lparr>lt_latency := latency_of precision\<rparr> in (t', [lt_set_timer t']))"
| "lt_call (LT_handler wrapper op) t =
     (t\<lparr>lt_wrapper := Some wrapper\<rparr>,
      [M_new wrapper op] @ lt_free_wrapper t @ [N_set_context (lt_native t) wrapper, N_set_handler (lt_native t)])"
| "lt_call (LT_target_queue queue) t = (t, [N_set_target (lt_native t) queue])"
| "lt_call (LT_resume delay) t =
     (let t' = t\<lparr>lt_delay := if delay = 0 then Time_now else Time_after (nsec_delta delay)\<rparr>
      in (t', [lt_set_timer t', N_resume (lt_native t)]))"
| "lt_call LT_suspend t = (t, [N_suspend (lt_native t)])"
| "lt_call LT_cancel t = (t, [N_cancel (lt_native t)])"

text \<open>The destructor: its body, then the destruction of \<open>m_wrapper\<close>.\<close>

definition lt_destroy :: "timer_impl_native \<Rightarrow> 'o native_call list" where
  "lt_destroy t = [N_cancel (lt_native t), N_release (lt_native t)] @ lt_free_wrapper t"

section \<open>Socket notifiers\<close>

record 'o socket_notifier_impl_native =
  ln_queue :: nat
  ln_socket :: socket_t
  ln_type :: notifier_type
  ln_native :: nat
  ln_disabled :: bool
  ln_operation :: "'o option"

datatype 'o ln_op = LN_handler 'o | LN_target_queue nat | LN_resume | LN_suspend | LN_cancel

definition ln_new :: "nat \<Rightarrow> socket_t \<Rightarrow> notifier_type \<Rightarrow> nat \<Rightarrow> 'o socket_notifier_impl_native \<times> 'o native_call list" where
  "ln_new queue socket type native =
     (\<lparr>ln_queue = queue, ln_socket = socket, ln_type = type, ln_native = native, ln_disabled = False, ln_operation = None\<rparr>,
      [N_create native])"

text \<open>The context is the notifier itself, written as \<open>0\<close>. \<open>cancel\<close> also disables the \<open>cancelable\<close>.\<close>

fun ln_call :: "'o ln_op \<Rightarrow> 'o socket_notifier_impl_native \<Rightarrow> 'o socket_notifier_impl_native \<times> 'o native_call list" where
  "ln_call (LN_handler op) n = (n\<lparr>ln_operation := Some op\<rparr>, [N_set_context (ln_native n) 0, N_set_handler (ln_native n)])"
| "ln_call (LN_target_queue queue) n = (n\<lparr>ln_queue := queue\<rparr>, [N_set_target (ln_native n) queue])"
| "ln_call LN_resume n = (n, [N_resume (ln_native n)])"
| "ln_call LN_suspend n = (n, [N_suspend (ln_native n)])"
| "ln_call LN_cancel n = (n\<lparr>ln_disabled := True\<rparr>, [N_cancel (ln_native n)])"

definition ln_destroy :: "'o socket_notifier_impl_native \<Rightarrow> 'o native_call list" where
  "ln_destroy n = [N_resume (ln_native n), N_cancel (ln_native n), N_release (ln_native n)]"

text \<open>
  The callback of a notifier: \<open>available\<close> is the result of \<open>dispatch_source_get_data\<close>, \<open>busy\<close> tells whether another
  callback is inside the \<open>cancelable_scope\<close>.
\<close>

datatype 'o callback_action = CB_sleep int | CB_execute 'o socket_t notifier_type

definition ln_callback :: "'o socket_notifier_impl_native \<Rightarrow> nat \<Rightarrow> bool \<Rightarrow> 'o callback_action list" where
  "ln_callback n available busy =
     (if ln_type n = WRITE \<and> available = 0 then [CB_sleep 50]
      else let scope = (\<not> ln_disabled n \<and> \<not> busy) in
           case ln_operation n of
             None \<Rightarrow> []
           | Some op \<Rightarrow> if scope then [CB_execute op (ln_socket n) (ln_type n)] else [])"

section \<open>Executing an operation\<close>

text \<open>How an operation ends, and how \<open>run_wrapper\<close> does; what is printed is left out but for the fact.\<close>

datatype op_outcome = Op_returns | Op_throws_exception string | Op_throws_other

datatype run_outcome = Run_returns | Run_throws op_outcome | Run_terminates

definition run_operation :: "bool \<Rightarrow> op_outcome \<Rightarrow> run_outcome \<times> bool" where
  "run_operation debug outcome =
     (case outcome of
        Op_returns \<Rightarrow> (Run_returns, False)
      | Op_throws_exception what \<Rightarrow> (Run_throws outcome, \<not> debug)
      | Op_throws_other \<Rightarrow> if debug then (Run_throws outcome, False) else (Run_terminates, True))"

text \<open>
  \<open>wrapper\<close> is the address and the operation in it. \<open>run_wrap_delete\<close> takes the ownership of the wrapper: it is freed
  when the operation returns and when an exception passes; not if the process terminates.
\<close>

definition run_wrapper :: "bool \<Rightarrow> (nat \<times> 'o option) option \<Rightarrow> ('o \<Rightarrow> op_outcome) \<Rightarrow> run_outcome \<times> bool" where
  "run_wrapper debug wrapper execute =
     (case wrapper of
        Some (_, Some op) \<Rightarrow> run_operation debug (execute op)
      | _ \<Rightarrow> (Run_terminates, True))"

definition run_wrap_delete ::
  "bool \<Rightarrow> (nat \<times> 'o option) option \<Rightarrow> ('o \<Rightarrow> op_outcome) \<Rightarrow> run_outcome \<times> 'o native_call list"
where
  "run_wrap_delete debug dt execute =
     (case dt of
        None \<Rightarrow> (Run_terminates, [])
      | Some (w, op) \<Rightarrow>
          (case fst (run_wrapper debug dt execute) of
             Run_terminates \<Rightarrow> (Run_terminates, [])
           | r \<Rightarrow> (r, [M_free w])))"

definition run_wrap :: "bool \<Rightarrow> (nat \<times> 'o option) option \<Rightarrow> ('o \<Rightarrow> op_outcome) \<Rightarrow> run_outcome \<times> 'o native_call list" where
  "run_wrap debug dt execute = (fst (run_wrapper debug dt execute), [])"

definition run_iter_wrap :: "bool \<Rightarrow> 'o option option \<Rightarrow> ('o \<Rightarrow> nat \<Rightarrow> op_outcome) \<Rightarrow> nat \<Rightarrow> run_outcome \<times> bool" where
  "run_iter_wrap debug dt execute index =
     (case dt of
        Some (Some op) \<Rightarrow> run_operation debug (execute op index)
      | _ \<Rightarrow> (Run_terminates, True))"

section \<open>Lives of objects\<close>

fun lt_run :: "'o lt_op list \<Rightarrow> timer_impl_native \<Rightarrow> timer_impl_native \<times> 'o native_call list" where
  "lt_run [] t = (t, [])"
| "lt_run (op # ops) t = (let (t', calls) = lt_call op t; (t'', calls') = lt_run ops t' in (t'', calls @ calls'))"

fun ln_run :: "'o ln_op list \<Rightarrow> 'o socket_notifier_impl_native \<Rightarrow> 'o socket_notifier_impl_native \<times> 'o native_call list" where
  "ln_run [] n = (n, [])"
| "ln_run (op # ops) n = (let (n', calls) = ln_call op n; (n'', calls') = ln_run ops n' in (n'', calls @ calls'))"

definition lt_life :: "nat \<Rightarrow> 'o lt_op list \<Rightarrow> 'o native_call list" where
  "lt_life native ops = (let (t, calls) = lt_create native; (t', calls') = lt_run ops t in calls @ calls' @ lt_destroy t')"

definition ln_life :: "nat \<Rightarrow> socket_t \<Rightarrow> notifier_type \<Rightarrow> nat \<Rightarrow> 'o ln_op list \<Rightarrow> 'o native_call list" where
  "ln_life queue socket type native ops =
     (let (n, calls) = ln_new queue socket type native; (n', calls') = ln_run ops n in calls @ calls' @ ln_destroy n')"

text \<open>What the documentation says of a call: references held, and how often a source is suspended.\<close>

fun reference_change :: "nat \<Rightarrow> 'o native_call \<Rightarrow> int" where
  "reference_change x (N_create y) = (if x = y then 1 else 0)"
| "reference_change x (N_retain y) = (if x = y then 1 else 0)"
| "reference_change x (N_release y) = (if x = y then -1 else 0)"
| "reference_change x _ = 0"

fun suspend_change :: "nat \<Rightarrow> 'o native_call \<Rightarrow> int" where
  "suspend_change x (N_create y) = (if x = y then 1 else 0)"
| "suspend_change x (N_suspend y) = (if x = y then 1 else 0)"
| "suspend_change x (N_resume y) = (if x = y then -1 else 0)"
| "suspend_change x _ = 0"

definition references :: "nat \<Rightarrow> 'o native_call list \<Rightarrow> int" where
  "references x calls = sum_list (map (reference_change x) calls)"

definition suspensions :: "nat \<Rightarrow> 'o native_call list \<Rightarrow> int" where
  "suspensions x calls = sum_list (map (suspend_change x) calls)"

lemma references_simps [simp]:
  "references x [] = 0" "references x (c # cs) = reference_change x c + references x cs"
  "references x (cs @ ds) = references x cs + references x ds"
  by (simp_all add: references_def)

lemma suspensions_simps [simp]:
  "suspensions x [] = 0" "suspensions x (c # cs) = suspend_change x c + suspensions x cs"
  "suspensions x (cs @ ds) = suspensions x cs + suspensions x ds"
  by (simp_all add: suspensions_def)

lemmas scope_defs = object_scope_new_def object_scope_take_def object_scope_destroy_def

lemma lt_create_eq: "lt_create native =
    (\<lparr>lt_native = native, lt_interval = 0, lt_latency = 0, lt_delay = Time_now, lt_wrapper = None\<rparr>, [N_create native, N_retain native])"
  by (simp add: lt_create_def lt_new_def scope_defs)

lemma lq_create_serial_eq: "lq_create_serial native = (\<lparr>lq_native = native\<rparr>, [N_create native, N_retain native])"
  by (simp add: lq_create_serial_def lq_new_def scope_defs)

lemma lt_free_wrapper_simps [simp]: "references x (lt_free_wrapper t) = 0" "suspensions x (lt_free_wrapper t) = 0"
  by (simp_all add: lt_free_wrapper_def split: option.splits)

lemma lt_call_native: "lt_native (fst (lt_call op t)) = lt_native t \<and> references x (snd (lt_call op t)) = 0"
  by (cases op) (simp_all add: Let_def lt_set_timer_def)

lemma lt_run_native: "lt_native (fst (lt_run ops t)) = lt_native t \<and> references x (snd (lt_run ops t)) = 0"
proof (induction ops arbitrary: t)
  case (Cons op ops)
  then show ?case using lt_call_native[of op t x] Cons.IH[of "fst (lt_call op t)"] by (simp add: case_prod_unfold Let_def)
qed simp

lemma ln_call_native [simp]: "ln_native (fst (ln_call op n)) = ln_native n" "references x (snd (ln_call op n)) = 0"
  by (cases op; simp)+

lemma ln_run_native [simp]: "ln_native (fst (ln_run ops n)) = ln_native n"
  by (induction ops arbitrary: n) (simp_all add: case_prod_unfold Let_def)

lemma ln_run_references [simp]: "references x (snd (ln_run ops n)) = 0"
  by (induction ops arbitrary: n) (simp_all add: case_prod_unfold Let_def)

section \<open>Properties\<close>

lemma nsec_delta_exact:
  assumes "\<bar>t\<bar> \<le> 9223372036854"
  shows "nsec_delta t = t * 1000000"
proof -
  have "nsec_word t = word_of_int (t * 1000000)" by (simp add: nsec_word_def)
  moreover have "sint (word_of_int (t * 1000000) :: 64 word) = t * 1000000"
    unfolding sint_sbintrunc' using assms by (intro signed_take_bit_int_eq_self) simp_all
  ultimately show ?thesis by (simp add: nsec_delta_def)
qed

lemma nsec_word_exact:
  assumes "0 \<le> t" and "t \<le> 9223372036854"
  shows "uint (nsec_word t) = t * 1000000"
proof -
  have "nsec_word t = word_of_int (t * 1000000)" by (simp add: nsec_word_def)
  then have "uint (nsec_word t) = take_bit 64 (t * 1000000)" by (simp only: uint_word_of_int_eq) simp
  also have "\<dots> = t * 1000000" using assms by (intro take_bit_int_eq_self) simp_all
  finally show ?thesis .
qed

text \<open>
  C39. Durations are converted exactly, from zero up to 292 years: the native call of \<open>after\<close> and the one of a wait get the number of
  nanoseconds that corresponds to the milliseconds of the caller; \<open>interval\<close> sets the native timer once, with that number as its first
  delay and as its period; \<open>resume\<close> sets it with that number as the first delay, keeps the period and the latency, and resumes it. A wait
  without a limit (the largest value of the type) is one for ever. Negative durations, for which this does not hold, are below.
\<close>

theorem native_times_exact:
  assumes "0 \<le> t" and "t \<le> 9223372036854"
  shows "lq_after q t w op = [M_new w op, N_after (Time_after (t * 1000000)) (lq_native q) w] \<and>
    (\<exists>timer' period. lt_call (LT_interval t) timer =
       (timer', [N_set_timer (lt_native timer) (Time_after (t * 1000000)) period (lt_latency timer)]) \<and>
       uint period = t * 1000000 \<and> lt_interval timer' = period) \<and>
    snd (lt_call (LT_resume t) timer) =
      [N_set_timer (lt_native timer) (if t = 0 then Time_now else Time_after (t * 1000000)) (lt_interval timer) (lt_latency timer),
       N_resume (lt_native timer)] \<and>
    snd (lg_wait g t result) = [N_group_wait (lg_native g) (if t = 0 then Time_now else Time_after (t * 1000000))] \<and>
    snd (lg_wait g msec_max result) = [N_group_wait (lg_native g) Time_forever]"
proof -
  have "t \<noteq> msec_max" using assms by auto
  moreover have "nsec_delta t = t * 1000000" using assms by (intro nsec_delta_exact) simp
  moreover from this have "sint (nsec_word t) = t * 1000000" by (simp add: nsec_delta_def)
  ultimately show ?thesis using nsec_word_exact[OF assms]
    by (simp add: lq_after_def lg_wait_def lg_wait_time_def lt_set_timer_def Let_def)
qed

theorem native_times_exact_witness:
  "snd (lg_wait \<lparr>lg_native = 3\<rparr> 1500 0) = [N_group_wait 3 (Time_after 1500000000) :: nat native_call]"
  using native_times_exact[of 1500 _ _ _ _ "\<lparr>lg_native = 3\<rparr>" 0, THEN conjunct2, THEN conjunct2, THEN conjunct2, THEN conjunct1] by simp

text \<open>
  Outside of these bounds, and for the default timeout of \<open>group::wait\<close>, they are not what the caller means: \<open>-1\<close>, which is
  documented to wait for ever, becomes a point in the past, and the largest delay becomes one, too.
\<close>

theorem native_wait_does_not_wait:
  "lg_wait g (-1) 49 = (False, [N_group_wait (lg_native g) (Time_after (- 1000000))]) \<and>
   lq_after q msec_max w op = [M_new w op, N_after (Time_after (- 1000000)) (lq_native q) w]"
proof -
  have "nsec_delta (-1) = - 1000000" using nsec_delta_exact[of "-1"] by simp
  moreover have "nsec_word msec_max = nsec_word (-1)" by (simp add: nsec_word_def)
  ultimately show ?thesis by (simp add: lg_wait_def lg_wait_time_def lq_after_def nsec_delta_def)
qed

text \<open>
  References: a queue that adopts a native queue takes and drops one reference and leaves those of the owner alone. But the
  timers and queues that the backend creates itself take another reference than the one they were created with, and
  drop only one: whatever is done with them, the native object is never freed. Socket notifiers drop theirs.
\<close>

theorem native_references:
  "references native (snd (lq_new native) @ lq_destroy (fst (lq_new native))) = 0 \<and>
   references native (snd (lq_create_serial native) @ lq_destroy (fst (lq_create_serial native))) = 1 \<and>
   references native (lt_life native ops) = 1 \<and>
   references native (ln_life queue socket type native ops') = 0"
  by (simp add: lt_run_native lq_new_def lq_destroy_def lq_create_serial_eq lt_life_def lt_create_eq lt_destroy_def lt_new_def ln_life_def ln_new_def
      ln_destroy_def case_prod_unfold Let_def)

text \<open>What the native source has been configured to last, and the wrapper that it has as its context.\<close>

fun native_timer :: "(dispatch_time \<times> 64 word \<times> 64 word) option \<Rightarrow> 'o native_call list \<Rightarrow> (dispatch_time \<times> 64 word \<times> 64 word) option" where
  "native_timer c [] = c"
| "native_timer c (N_set_timer x d i l # cs) = native_timer (Some (d, i, l)) cs"
| "native_timer c (_ # cs) = native_timer c cs"

fun native_context :: "nat option \<Rightarrow> 'o native_call list \<Rightarrow> nat option" where
  "native_context c [] = c"
| "native_context c (N_set_context x w # cs) = native_context (Some w) cs"
| "native_context c (_ # cs) = native_context c cs"

lemma native_timer_append: "native_timer c (xs @ ys) = native_timer (native_timer c xs) ys"
  by (induction c xs rule: native_timer.induct) simp_all

lemma native_context_append: "native_context c (xs @ ys) = native_context (native_context c xs) ys"
  by (induction c xs rule: native_context.induct) simp_all

definition lt_synced :: "timer_impl_native \<Rightarrow> 'o native_call list \<Rightarrow> bool" where
  "lt_synced t calls \<longleftrightarrow>
     native_timer None calls \<in> {None, Some (lt_delay t, lt_interval t, lt_latency t)} \<and>
     (native_timer None calls = None \<longrightarrow> lt_delay t = Time_now \<and> lt_interval t = 0 \<and> lt_latency t = 0) \<and>
     native_context None calls = lt_wrapper t"

lemma lt_call_synced: "lt_synced t calls \<Longrightarrow> lt_synced (fst (lt_call op t)) (calls @ snd (lt_call op t))"
  by (cases op) (auto simp: lt_synced_def native_timer_append native_context_append lt_set_timer_def lt_free_wrapper_def Let_def
      split: option.splits)

lemma lt_run_synced: "lt_synced t calls \<Longrightarrow> lt_synced (fst (lt_run ops t)) (calls @ snd (lt_run ops t))"
proof (induction ops arbitrary: t calls)
  case (Cons op ops)
  from Cons.IH[OF lt_call_synced[OF Cons.prems, of op]] show ?case by (simp add: case_prod_unfold Let_def)
qed simp

text \<open>
  The native timer follows the object: after any sequence of calls it has been configured with the delay, interval
  and latency that the object holds (or never, while they have their initial values), and its context is the current wrapper.
\<close>

theorem native_timer_in_sync:
  "lt_synced (fst (lt_run ops (fst (lt_create native :: _ \<times> 'o native_call list))))
     (snd (lt_create native) @ snd (lt_run ops (fst (lt_create native :: _ \<times> 'o native_call list))) :: 'o native_call list)"
proof (rule lt_run_synced)
  show "lt_synced (fst (lt_create native :: _ \<times> 'o native_call list)) (snd (lt_create native) :: 'o native_call list)"
    by (simp add: lt_create_eq lt_synced_def)
qed

fun news :: "'o native_call list \<Rightarrow> nat list" where
  "news [] = []"
| "news (M_new w op # cs) = w # news cs"
| "news (_ # cs) = news cs"

fun frees :: "'o native_call list \<Rightarrow> nat list" where
  "frees [] = []"
| "frees (M_free w # cs) = w # frees cs"
| "frees (_ # cs) = frees cs"

lemma news_append [simp]: "news (xs @ ys) = news xs @ news ys"
  by (induction xs rule: news.induct) simp_all

lemma frees_append [simp]: "frees (xs @ ys) = frees xs @ frees ys"
  by (induction xs rule: frees.induct) simp_all

lemma frees_lt_wrapper [simp]: "frees (lt_free_wrapper t) = (case lt_wrapper t of None \<Rightarrow> [] | Some w \<Rightarrow> [w])"
  "news (lt_free_wrapper t) = []"
  by (simp_all add: lt_free_wrapper_def split: option.splits)

definition lt_owned :: "timer_impl_native \<Rightarrow> nat multiset" where
  "lt_owned t = (case lt_wrapper t of None \<Rightarrow> {#} | Some w \<Rightarrow> {#w#})"

lemma lt_call_owned:
  "mset (news (snd (lt_call op t))) + lt_owned t = mset (frees (snd (lt_call op t))) + lt_owned (fst (lt_call op t))"
  by (cases op) (auto simp: lt_owned_def lt_set_timer_def Let_def split: option.splits)

lemma lt_run_owned:
  "mset (news (snd (lt_run ops t))) + lt_owned t = mset (frees (snd (lt_run ops t))) + lt_owned (fst (lt_run ops t))"
proof (induction ops arbitrary: t)
  case (Cons op ops)
  show ?case
  proof (rule multiset_eqI)
    fix x
    show "count (mset (news (snd (lt_run (op # ops) t))) + lt_owned t) x =
        count (mset (frees (snd (lt_run (op # ops) t))) + lt_owned (fst (lt_run (op # ops) t))) x"
      using arg_cong[OF Cons.IH[of "fst (lt_call op t)"], of "\<lambda>M. count M x"]
        arg_cong[OF lt_call_owned[of op t], of "\<lambda>M. count M x"]
      by (simp add: case_prod_unfold Let_def)
  qed
qed simp

text \<open>Every wrapper that a timer allocates is freed exactly once over its life, whatever is called on it.\<close>

theorem timer_frees_its_wrappers: "mset (news (lt_life native ops)) = mset (frees (lt_life native ops))"
  using lt_run_owned[of ops "\<lparr>lt_native = native, lt_interval = 0, lt_latency = 0, lt_delay = Time_now, lt_wrapper = None\<rparr>"]
  by (auto simp: lt_life_def lt_create_eq lt_destroy_def case_prod_unfold Let_def lt_owned_def split: option.splits)

text \<open>
  But not in time. Replacing the handler of a timer that is already running frees the wrapper that is still the context of the native
  source; and a notifier that is destroyed while it runs resumes its source once more than it was suspended.
\<close>

theorem native_lifetime_errors:
  "(\<exists>early late. snd (lt_run [LT_handler 1 op, LT_resume 0, LT_handler 2 op'] (fst (lt_create native :: _ \<times> 'o native_call list))) = early @ late \<and>
      native_context None early = Some 1 \<and> frees early = [1] \<and> suspensions native (N_create native # early) = 0) \<and>
   (\<exists>early late. (ln_life queue socket type native [LN_handler op, LN_resume]) = early @ late \<and>
      suspensions native early = - 1)"
proof
  show "\<exists>early late. snd (lt_run [LT_handler 1 op, LT_resume 0, LT_handler 2 op'] (fst (lt_create native :: _ \<times> 'o native_call list))) =
      early @ late \<and> native_context None early = Some 1 \<and> frees early = [1] \<and> suspensions native (N_create native # early) = 0"
    by (rule exI[of _ "[M_new 1 op, N_set_context native 1, N_set_handler native, N_set_timer native Time_now 0 0, N_resume native,
          M_new 2 op', M_free 1]"], rule exI[of _ "[N_set_context native 2, N_set_handler native]"])
      (simp add: lt_create_eq lt_set_timer_def lt_free_wrapper_def Let_def)
  show "\<exists>early late. (ln_life queue socket type native [LN_handler op, LN_resume]) = early @ late \<and>
      suspensions native early = - 1"
    by (rule exI[of _ "[N_create native, N_set_context native 0, N_set_handler native, N_resume native, N_resume native]"],
        rule exI[of _ "[N_cancel native, N_release native]"])
      (simp add: ln_life_def ln_new_def ln_destroy_def)
qed

text \<open>
  Executing an operation: the wrapper of a queued operation is freed also when an exception leaves the operation. A standard
  exception is passed on, any other terminates the process, unless the build is a debug build.
\<close>

theorem run_wrap_delete_result:
  "run_wrap_delete debug (Some (w, Some op)) execute =
     (case execute op of
        Op_returns \<Rightarrow> (Run_returns, [M_free w])
      | Op_throws_exception what \<Rightarrow> (Run_throws (Op_throws_exception what), [M_free w])
      | Op_throws_other \<Rightarrow> if debug then (Run_throws Op_throws_other, [M_free w]) else (Run_terminates, []))"
  by (simp add: run_wrap_delete_def run_wrapper_def run_operation_def split: op_outcome.splits)

text \<open>A notifier that was cancelled stays cancelled: whatever is called afterwards, its callback executes nothing.\<close>

lemma ln_run_disabled: "ln_disabled n \<Longrightarrow> ln_disabled (fst (ln_run ops n))"
proof (induction ops arbitrary: n)
  case (Cons op ops)
  have "ln_disabled (fst (ln_call op n))" using Cons.prems by (cases op) simp_all
  from Cons.IH[OF this] show ?case by (simp add: case_prod_unfold Let_def)
qed simp

lemma ln_cancelled_executes_nothing:
  "CB_execute op s ty \<notin> set (ln_callback (fst (ln_run ops (fst (ln_call LN_cancel n)))) available busy)"
proof -
  have "ln_disabled (fst (ln_run ops (fst (ln_call LN_cancel n))))" by (rule ln_run_disabled) simp
  then show ?thesis by (simp add: ln_callback_def split: option.splits)
qed

end
