(* ===== verification/Backend.thy ===== *)
theory Backend
  imports Types
begin

text \<open>
  The public classes and the backends behind them (\<open>src/backend.cpp\<close>, \<open>queue.cpp\<close>, \<open>group.cpp\<close>, \<open>timer.cpp\<close>,
  \<open>socket_notifier.cpp\<close>, \<open>trace_utils.cpp\<close>, the factories of \<open>src/naive\<close>, \<open>src/libdispatch\<close> and \<open>src/qt5\<close>):
  which backend is selected, which implementation object a factory creates, which checks a call passes, and which call the
  implementation receives. What the implementations do with the calls is the subject of the other theories.

  The build configuration \<open>bc_*\<close> and the symbols that the linker or \<open>dlsym\<close> finds (\<open>bc_resolve\<close>) are parameters. An
  implementation object is identified by a number (\<open>qi_id\<close>, \<dots>), which stands for the pointer in \<open>m_impl\<close>. A failed
  \<open>XDISPATCH_ASSERT\<close> terminates the process; the \<open>throw\<close> after it in \<open>assert_same_backend\<close> is not reached.
\<close>

section \<open>Implementations, errors and the state\<close>

datatype backend_class = Naive_class | Libdispatch_class | Qt5_class

datatype executor_ref =
  Ex_main_thread
| Ex_global_pool
| Ex_pool nat
| Ex_qthread nat
| Ex_qpool nat
| Ex_native nat
| Ex_native_main
| Ex_native_global queue_priority

record queue_impl =
  qi_id :: nat
  qi_backend :: backend_type
  qi_serial :: bool
  qi_executor :: executor_ref
  qi_label :: string
  qi_priority :: queue_priority

record group_impl_ref =
  gi_id :: nat
  gi_backend :: backend_type

record timer_impl_ref =
  ti_id :: nat
  ti_backend :: backend_type
  ti_queue :: queue_impl

record socket_notifier_impl_ref =
  ni_id :: nat
  ni_backend :: backend_type
  ni_queue :: queue_impl
  ni_socket :: socket_t
  ni_type :: notifier_type

datatype 'o impl_call =
  Q_async nat 'o
| Q_apply nat nat 'o
| Q_after nat milliseconds 'o
| G_async nat 'o nat
| G_notify nat 'o nat
| G_wait nat milliseconds
| T_interval nat milliseconds
| T_latency nat timer_precision
| T_resume nat milliseconds
| T_suspend nat
| T_cancel nat
| T_handler nat 'o
| N_resume nat
| N_suspend nat
| N_cancel nat
| N_handler nat 'o
| Exec executor_ref
| Warning string

datatype api_error = Assertion string | Null_reference | No_backend

record build_config =
  bc_naive :: bool
  bc_qt5 :: bool
  bc_libdispatch :: bool
  bc_static :: bool
  bc_resolve :: "string \<Rightarrow> backend_class option"

record 'o api_world =
  aw_next :: nat
  aw_app :: "nat option"
  aw_naive_main :: "queue_impl option"
  aw_main :: "queue_impl option"
  aw_global :: "string \<Rightarrow> queue_impl option"
  aw_manager :: "executor_ref list"
  aw_calls :: "'o impl_call list"

type_synonym ('o, 'a) api = "'o api_world \<Rightarrow> api_error + 'a \<times> 'o api_world"

definition api_return :: "'a \<Rightarrow> ('o, 'a) api" where
  "api_return a w = Inr (a, w)"

definition api_fail :: "api_error \<Rightarrow> ('o, 'a) api" where
  "api_fail e w = Inl e"

definition api_bind :: "('o, 'a) api \<Rightarrow> ('a \<Rightarrow> ('o, 'b) api) \<Rightarrow> ('o, 'b) api" where
  "api_bind m f w = (case m w of Inl e \<Rightarrow> Inl e | Inr (a, w') \<Rightarrow> f a w')"

definition api_assert :: "bool \<Rightarrow> string \<Rightarrow> ('o, unit) api" where
  "api_assert b msg = (if b then api_return () else api_fail (Assertion msg))"

definition api_call :: "'o impl_call \<Rightarrow> ('o, unit) api" where
  "api_call c w = Inr ((), w\<lparr>aw_calls := aw_calls w @ [c]\<rparr>)"

definition api_fresh :: "('o, nat) api" where
  "api_fresh w = Inr (aw_next w, w\<lparr>aw_next := aw_next w + 1\<rparr>)"

definition api_deref :: "'a option \<Rightarrow> ('o, 'a) api" where
  "api_deref p = (case p of None \<Rightarrow> api_fail Null_reference | Some a \<Rightarrow> api_return a)"

named_theorems api_defs \<open>the definitions of the state and error monad\<close>

declare api_return_def [api_defs] api_fail_def [api_defs] api_bind_def [api_defs] api_assert_def [api_defs]
  api_call_def [api_defs] api_fresh_def [api_defs] api_deref_def [api_defs]

section \<open>Selecting a backend\<close>

definition entry_point :: "string \<Rightarrow> string" where
  "entry_point backend = backend @ ''_backend_get_static_instance_impl''"

text \<open>\<open>XDISPATCH_DECLARE_BACKEND\<close> and the loop of \<open>XDISPATCH_IMPORT_SHARED_BACKEND\<close>.\<close>

definition declared_backend :: "build_config \<Rightarrow> string \<Rightarrow> backend_class option" where
  "declared_backend cfg backend = bc_resolve cfg (entry_point backend)"

fun shared_backend :: "build_config \<Rightarrow> string list \<Rightarrow> backend_class option" where
  "shared_backend cfg [] = None"
| "shared_backend cfg (backend # backends) =
     (case bc_resolve cfg (entry_point backend) of
        Some instance \<Rightarrow> Some instance
      | None \<Rightarrow> shared_backend cfg backends)"

definition imported_backend :: "build_config \<Rightarrow> string \<Rightarrow> string list \<Rightarrow> backend_class option" where
  "imported_backend cfg backend fallbacks =
     (if bc_static cfg then declared_backend cfg backend else shared_backend cfg (backend # fallbacks))"

definition backend_for_type :: "build_config \<Rightarrow> backend_type \<Rightarrow> ('o, backend_class) api" where
  "backend_for_type cfg type =
     (let naive = (if bc_naive cfg then api_deref (declared_backend cfg ''naive'') else api_fail No_backend)
      in case type of
           Backend_libdispatch \<Rightarrow>
             if bc_libdispatch cfg then api_deref (declared_backend cfg ''libdispatch'') else naive
         | Backend_qt5 \<Rightarrow>
             if bc_qt5 cfg then api_deref (imported_backend cfg ''qt5'' [''libdispatch'', ''naive'']) else naive
         | Backend_naive \<Rightarrow> naive)"

definition platform_backend_type :: "build_config \<Rightarrow> backend_type" where
  "platform_backend_type cfg =
     (if bc_qt5 cfg then Backend_qt5 else if bc_libdispatch cfg then Backend_libdispatch else Backend_naive)"

definition platform_backend :: "build_config \<Rightarrow> ('o, backend_class) api" where
  "platform_backend cfg = backend_for_type cfg (platform_backend_type cfg)"

section \<open>The factories of the backends\<close>

subsection \<open>naive\<close>

text \<open>The constructors of \<open>serial_queue_impl\<close> and \<open>parallel_queue_impl\<close>, and the destructor of the latter.\<close>

definition serial_queue_impl_new ::
  "executor_ref option \<Rightarrow> string \<Rightarrow> queue_priority \<Rightarrow> backend_type \<Rightarrow> ('o, queue_impl) api"
where
  "serial_queue_impl_new threadpool label priority backend =
     (case threadpool of
        None \<Rightarrow> api_fail (Assertion ''threadpool'')
      | Some pool \<Rightarrow> api_bind api_fresh (\<lambda>n. api_return
          \<lparr>qi_id = n, qi_backend = backend, qi_serial = True, qi_executor = pool, qi_label = label, qi_priority = priority\<rparr>))"

definition manager_attach :: "executor_ref \<Rightarrow> ('o, unit) api" where
  "manager_attach pool w = Inr ((), w\<lparr>aw_manager := aw_manager w @ [pool]\<rparr>)"

definition parallel_queue_impl_new :: "executor_ref option \<Rightarrow> queue_priority \<Rightarrow> backend_type \<Rightarrow> ('o, queue_impl) api" where
  "parallel_queue_impl_new pool priority backend =
     (case pool of
        None \<Rightarrow> api_fail (Assertion ''m_pool'')
      | Some p \<Rightarrow> api_bind (manager_attach p) (\<lambda>_. api_bind api_fresh (\<lambda>n. api_return
          \<lparr>qi_id = n, qi_backend = backend, qi_serial = False, qi_executor = p, qi_label = '''', qi_priority = priority\<rparr>)))"

definition parallel_queue_impl_destroy :: "queue_impl \<Rightarrow> ('o, unit) api" where
  "parallel_queue_impl_destroy q w = Inr ((), w\<lparr>aw_manager := filter (\<lambda>p. p \<noteq> qi_executor q) (aw_manager w)\<rparr>)"

definition naive_create_serial_queue :: "string \<Rightarrow> queue_priority \<Rightarrow> backend_type \<Rightarrow> ('o, queue_impl) api" where
  "naive_create_serial_queue label priority backend = serial_queue_impl_new (Some Ex_global_pool) label priority backend"

definition naive_create_parallel_queue :: "string \<Rightarrow> queue_priority \<Rightarrow> backend_type \<Rightarrow> ('o, queue_impl) api" where
  "naive_create_parallel_queue label priority backend = parallel_queue_impl_new (Some Ex_global_pool) priority backend"

definition naive_create_main_queue :: "string \<Rightarrow> backend_type \<Rightarrow> ('o, queue_impl) api" where
  "naive_create_main_queue label backend w =
     (case aw_naive_main w of
        Some q \<Rightarrow> Inr (q, w)
      | None \<Rightarrow> api_bind (serial_queue_impl_new (Some Ex_main_thread) label USER_INTERACTIVE backend)
                  (\<lambda>q w'. Inr (q, w'\<lparr>aw_naive_main := Some q\<rparr>)) w)"

definition naive_create_group :: "backend_type \<Rightarrow> ('o, group_impl_ref) api" where
  "naive_create_group backend = api_bind api_fresh (\<lambda>n. api_return \<lparr>gi_id = n, gi_backend = backend\<rparr>)"

definition naive_create_timer :: "queue_impl \<Rightarrow> backend_type \<Rightarrow> ('o, timer_impl_ref) api" where
  "naive_create_timer queue backend =
     api_bind api_fresh (\<lambda>n. api_return \<lparr>ti_id = n, ti_backend = backend, ti_queue = queue\<rparr>)"

definition naive_create_socket_notifier ::
  "queue_impl \<Rightarrow> socket_t \<Rightarrow> notifier_type \<Rightarrow> backend_type \<Rightarrow> ('o, socket_notifier_impl_ref) api"
where
  "naive_create_socket_notifier queue socket type backend = api_bind api_fresh (\<lambda>n. api_return
     \<lparr>ni_id = n, ni_backend = backend, ni_queue = queue, ni_socket = socket, ni_type = type\<rparr>)"

definition naive_exec :: "('o, unit) api" where
  "naive_exec = api_call (Exec Ex_main_thread)"

subsection \<open>libdispatch\<close>

definition libdispatch_queue_impl_new :: "executor_ref \<Rightarrow> bool \<Rightarrow> ('o, queue_impl) api" where
  "libdispatch_queue_impl_new native serial = api_bind api_fresh (\<lambda>n. api_return
     \<lparr>qi_id = n, qi_backend = Backend_libdispatch, qi_serial = serial, qi_executor = native, qi_label = '''', qi_priority = PRIO_DEFAULT\<rparr>)"

definition impl_2_native :: "queue_impl \<Rightarrow> ('o, executor_ref) api" where
  "impl_2_native impl =
     api_bind (api_assert (qi_backend impl = Backend_libdispatch) ''backend_type::libdispatch == impl->backend()'')
       (\<lambda>_. api_return (qi_executor impl))"

definition libdispatch_create_main_queue :: "string \<Rightarrow> ('o, queue_impl) api" where
  "libdispatch_create_main_queue label = libdispatch_queue_impl_new Ex_native_main True"

definition libdispatch_create_serial_queue :: "string \<Rightarrow> queue_priority \<Rightarrow> ('o, queue_impl) api" where
  "libdispatch_create_serial_queue label priority =
     api_bind api_fresh (\<lambda>n. libdispatch_queue_impl_new (Ex_native n) True)"

definition libdispatch_create_parallel_queue :: "string \<Rightarrow> queue_priority \<Rightarrow> ('o, queue_impl) api" where
  "libdispatch_create_parallel_queue label priority = libdispatch_queue_impl_new (Ex_native_global priority) False"

definition libdispatch_create_timer :: "queue_impl \<Rightarrow> ('o, timer_impl_ref) api" where
  "libdispatch_create_timer queue = api_bind (impl_2_native queue) (\<lambda>_. api_bind api_fresh (\<lambda>n. api_return
     \<lparr>ti_id = n, ti_backend = Backend_libdispatch, ti_queue = queue\<rparr>))"

definition libdispatch_create_socket_notifier ::
  "queue_impl \<Rightarrow> socket_t \<Rightarrow> notifier_type \<Rightarrow> ('o, socket_notifier_impl_ref) api"
where
  "libdispatch_create_socket_notifier queue socket type = api_bind (impl_2_native queue) (\<lambda>_. api_bind api_fresh (\<lambda>n. api_return
     \<lparr>ni_id = n, ni_backend = Backend_libdispatch, ni_queue = queue, ni_socket = socket, ni_type = type\<rparr>))"

definition libdispatch_exec :: "('o, unit) api" where
  "libdispatch_exec = api_call (Exec Ex_native_main)"

subsection \<open>qt5\<close>

text \<open>The base class of the Qt backend is the libdispatch backend if that is built, and the naive backend otherwise.\<close>

definition backend_base :: "build_config \<Rightarrow> backend_class" where
  "backend_base cfg = (if bc_libdispatch cfg then Libdispatch_class else Naive_class)"

definition qt5_serial_queue :: "string \<Rightarrow> nat option \<Rightarrow> queue_priority \<Rightarrow> ('o, queue_impl) api" where
  "qt5_serial_queue label thread priority =
     (case thread of
        None \<Rightarrow> api_fail (Assertion ''thread'')
      | Some t \<Rightarrow> serial_queue_impl_new (Some (Ex_qthread t)) label priority Backend_qt5)"

definition qt5_parallel_queue :: "string \<Rightarrow> nat option \<Rightarrow> queue_priority \<Rightarrow> ('o, queue_impl) api" where
  "qt5_parallel_queue label pool priority =
     (case pool of
        None \<Rightarrow> api_fail (Assertion ''pool'')
      | Some p \<Rightarrow> parallel_queue_impl_new (Some (Ex_qpool p)) priority Backend_qt5)"

definition qt5_create_main_queue :: "build_config \<Rightarrow> string \<Rightarrow> ('o, queue_impl) api" where
  "qt5_create_main_queue cfg label w =
     (case aw_app w of
        None \<Rightarrow> api_bind (api_call (Warning ''No QCoreApplication found''))
          (\<lambda>_. if bc_libdispatch cfg then libdispatch_create_main_queue label else naive_create_main_queue label Backend_naive) w
      | Some thread \<Rightarrow> qt5_serial_queue label (Some thread) PRIO_DEFAULT w)"

definition qt5_create_timer :: "build_config \<Rightarrow> queue_impl \<Rightarrow> ('o, timer_impl_ref) api" where
  "qt5_create_timer cfg queue =
     (if qi_backend queue = Backend_qt5 then naive_create_timer queue Backend_qt5
      else if bc_libdispatch cfg then libdispatch_create_timer queue
      else naive_create_timer queue Backend_naive)"

definition qt5_create_socket_notifier ::
  "build_config \<Rightarrow> queue_impl \<Rightarrow> socket_t \<Rightarrow> notifier_type \<Rightarrow> ('o, socket_notifier_impl_ref) api"
where
  "qt5_create_socket_notifier cfg queue socket type =
     (if qi_backend queue = Backend_qt5 then naive_create_socket_notifier queue socket type Backend_qt5
      else if bc_libdispatch cfg then libdispatch_create_socket_notifier queue socket type
      else naive_create_socket_notifier queue socket type Backend_naive)"

definition qt5_exec :: "build_config \<Rightarrow> ('o, unit) api" where
  "qt5_exec cfg w =
     (case aw_app w of
        None \<Rightarrow> api_bind (api_call (Warning ''No QCoreApplication found''))
          (\<lambda>_. if bc_libdispatch cfg then libdispatch_exec else naive_exec) w
      | Some thread \<Rightarrow> api_call (Exec (Ex_qthread thread)) w)"

subsection \<open>The virtual functions\<close>

definition create_main_queue :: "build_config \<Rightarrow> backend_class \<Rightarrow> string \<Rightarrow> ('o, queue_impl) api" where
  "create_main_queue cfg backend label =
     (case backend of
        Naive_class \<Rightarrow> naive_create_main_queue label Backend_naive
      | Libdispatch_class \<Rightarrow> libdispatch_create_main_queue label
      | Qt5_class \<Rightarrow> qt5_create_main_queue cfg label)"

definition create_serial_queue :: "build_config \<Rightarrow> backend_class \<Rightarrow> string \<Rightarrow> queue_priority \<Rightarrow> ('o, queue_impl) api" where
  "create_serial_queue cfg backend label priority =
     (case (if backend = Qt5_class then backend_base cfg else backend) of
        Libdispatch_class \<Rightarrow> libdispatch_create_serial_queue label priority
      | _ \<Rightarrow> naive_create_serial_queue label priority Backend_naive)"

definition create_parallel_queue :: "build_config \<Rightarrow> backend_class \<Rightarrow> string \<Rightarrow> queue_priority \<Rightarrow> ('o, queue_impl) api" where
  "create_parallel_queue cfg backend label priority =
     (case (if backend = Qt5_class then backend_base cfg else backend) of
        Libdispatch_class \<Rightarrow> libdispatch_create_parallel_queue label priority
      | _ \<Rightarrow> naive_create_parallel_queue label priority Backend_naive)"

definition create_group :: "backend_class \<Rightarrow> ('o, group_impl_ref) api" where
  "create_group backend = naive_create_group Backend_naive"

definition create_timer :: "build_config \<Rightarrow> backend_class \<Rightarrow> queue_impl \<Rightarrow> ('o, timer_impl_ref) api" where
  "create_timer cfg backend queue =
     (case backend of
        Naive_class \<Rightarrow> naive_create_timer queue Backend_naive
      | Libdispatch_class \<Rightarrow> libdispatch_create_timer queue
      | Qt5_class \<Rightarrow> qt5_create_timer cfg queue)"

definition create_socket_notifier ::
  "build_config \<Rightarrow> backend_class \<Rightarrow> queue_impl \<Rightarrow> socket_t \<Rightarrow> notifier_type \<Rightarrow> ('o, socket_notifier_impl_ref) api"
where
  "create_socket_notifier cfg backend queue socket type =
     (case backend of
        Naive_class \<Rightarrow> naive_create_socket_notifier queue socket type Backend_naive
      | Libdispatch_class \<Rightarrow> libdispatch_create_socket_notifier queue socket type
      | Qt5_class \<Rightarrow> qt5_create_socket_notifier cfg queue socket type)"

definition backend_exec :: "build_config \<Rightarrow> backend_class \<Rightarrow> ('o, unit) api" where
  "backend_exec cfg backend =
     (case backend of Naive_class \<Rightarrow> naive_exec | Libdispatch_class \<Rightarrow> libdispatch_exec | Qt5_class \<Rightarrow> qt5_exec cfg)"

section \<open>The public classes\<close>

text \<open>\<open>queue_operation_with_d\<close> has an empty body.\<close>

definition queue_operation_with_d :: "'o \<Rightarrow> nat \<Rightarrow> ('o, unit) api" where
  "queue_operation_with_d op d = api_return ()"

definition assert_same_backend :: "backend_type \<Rightarrow> backend_type \<Rightarrow> ('o, unit) api" where
  "assert_same_backend a b =
     (if a \<noteq> b then api_bind (api_call (Warning ''Cannot mix backends''))
        (\<lambda>_. api_fail (Assertion ''Cannot mix two different backends''))
      else api_return ())"

subsection \<open>queue\<close>

record queue_t =
  q_impl :: queue_impl
  q_label :: string

definition queue_with_impl :: "string \<Rightarrow> queue_impl option \<Rightarrow> ('o, queue_t) api" where
  "queue_with_impl label impl =
     (case impl of None \<Rightarrow> api_fail (Assertion ''m_impl'') | Some i \<Rightarrow> api_return \<lparr>q_impl = i, q_label = label\<rparr>)"

definition queue_new :: "build_config \<Rightarrow> string \<Rightarrow> queue_priority \<Rightarrow> ('o, queue_t) api" where
  "queue_new cfg label priority =
     api_bind (platform_backend cfg) (\<lambda>b. api_bind (create_serial_queue cfg b label priority) (\<lambda>i. queue_with_impl label (Some i)))"

definition queue_async :: "queue_t \<Rightarrow> 'o option \<Rightarrow> ('o, unit) api" where
  "queue_async q p =
     (case p of
        None \<Rightarrow> api_fail (Assertion ''op'')
      | Some op \<Rightarrow> api_bind (queue_operation_with_d op (qi_id (q_impl q))) (\<lambda>_. api_call (Q_async (qi_id (q_impl q)) op)))"

definition queue_apply :: "queue_t \<Rightarrow> nat \<Rightarrow> 'o option \<Rightarrow> ('o, unit) api" where
  "queue_apply q n p =
     (case p of
        None \<Rightarrow> api_fail (Assertion ''op'')
      | Some op \<Rightarrow> api_bind (queue_operation_with_d op (qi_id (q_impl q))) (\<lambda>_. api_call (Q_apply (qi_id (q_impl q)) n op)))"

definition queue_after :: "queue_t \<Rightarrow> milliseconds \<Rightarrow> 'o option \<Rightarrow> ('o, unit) api" where
  "queue_after q delay p =
     (case p of None \<Rightarrow> api_fail (Assertion ''op'') | Some op \<Rightarrow> api_call (Q_after (qi_id (q_impl q)) delay op))"

definition queue_eq :: "queue_t \<Rightarrow> queue_t \<Rightarrow> bool" where
  "queue_eq a b \<longleftrightarrow> qi_id (q_impl a) = qi_id (q_impl b)"

definition queue_neq :: "queue_t \<Rightarrow> queue_t \<Rightarrow> bool" where
  "queue_neq a b \<longleftrightarrow> \<not> queue_eq a b"

text \<open>The queues of the factories that take a thread, a pool or a native queue.\<close>

definition naive_serial_queue :: "string \<Rightarrow> executor_ref option \<Rightarrow> queue_priority \<Rightarrow> ('o, queue_t) api" where
  "naive_serial_queue label thread priority =
     api_bind (api_assert (thread \<noteq> None) ''thread'') (\<lambda>_.
     api_bind (serial_queue_impl_new thread label priority Backend_naive) (\<lambda>i. queue_with_impl label (Some i)))"

definition naive_parallel_queue :: "string \<Rightarrow> executor_ref option \<Rightarrow> queue_priority \<Rightarrow> ('o, queue_t) api" where
  "naive_parallel_queue label pool priority =
     api_bind (api_assert (pool \<noteq> None) ''pool'') (\<lambda>_.
     api_bind (parallel_queue_impl_new pool priority Backend_naive) (\<lambda>i. queue_with_impl label (Some i)))"

subsection \<open>The main queue and the global queues\<close>

definition main_queue :: "build_config \<Rightarrow> ('o, queue_t) api" where
  "main_queue cfg w =
     (case aw_main w of
        Some i \<Rightarrow> queue_with_impl k_label_main (Some i) w
      | None \<Rightarrow>
          api_bind (platform_backend cfg) (\<lambda>b. api_bind (create_main_queue cfg b k_label_main)
            (\<lambda>i w'. queue_with_impl k_label_main (Some i) (w'\<lparr>aw_main := Some i\<rparr>))) w)"

text \<open>One function per priority, each with a static variable of its own; here they share the table \<open>aw_global\<close>, by label, since the four labels
  differ.\<close>

definition global_queue_static :: "build_config \<Rightarrow> string \<Rightarrow> queue_priority \<Rightarrow> ('o, queue_t) api" where
  "global_queue_static cfg label priority w =
     (case aw_global w label of
        Some i \<Rightarrow> queue_with_impl label (Some i) w
      | None \<Rightarrow>
          api_bind (platform_backend cfg) (\<lambda>b. api_bind (create_parallel_queue cfg b label priority)
            (\<lambda>i w'. queue_with_impl label (Some i) (w'\<lparr>aw_global := (aw_global w')(label \<mapsto> i)\<rparr>))) w)"

definition global_queue :: "build_config \<Rightarrow> queue_priority \<Rightarrow> ('o, queue_t) api" where
  "global_queue cfg p =
     (case p of
        USER_INTERACTIVE \<Rightarrow> global_queue_static cfg k_label_global_INTERACTIVE USER_INTERACTIVE
      | USER_INITIATED \<Rightarrow> global_queue_static cfg k_label_global_INITIATED USER_INITIATED
      | PRIO_DEFAULT \<Rightarrow> global_queue_static cfg k_label_global_UTILITY UTILITY
      | UTILITY \<Rightarrow> global_queue_static cfg k_label_global_UTILITY UTILITY
      | BACKGROUND \<Rightarrow> global_queue_static cfg k_label_global_BACKGROUND BACKGROUND)"

definition exec :: "build_config \<Rightarrow> ('o, unit) api" where
  "exec cfg = api_bind (platform_backend cfg) (backend_exec cfg)"

subsection \<open>group\<close>

record group_t =
  g_impl :: group_impl_ref

definition group_with_impl :: "group_impl_ref option \<Rightarrow> ('o, group_t) api" where
  "group_with_impl impl =
     (case impl of None \<Rightarrow> api_fail (Assertion ''m_impl'') | Some i \<Rightarrow> api_return \<lparr>g_impl = i\<rparr>)"

definition group_new :: "build_config \<Rightarrow> ('o, group_t) api" where
  "group_new cfg = api_bind (platform_backend cfg) (\<lambda>b. api_bind (create_group b) (\<lambda>i. group_with_impl (Some i)))"

definition group_check :: "group_t \<Rightarrow> queue_t \<Rightarrow> ('o, unit) api" where
  "group_check g q =
     (if gi_backend (g_impl g) \<noteq> Backend_naive
      then assert_same_backend (gi_backend (g_impl g)) (qi_backend (q_impl q))
      else api_return ())"

definition group_async :: "group_t \<Rightarrow> 'o option \<Rightarrow> queue_t \<Rightarrow> ('o, unit) api" where
  "group_async g p q =
     (case p of
        None \<Rightarrow> api_fail (Assertion ''op'')
      | Some op \<Rightarrow>
          api_bind (group_check g q) (\<lambda>_.
          api_bind (queue_operation_with_d op (qi_id (q_impl q))) (\<lambda>_.
          api_call (G_async (gi_id (g_impl g)) op (qi_id (q_impl q))))))"

definition group_async_priority :: "build_config \<Rightarrow> group_t \<Rightarrow> 'o option \<Rightarrow> queue_priority \<Rightarrow> ('o, unit) api" where
  "group_async_priority cfg g p priority = api_bind (global_queue cfg priority) (group_async g p)"

definition group_notify :: "group_t \<Rightarrow> 'o option \<Rightarrow> queue_t \<Rightarrow> ('o, unit) api" where
  "group_notify g p q =
     (case p of
        None \<Rightarrow> api_fail (Assertion ''op'')
      | Some op \<Rightarrow>
          api_bind (group_check g q) (\<lambda>_.
          api_bind (queue_operation_with_d op (qi_id (q_impl q))) (\<lambda>_.
          api_call (G_notify (gi_id (g_impl g)) op (qi_id (q_impl q))))))"

text \<open>The result of \<open>wait\<close> is the one of the implementation.\<close>

definition group_wait :: "group_t \<Rightarrow> milliseconds \<Rightarrow> bool \<Rightarrow> ('o, bool) api" where
  "group_wait g t result = api_bind (api_call (G_wait (gi_id (g_impl g)) t)) (\<lambda>_. api_return result)"

subsection \<open>timer\<close>

record timer_t =
  t_impl :: timer_impl_ref
  t_target :: queue_t

definition timer_with_impl :: "timer_impl_ref option \<Rightarrow> queue_t \<Rightarrow> ('o, timer_t) api" where
  "timer_with_impl impl target =
     (case impl of
        None \<Rightarrow> api_fail (Assertion ''m_impl'')
      | Some i \<Rightarrow> api_bind (assert_same_backend (ti_backend i) (qi_backend (q_impl target)))
          (\<lambda>_. api_return \<lparr>t_impl = i, t_target = target\<rparr>))"

definition timer_new :: "build_config \<Rightarrow> milliseconds \<Rightarrow> queue_t \<Rightarrow> ('o, timer_t) api" where
  "timer_new cfg interval target =
     api_bind (backend_for_type cfg (qi_backend (q_impl target))) (\<lambda>b.
     api_bind (create_timer cfg b (q_impl target)) (\<lambda>i.
     api_bind (api_call (T_interval (ti_id i) interval)) (\<lambda>_.
     timer_with_impl (Some i) target)))"

definition timer_interval :: "timer_t \<Rightarrow> milliseconds \<Rightarrow> ('o, unit) api" where
  "timer_interval t interval = api_call (T_interval (ti_id (t_impl t)) interval)"

definition timer_latency :: "timer_t \<Rightarrow> timer_precision \<Rightarrow> ('o, unit) api" where
  "timer_latency t precision = api_call (T_latency (ti_id (t_impl t)) precision)"

definition timer_resume :: "timer_t \<Rightarrow> milliseconds \<Rightarrow> ('o, unit) api" where
  "timer_resume t d = api_call (T_resume (ti_id (t_impl t)) d)"

definition timer_suspend :: "timer_t \<Rightarrow> ('o, unit) api" where
  "timer_suspend t = api_call (T_suspend (ti_id (t_impl t)))"

definition timer_cancel :: "timer_t \<Rightarrow> ('o, unit) api" where
  "timer_cancel t = api_call (T_cancel (ti_id (t_impl t)))"

definition timer_handler :: "timer_t \<Rightarrow> 'o option \<Rightarrow> ('o, unit) api" where
  "timer_handler t p = api_bind (api_deref p) (\<lambda>op.
     api_bind (queue_operation_with_d op (qi_id (q_impl (t_target t)))) (\<lambda>_. api_call (T_handler (ti_id (t_impl t)) op)))"

subsection \<open>socket_notifier\<close>

record socket_notifier_t =
  n_impl :: socket_notifier_impl_ref
  n_target :: queue_t

definition socket_notifier_with_impl :: "socket_notifier_impl_ref option \<Rightarrow> queue_t \<Rightarrow> ('o, socket_notifier_t) api" where
  "socket_notifier_with_impl impl target =
     (case impl of
        None \<Rightarrow> api_fail (Assertion ''m_impl'')
      | Some i \<Rightarrow> api_bind (assert_same_backend (ni_backend i) (qi_backend (q_impl target)))
          (\<lambda>_. api_return \<lparr>n_impl = i, n_target = target\<rparr>))"

definition socket_notifier_new :: "build_config \<Rightarrow> socket_t \<Rightarrow> notifier_type \<Rightarrow> queue_t \<Rightarrow> ('o, socket_notifier_t) api" where
  "socket_notifier_new cfg socket type target =
     api_bind (backend_for_type cfg (qi_backend (q_impl target))) (\<lambda>b.
     api_bind (create_socket_notifier cfg b (q_impl target) socket type) (\<lambda>i.
     socket_notifier_with_impl (Some i) target))"

definition socket_notifier_resume :: "socket_notifier_t \<Rightarrow> ('o, unit) api" where
  "socket_notifier_resume n = api_call (N_resume (ni_id (n_impl n)))"

definition socket_notifier_suspend :: "socket_notifier_t \<Rightarrow> ('o, unit) api" where
  "socket_notifier_suspend n = api_call (N_suspend (ni_id (n_impl n)))"

definition socket_notifier_cancel :: "socket_notifier_t \<Rightarrow> ('o, unit) api" where
  "socket_notifier_cancel n = api_call (N_cancel (ni_id (n_impl n)))"

definition socket_notifier_handler :: "socket_notifier_t \<Rightarrow> 'o option \<Rightarrow> ('o, unit) api" where
  "socket_notifier_handler n p = api_bind (api_deref p) (\<lambda>op.
     api_bind (queue_operation_with_d op (qi_id (q_impl (n_target n)))) (\<lambda>_. api_call (N_handler (ni_id (n_impl n)) op)))"

definition socket_notifier_socket :: "socket_notifier_t \<Rightarrow> socket_t" where
  "socket_notifier_socket n = ni_socket (n_impl n)"

definition socket_notifier_type :: "socket_notifier_t \<Rightarrow> notifier_type" where
  "socket_notifier_type n = ni_type (n_impl n)"

section \<open>Properties of the selection\<close>

text \<open>
  A configuration as the build system makes it: every backend that is built can be resolved, except for the Qt backend,
  which may be replaced by its fallback or, in a shared build, may not be loaded. The other backends need the naive one.
\<close>

definition config_ok :: "build_config \<Rightarrow> bool" where
  "config_ok cfg \<longleftrightarrow>
     bc_naive cfg \<and> bc_resolve cfg (entry_point ''naive'') = Some Naive_class \<and>
     bc_resolve cfg (entry_point ''libdispatch'') = (if bc_libdispatch cfg then Some Libdispatch_class else None) \<and>
     bc_resolve cfg (entry_point ''qt5'') \<in> {Some Qt5_class, Some (backend_base cfg), None} \<and>
     (bc_static cfg \<and> bc_qt5 cfg \<longrightarrow> bc_resolve cfg (entry_point ''qt5'') \<noteq> None)"

definition qt5_loaded :: "build_config \<Rightarrow> bool" where
  "qt5_loaded cfg \<longleftrightarrow> bc_qt5 cfg \<and> bc_resolve cfg (entry_point ''qt5'') = Some Qt5_class"

definition backend_available :: "build_config \<Rightarrow> backend_type \<Rightarrow> bool" where
  "backend_available cfg b \<longleftrightarrow>
     (case b of Backend_naive \<Rightarrow> True | Backend_libdispatch \<Rightarrow> bc_libdispatch cfg | Backend_qt5 \<Rightarrow> qt5_loaded cfg)"

definition class_of :: "build_config \<Rightarrow> backend_type \<Rightarrow> backend_class" where
  "class_of cfg b = (case b of
     Backend_naive \<Rightarrow> Naive_class
   | Backend_libdispatch \<Rightarrow> if bc_libdispatch cfg then Libdispatch_class else Naive_class
   | Backend_qt5 \<Rightarrow> if qt5_loaded cfg then Qt5_class else if bc_qt5 cfg then backend_base cfg else Naive_class)"

lemma backend_for_type_class: "config_ok cfg \<Longrightarrow> backend_for_type cfg b w = Inr (class_of cfg b, w)"
  by (cases b) (auto simp: config_ok_def backend_for_type_def class_of_def declared_backend_def imported_backend_def
      qt5_loaded_def backend_base_def api_defs Let_def split: if_splits)

lemma platform_backend_class:
  assumes "config_ok cfg"
  shows "platform_backend cfg w = Inr (if qt5_loaded cfg then Qt5_class else backend_base cfg, w)"
  unfolding platform_backend_def backend_for_type_class[OF assms]
  by (simp add: platform_backend_type_def class_of_def qt5_loaded_def backend_base_def)

section \<open>Reachable states\<close>

datatype queue_factory =
  F_main
| F_global queue_priority
| F_new string queue_priority
| F_naive_serial string executor_ref queue_priority
| F_naive_parallel string executor_ref queue_priority
| F_qt5_serial string nat queue_priority
| F_qt5_parallel string nat queue_priority
| F_libdispatch string nat bool

text \<open>The factories of a backend can be called only if the backend is built and, for Qt, loaded.\<close>

fun make_queue :: "build_config \<Rightarrow> queue_factory \<Rightarrow> ('o, queue_t) api" where
  "make_queue cfg F_main = main_queue cfg"
| "make_queue cfg (F_global p) = global_queue cfg p"
| "make_queue cfg (F_new label p) = queue_new cfg label p"
| "make_queue cfg (F_naive_serial label thread p) = naive_serial_queue label (Some thread) p"
| "make_queue cfg (F_naive_parallel label pool p) = naive_parallel_queue label (Some pool) p"
| "make_queue cfg (F_qt5_serial label thread p) =
     (if qt5_loaded cfg then api_bind (qt5_serial_queue label (Some thread) p) (\<lambda>i. queue_with_impl label (Some i))
      else api_fail No_backend)"
| "make_queue cfg (F_qt5_parallel label pool p) =
     (if qt5_loaded cfg then api_bind (qt5_parallel_queue label (Some pool) p) (\<lambda>i. queue_with_impl label (Some i))
      else api_fail No_backend)"
| "make_queue cfg (F_libdispatch label native serial) =
     (if bc_libdispatch cfg then api_bind (libdispatch_queue_impl_new (Ex_native native) serial) (\<lambda>i. queue_with_impl label (Some i))
      else api_fail No_backend)"

datatype 'o api_event =
  E_queue queue_factory
| E_timer milliseconds nat
| E_group
| E_async nat 'o
| E_app "nat option"
| E_exec

fun api_step :: "build_config \<Rightarrow> 'o api_world \<times> queue_t list \<Rightarrow> 'o api_event \<Rightarrow> ('o api_world \<times> queue_t list) option" where
  "api_step cfg (w, qs) (E_queue f) = (case make_queue cfg f w of Inl _ \<Rightarrow> None | Inr (q, w') \<Rightarrow> Some (w', qs @ [q]))"
| "api_step cfg (w, qs) (E_timer t i) =
     (if i < length qs then case timer_new cfg t (qs ! i) w of Inl _ \<Rightarrow> None | Inr (_, w') \<Rightarrow> Some (w', qs) else None)"
| "api_step cfg (w, qs) E_group = (case group_new cfg w of Inl _ \<Rightarrow> None | Inr (_, w') \<Rightarrow> Some (w', qs))"
| "api_step cfg (w, qs) (E_async i op) =
     (if i < length qs then case queue_async (qs ! i) (Some op) w of Inl _ \<Rightarrow> None | Inr (_, w') \<Rightarrow> Some (w', qs) else None)"
| "api_step cfg (w, qs) (E_app a) = Some (w\<lparr>aw_app := a\<rparr>, qs)"
| "api_step cfg (w, qs) E_exec = (case exec cfg w of Inl _ \<Rightarrow> None | Inr (_, w') \<Rightarrow> Some (w', qs))"

definition api_init :: "'o api_world \<times> queue_t list" where
  "api_init =
     (\<lparr>aw_next = 0, aw_app = None, aw_naive_main = None, aw_main = None, aw_global = (\<lambda>_. None), aw_manager = [], aw_calls = []\<rparr>, [])"

abbreviation api_reach :: "build_config \<Rightarrow> 'o api_world \<times> queue_t list \<Rightarrow> bool" where
  "api_reach cfg \<equiv> reach (api_step cfg) (\<lambda>_. True) api_init"

definition impl_ok :: "build_config \<Rightarrow> nat \<Rightarrow> queue_impl \<Rightarrow> bool" where
  "impl_ok cfg n i \<longleftrightarrow> qi_id i < n \<and> backend_available cfg (qi_backend i)"

text \<open>
  The implementations of the static variables belong to available backends, and those of the main
  queue and of the global queues are all different.
\<close>

definition world_static_ok :: "build_config \<Rightarrow> 'o api_world \<Rightarrow> bool" where
  "world_static_ok cfg w \<longleftrightarrow>
     (\<forall>i. aw_main w = Some i \<longrightarrow> impl_ok cfg (aw_next w) i) \<and>
     (\<forall>i. aw_naive_main w = Some i \<longrightarrow> impl_ok cfg (aw_next w) i \<and> qi_executor i = Ex_main_thread \<and> qi_backend i = Backend_naive) \<and>
     (\<forall>l i. aw_global w l = Some i \<longrightarrow> impl_ok cfg (aw_next w) i \<and>
        (\<forall>l' j. aw_global w l' = Some j \<longrightarrow> qi_id i = qi_id j \<longrightarrow> l = l') \<and>
        (\<forall>j. aw_main w = Some j \<or> aw_naive_main w = Some j \<longrightarrow> qi_id i \<noteq> qi_id j))"

definition api_ok :: "build_config \<Rightarrow> 'o api_world \<times> queue_t list \<Rightarrow> bool" where
  "api_ok cfg s \<longleftrightarrow> world_static_ok cfg (fst s) \<and> (\<forall>q \<in> set (snd s). impl_ok cfg (aw_next (fst s)) (q_impl q))"

lemma impl_ok_mono: "impl_ok cfg n i \<Longrightarrow> n \<le> n' \<Longrightarrow> impl_ok cfg n' i"
  by (simp add: impl_ok_def)

text \<open>A step that creates implementation objects only advances the numbers.\<close>

definition same_statics :: "'o api_world \<Rightarrow> 'o api_world \<Rightarrow> bool" where
  "same_statics w w' \<longleftrightarrow> aw_next w \<le> aw_next w' \<and> aw_naive_main w' = aw_naive_main w \<and> aw_main w' = aw_main w \<and> aw_global w' = aw_global w"

lemma same_statics_ok: "same_statics w w' \<Longrightarrow> world_static_ok cfg w \<Longrightarrow> world_static_ok cfg w'"
proof -
  assume "same_statics w w'" and ok: "world_static_ok cfg w"
  then have n: "aw_next w \<le> aw_next w'" and e: "aw_naive_main w' = aw_naive_main w" "aw_main w' = aw_main w" "aw_global w' = aw_global w"
    by (simp_all add: same_statics_def)
  have m: "impl_ok cfg (aw_next w) i \<Longrightarrow> impl_ok cfg (aw_next w') i" for i using n by (rule impl_ok_mono[rotated])
  show ?thesis using ok m unfolding world_static_ok_def e by simp
qed

lemmas factory_defs = api_defs queue_with_impl_def serial_queue_impl_new_def parallel_queue_impl_new_def manager_attach_def
  naive_create_serial_queue_def naive_create_parallel_queue_def naive_create_main_queue_def
  libdispatch_queue_impl_new_def libdispatch_create_main_queue_def libdispatch_create_serial_queue_def
  libdispatch_create_parallel_queue_def qt5_serial_queue_def qt5_parallel_queue_def qt5_create_main_queue_def
  create_main_queue_def create_serial_queue_def create_parallel_queue_def backend_base_def

text \<open>What the factories create: a new object, of an available backend.\<close>

definition creates :: "build_config \<Rightarrow> 'o api_world \<Rightarrow> api_error + queue_impl \<times> 'o api_world \<Rightarrow> bool" where
  "creates cfg w r \<longleftrightarrow> (case r of
     Inl e \<Rightarrow> False
   | Inr (i, w') \<Rightarrow> same_statics w w' \<and> aw_app w' = aw_app w \<and> aw_next w \<le> qi_id i \<and> impl_ok cfg (aw_next w') i)"

lemma creates_parallel: "config_ok cfg \<Longrightarrow>
    creates cfg w (create_parallel_queue cfg (if qt5_loaded cfg then Qt5_class else backend_base cfg) label p w)"
  by (auto simp: factory_defs creates_def same_statics_def impl_ok_def backend_available_def)

lemma creates_serial: "config_ok cfg \<Longrightarrow>
    creates cfg w (create_serial_queue cfg (if qt5_loaded cfg then Qt5_class else backend_base cfg) label p w)"
  by (auto simp: factory_defs creates_def same_statics_def impl_ok_def backend_available_def)

lemma static_global:
  assumes ok: "world_static_ok cfg w" and new: "creates cfg w (Inr (i, w'))"
  shows "world_static_ok cfg (w'\<lparr>aw_global := (aw_global w')(label \<mapsto> i)\<rparr>)"
proof -
  have s: "same_statics w w'" and i: "aw_next w \<le> qi_id i" "impl_ok cfg (aw_next w') i" using new by (auto simp: creates_def)
  have ok': "world_static_ok cfg w'" using same_statics_ok[OF s ok] .
  have old: "qi_id j < aw_next w" if "aw_main w' = Some j \<or> aw_naive_main w' = Some j \<or> aw_global w' l = Some j" for j l
    using ok s that unfolding world_static_ok_def same_statics_def impl_ok_def by auto
  have ne: "qi_id j \<noteq> qi_id i" if "aw_main w' = Some j \<or> aw_naive_main w' = Some j \<or> aw_global w' l = Some j" for j l
    using old[OF that] i(1) by simp
  show ?thesis
    using ok' i(2) ne unfolding world_static_ok_def by (auto split: if_splits) metis+
qed

lemma static_main:
  assumes ok: "world_static_ok cfg w" and new: "creates cfg w (Inr (i, w'))"
  shows "world_static_ok cfg (w'\<lparr>aw_main := Some i\<rparr>)"
    and "qi_executor i = Ex_main_thread \<Longrightarrow> qi_backend i = Backend_naive \<Longrightarrow>
      world_static_ok cfg (w'\<lparr>aw_naive_main := Some i, aw_main := Some i\<rparr>)"
proof -
  have s: "same_statics w w'" and i: "aw_next w \<le> qi_id i" "impl_ok cfg (aw_next w') i" using new by (auto simp: creates_def)
  have ok': "world_static_ok cfg w'" using same_statics_ok[OF s ok] .
  have old: "qi_id j < aw_next w" if "aw_global w' l = Some j" for j l
    using ok s that unfolding world_static_ok_def same_statics_def impl_ok_def by auto
  have ne: "qi_id j \<noteq> qi_id i" if "aw_global w' l = Some j" for j l
    using old[OF that] i(1) by simp
  show "world_static_ok cfg (w'\<lparr>aw_main := Some i\<rparr>)"
    using ok' i(2) ne unfolding world_static_ok_def by auto
  show "world_static_ok cfg (w'\<lparr>aw_naive_main := Some i, aw_main := Some i\<rparr>)"
    if "qi_executor i = Ex_main_thread" "qi_backend i = Backend_naive"
    using ok' i(2) ne that unfolding world_static_ok_def by auto
qed

lemma static_main_again:
  "world_static_ok cfg w \<Longrightarrow> aw_naive_main w = Some i \<Longrightarrow> world_static_ok cfg (w\<lparr>aw_main := Some i\<rparr>)"
  unfolding world_static_ok_def by auto

text \<open>What the creation of the main queue gives, and which executor it takes.\<close>

lemma main_queue_created:
  assumes "config_ok cfg" "world_static_ok cfg w" "aw_main w = None"
  obtains i w' where "main_queue cfg w = Inr (\<lparr>q_impl = i, q_label = k_label_main\<rparr>, w')"
    and "world_static_ok cfg w'" "impl_ok cfg (aw_next w') i" "aw_next w \<le> aw_next w'" "aw_app w' = aw_app w" "aw_main w' = Some i" "aw_global w' = aw_global w"
    and "qi_executor i = (if qt5_loaded cfg \<and> aw_app w \<noteq> None then Ex_qthread (the (aw_app w))
      else if bc_libdispatch cfg then Ex_native_main else Ex_main_thread)"
proof -
  let ?b = "if qt5_loaded cfg then Qt5_class else backend_base cfg"
  consider (qt) t where "qt5_loaded cfg" "aw_app w = Some t" | (ld) "bc_libdispatch cfg" "\<not> (qt5_loaded cfg \<and> aw_app w \<noteq> None)"
    | (old) i where "\<not> bc_libdispatch cfg" "\<not> (qt5_loaded cfg \<and> aw_app w \<noteq> None)" "aw_naive_main w = Some i"
    | (naive) "\<not> bc_libdispatch cfg" "\<not> (qt5_loaded cfg \<and> aw_app w \<noteq> None)" "aw_naive_main w = None"
    by (cases "aw_app w"; cases "aw_naive_main w") auto
  then show thesis
  proof cases
    case (qt t)
    let ?i = "\<lparr>qi_id = aw_next w, qi_backend = Backend_qt5, qi_serial = True, qi_executor = Ex_qthread t, qi_label = k_label_main,
        qi_priority = PRIO_DEFAULT\<rparr>"
    let ?w = "w\<lparr>aw_next := aw_next w + 1\<rparr>"
    have "creates cfg w (Inr (?i, ?w))" using qt by (simp add: creates_def same_statics_def impl_ok_def backend_available_def)
    from static_main(1)[OF assms(2) this] show thesis using qt assms(3)
      by (intro that[of ?i "?w\<lparr>aw_main := Some ?i\<rparr>"])
        (simp_all add: main_queue_def platform_backend_class[OF assms(1)] factory_defs impl_ok_def backend_available_def)
  next
    case ld
    let ?i = "\<lparr>qi_id = aw_next w, qi_backend = Backend_libdispatch, qi_serial = True, qi_executor = Ex_native_main, qi_label = '''',
        qi_priority = PRIO_DEFAULT\<rparr>"
    let ?w = "if qt5_loaded cfg then w\<lparr>aw_calls := aw_calls w @ [Warning ''No QCoreApplication found''], aw_next := aw_next w + 1\<rparr>
        else w\<lparr>aw_next := aw_next w + 1\<rparr>"
    have "creates cfg w (Inr (?i, ?w))" using ld by (simp add: creates_def same_statics_def impl_ok_def backend_available_def)
    from static_main(1)[OF assms(2) this] show thesis using ld assms(3)
      by (intro that[of ?i "?w\<lparr>aw_main := Some ?i\<rparr>"])
        (auto simp: main_queue_def platform_backend_class[OF assms(1)] factory_defs impl_ok_def backend_available_def)
  next
    case (old i)
    let ?w = "if qt5_loaded cfg then w\<lparr>aw_calls := aw_calls w @ [Warning ''No QCoreApplication found'']\<rparr> else w"
    have i: "impl_ok cfg (aw_next w) i" "qi_executor i = Ex_main_thread" using assms(2) old by (simp_all add: world_static_ok_def)
    have "same_statics w ?w" by (simp add: same_statics_def)
    from static_main_again[OF same_statics_ok[OF this assms(2)], of i] show thesis using old i assms(3)
      by (intro that[of i "?w\<lparr>aw_main := Some i\<rparr>"])
        (auto simp: main_queue_def platform_backend_class[OF assms(1)] factory_defs)
  next
    case naive
    let ?i = "\<lparr>qi_id = aw_next w, qi_backend = Backend_naive, qi_serial = True, qi_executor = Ex_main_thread, qi_label = k_label_main,
        qi_priority = USER_INTERACTIVE\<rparr>"
    let ?w = "if qt5_loaded cfg then w\<lparr>aw_calls := aw_calls w @ [Warning ''No QCoreApplication found''], aw_next := aw_next w + 1\<rparr>
        else w\<lparr>aw_next := aw_next w + 1\<rparr>"
    have "creates cfg w (Inr (?i, ?w))" using naive by (simp add: creates_def same_statics_def impl_ok_def backend_available_def)
    from static_main(2)[OF assms(2) this] show thesis using naive assms(3)
      by (intro that[of ?i "?w\<lparr>aw_naive_main := Some ?i, aw_main := Some ?i\<rparr>"])
        (auto simp: main_queue_def platform_backend_class[OF assms(1)] factory_defs impl_ok_def backend_available_def)
  qed
qed

definition queue_made :: "build_config \<Rightarrow> 'o api_world \<Rightarrow> api_error + queue_t \<times> 'o api_world \<Rightarrow> bool" where
  "queue_made cfg w r \<longleftrightarrow> (\<exists>q w'. r = Inr (q, w') \<and> world_static_ok cfg w' \<and> impl_ok cfg (aw_next w') (q_impl q) \<and>
     aw_next w \<le> aw_next w' \<and> aw_app w' = aw_app w \<and> (\<forall>i. aw_main w = Some i \<longrightarrow> aw_main w' = Some i))"

lemma queue_made_creates:
  assumes "creates cfg w (m w)" "world_static_ok cfg w"
  shows "queue_made cfg w (api_bind m (\<lambda>i. queue_with_impl label (Some i)) w)"
proof -
  obtain i w' where "m w = Inr (i, w')" "creates cfg w (Inr (i, w'))" using assms(1) by (auto simp: creates_def split: sum.splits)
  then show ?thesis using same_statics_ok[OF _ assms(2)]
    by (auto simp: queue_made_def creates_def same_statics_def queue_with_impl_def api_defs)
qed

lemma global_queue_created:
  assumes "config_ok cfg" "world_static_ok cfg w" "aw_global w label = None"
  obtains i w' where "global_queue_static cfg label p w = Inr (\<lparr>q_impl = i, q_label = label\<rparr>, w')"
    and "aw_global w' = (aw_global w)(label \<mapsto> i)" "aw_main w' = aw_main w" "aw_app w' = aw_app w"
    and "world_static_ok cfg w'" "impl_ok cfg (aw_next w') i" "aw_next w \<le> qi_id i" "aw_next w \<le> aw_next w'"
proof -
  let ?b = "if qt5_loaded cfg then Qt5_class else backend_base cfg"
  have "creates cfg w (create_parallel_queue cfg ?b label p w)" by (rule creates_parallel[OF assms(1)])
  then obtain i w' where c: "create_parallel_queue cfg ?b label p w = Inr (i, w')" "creates cfg w (Inr (i, w'))"
    by (auto simp: creates_def split: sum.splits)
  from static_global[OF assms(2) c(2)] show thesis using c assms(3)
    by (intro that[of i "w'\<lparr>aw_global := (aw_global w')(label \<mapsto> i)\<rparr>"])
      (simp_all add: global_queue_static_def platform_backend_class[OF assms(1)] queue_with_impl_def api_defs creates_def same_statics_def
        impl_ok_def)
qed

lemma global_queue_static_made:
  assumes "config_ok cfg" "world_static_ok cfg w"
  shows "queue_made cfg w (global_queue_static cfg label p w)"
proof (cases "aw_global w label")
  case None
  show ?thesis by (rule global_queue_created[OF assms None, of p]) (auto simp: queue_made_def)
next
  case (Some i)
  then have "impl_ok cfg (aw_next w) i" using assms(2) by (auto simp: world_static_ok_def)
  then show ?thesis using Some assms(2) by (simp add: global_queue_static_def queue_with_impl_def api_defs queue_made_def)
qed

lemma main_queue_made:
  assumes "config_ok cfg" "world_static_ok cfg w"
  shows "queue_made cfg w (main_queue cfg w)"
proof (cases "aw_main w")
  case None
  show ?thesis by (rule main_queue_created[OF assms None]) (auto simp: queue_made_def None)
next
  case (Some i)
  then have "impl_ok cfg (aw_next w) i" using assms(2) by (auto simp: world_static_ok_def)
  then show ?thesis using Some assms(2) by (simp add: main_queue_def queue_with_impl_def api_defs queue_made_def)
qed

lemma make_queue_made:
  assumes "config_ok cfg" "world_static_ok cfg w" "make_queue cfg f w = Inr r"
  shows "queue_made cfg w (make_queue cfg f w)"
proof (cases f)
  case F_main
  then show ?thesis using main_queue_made[OF assms(1,2)] by simp
next
  case (F_global p)
  then show ?thesis using global_queue_static_made[OF assms(1,2)] by (cases p) (simp_all add: global_queue_def)
next
  case (F_new label p)
  have "creates cfg w (create_serial_queue cfg (if qt5_loaded cfg then Qt5_class else backend_base cfg) label p w)"
    by (rule creates_serial[OF assms(1)])
  from queue_made_creates[of cfg w "create_serial_queue cfg (if qt5_loaded cfg then Qt5_class else backend_base cfg) label p" label, OF this assms(2)] show ?thesis using F_new
    by (simp add: queue_new_def platform_backend_class[OF assms(1)] api_defs)
next
  case (F_naive_serial label thread p)
  have "creates cfg w (serial_queue_impl_new (Some thread) label p Backend_naive w)"
    by (simp add: factory_defs creates_def same_statics_def impl_ok_def backend_available_def)
  from queue_made_creates[of cfg w "serial_queue_impl_new (Some thread) label p Backend_naive" label, OF this assms(2)] show ?thesis using F_naive_serial
    by (simp add: naive_serial_queue_def api_defs)
next
  case (F_naive_parallel label pool p)
  have "creates cfg w (parallel_queue_impl_new (Some pool) p Backend_naive w)"
    by (simp add: factory_defs creates_def same_statics_def impl_ok_def backend_available_def)
  from queue_made_creates[of cfg w "parallel_queue_impl_new (Some pool) p Backend_naive" label, OF this assms(2)] show ?thesis using F_naive_parallel
    by (simp add: naive_parallel_queue_def api_defs)
next
  case (F_qt5_serial label thread p)
  then have "qt5_loaded cfg" using assms(3) by (auto simp: api_defs split: if_splits)
  then have "creates cfg w (qt5_serial_queue label (Some thread) p w)"
    by (simp add: factory_defs creates_def same_statics_def impl_ok_def backend_available_def)
  from queue_made_creates[of cfg w "qt5_serial_queue label (Some thread) p" label, OF this assms(2)] show ?thesis using F_qt5_serial \<open>qt5_loaded cfg\<close> by simp
next
  case (F_qt5_parallel label pool p)
  then have "qt5_loaded cfg" using assms(3) by (auto simp: api_defs split: if_splits)
  then have "creates cfg w (qt5_parallel_queue label (Some pool) p w)"
    by (simp add: factory_defs creates_def same_statics_def impl_ok_def backend_available_def)
  from queue_made_creates[of cfg w "qt5_parallel_queue label (Some pool) p" label, OF this assms(2)] show ?thesis using F_qt5_parallel \<open>qt5_loaded cfg\<close> by simp
next
  case (F_libdispatch label native serial)
  then have "bc_libdispatch cfg" using assms(3) by (auto simp: api_defs split: if_splits)
  then have "creates cfg w (libdispatch_queue_impl_new (Ex_native native) serial w)"
    by (simp add: factory_defs creates_def same_statics_def impl_ok_def backend_available_def)
  from queue_made_creates[of cfg w "libdispatch_queue_impl_new (Ex_native native) serial" label, OF this assms(2)] show ?thesis using F_libdispatch \<open>bc_libdispatch cfg\<close> by simp
qed

lemma timer_new_result:
  assumes "config_ok cfg" "backend_available cfg (qi_backend (q_impl q))"
  shows "timer_new cfg interval q w =
    Inr (\<lparr>t_impl = \<lparr>ti_id = aw_next w, ti_backend = qi_backend (q_impl q), ti_queue = q_impl q\<rparr>, t_target = q\<rparr>,
         w\<lparr>aw_next := aw_next w + 1, aw_calls := aw_calls w @ [T_interval (aw_next w) interval]\<rparr>)"
  using assms(2)
  by (cases "qi_backend (q_impl q)") (simp_all add: timer_new_def backend_for_type_class[OF assms(1)] class_of_def
      backend_available_def create_timer_def naive_create_timer_def libdispatch_create_timer_def qt5_create_timer_def impl_2_native_def
      timer_with_impl_def assert_same_backend_def api_defs)

lemma socket_notifier_new_result:
  assumes "config_ok cfg" "backend_available cfg (qi_backend (q_impl q))"
  shows "socket_notifier_new cfg socket type q w =
    Inr (\<lparr>n_impl = \<lparr>ni_id = aw_next w, ni_backend = qi_backend (q_impl q), ni_queue = q_impl q, ni_socket = socket, ni_type = type\<rparr>,
            n_target = q\<rparr>, w\<lparr>aw_next := aw_next w + 1\<rparr>)"
  using assms(2)
  by (cases "qi_backend (q_impl q)") (simp_all add: socket_notifier_new_def backend_for_type_class[OF assms(1)] class_of_def
      backend_available_def create_socket_notifier_def naive_create_socket_notifier_def libdispatch_create_socket_notifier_def
      qt5_create_socket_notifier_def impl_2_native_def socket_notifier_with_impl_def assert_same_backend_def api_defs)

lemma exec_calls:
  assumes "config_ok cfg"
  shows "\<exists>cs. exec cfg w = Inr ((), w\<lparr>aw_calls := aw_calls w @ cs @ [Exec (if qt5_loaded cfg \<and> aw_app w \<noteq> None
     then Ex_qthread (the (aw_app w)) else if bc_libdispatch cfg then Ex_native_main else Ex_main_thread)]\<rparr>)"
proof -
  have "exec cfg w = backend_exec cfg (if qt5_loaded cfg then Qt5_class else backend_base cfg) w"
    by (simp add: exec_def api_bind_def platform_backend_class[OF assms])
  moreover have "\<exists>cs. aw_calls w @ [Warning ''No QCoreApplication found'', e] = aw_calls w @ cs @ [e]" for e
    by (rule exI[of _ "[Warning ''No QCoreApplication found'']"]) simp
  moreover have "\<exists>cs. aw_calls w @ [e] = aw_calls w @ cs @ [e]" for e
    by (rule exI[of _ "[]"]) simp
  ultimately show ?thesis
    by (cases "aw_app w")
      (auto simp: backend_exec_def naive_exec_def libdispatch_exec_def qt5_exec_def backend_base_def api_defs intro: exI[of _ "[]"]
        exI[of _ "[Warning ''No QCoreApplication found'']"])
qed

lemma group_new_result:
  "config_ok cfg \<Longrightarrow> group_new cfg w = Inr (\<lparr>g_impl = \<lparr>gi_id = aw_next w, gi_backend = Backend_naive\<rparr>\<rparr>, w\<lparr>aw_next := aw_next w + 1\<rparr>)"
  by (simp add: group_new_def platform_backend_class create_group_def naive_create_group_def group_with_impl_def api_defs)

lemma api_ok_statics:
  "same_statics w w' \<Longrightarrow> api_ok cfg (w, qs) \<Longrightarrow> api_ok cfg (w', qs)"
  using same_statics_ok[of w w' cfg] impl_ok_mono[of cfg "aw_next w" _ "aw_next w'"] by (simp add: api_ok_def same_statics_def)

lemma api_ok_app: "api_ok cfg (w, qs) \<Longrightarrow> api_ok cfg (w\<lparr>aw_app := a\<rparr>, qs)"
  by (simp add: api_ok_def world_static_ok_def)

lemma api_ok_step:
  assumes cfg: "config_ok cfg" and ok: "api_ok cfg s" and step: "api_step cfg s e = Some s'"
  shows "api_ok cfg s'"
proof (cases s)
  case s: (Pair w qs)
  show ?thesis
  proof (cases e)
    case (E_queue f)
    then obtain q w' where q: "make_queue cfg f w = Inr (q, w')" "s' = (w', qs @ [q])"
      using step by (auto simp: s split: sum.splits)
    with make_queue_made[OF cfg _ q(1)] ok show ?thesis
      by (auto simp: s api_ok_def queue_made_def intro: impl_ok_mono)
  next
    case (E_timer t i)
    then have i: "i < length qs" using step by (auto simp: s split: if_splits)
    then have "backend_available cfg (qi_backend (q_impl (qs ! i)))" using ok by (simp add: s api_ok_def impl_ok_def)
    from timer_new_result[OF cfg this, of t w] have "\<exists>w'. s' = (w', qs) \<and> same_statics w w'"
      using step i by (auto simp: s E_timer same_statics_def)
    then show ?thesis using ok api_ok_statics s by blast
  next
    case E_group
    then have "\<exists>w'. s' = (w', qs) \<and> same_statics w w'"
      using step by (auto simp: s group_new_result[OF cfg] same_statics_def)
    then show ?thesis using ok api_ok_statics s by blast
  next
    case (E_async i op)
    then have "\<exists>w'. s' = (w', qs) \<and> same_statics w w'"
      using step by (auto simp: s queue_async_def queue_operation_with_d_def api_defs same_statics_def split: if_splits)
    then show ?thesis using ok api_ok_statics s by blast
  next
    case (E_app a)
    then show ?thesis using step ok api_ok_app by (auto simp: s)
  next
    case E_exec
    then have "\<exists>w'. s' = (w', qs) \<and> same_statics w w'"
      using step exec_calls[OF cfg, of w] by (auto simp: s same_statics_def)
    then show ?thesis using ok api_ok_statics s by blast
  qed
qed

text \<open>Once it has been created, the main queue stays.\<close>

lemma main_queue_stays:
  assumes cfg: "config_ok cfg" and ok: "api_ok cfg s" and step: "api_step cfg s e = Some s'" and main: "aw_main (fst s) = Some i"
  shows "aw_main (fst s') = Some i"
proof (cases s)
  case s: (Pair w qs)
  show ?thesis
  proof (cases e)
    case (E_queue f)
    then obtain q w' where q: "make_queue cfg f w = Inr (q, w')" "s' = (w', qs @ [q])"
      using step by (auto simp: s split: sum.splits)
    with make_queue_made[OF cfg _ q(1)] ok main show ?thesis by (auto simp: s api_ok_def queue_made_def)
  next
    case (E_timer t j)
    then have j: "j < length qs" using step by (auto simp: s split: if_splits)
    then have "backend_available cfg (qi_backend (q_impl (qs ! j)))" using ok by (simp add: s api_ok_def impl_ok_def)
    from timer_new_result[OF cfg this, of t w] show ?thesis using step j main by (auto simp: s E_timer)
  next
    case (E_async j op)
    then show ?thesis using step main by (auto simp: s queue_async_def queue_operation_with_d_def api_defs split: if_splits)
  next
    case E_exec
    then show ?thesis using step main exec_calls[OF cfg, of w] by (auto simp: s)
  qed (use step main in \<open>auto simp: s group_new_result[OF cfg]\<close>)
qed

lemma main_queue_stays_reach:
  assumes cfg: "config_ok cfg" and "api_ok cfg s" and "aw_main (fst s) = Some i" and "reach (api_step cfg) (\<lambda>_. True) s s'"
  shows "api_ok cfg s' \<and> aw_main (fst s') = Some i"
  using assms(4)
proof (induction rule: reach.induct)
  case (reach_step s' e s'')
  then show ?case using api_ok_step[OF cfg] main_queue_stays[OF cfg _ reach_step(3)] by blast
qed (use assms(2,3) in simp)

lemma api_reach_ok:
  assumes "config_ok cfg" "api_reach cfg (w, qs)"
  shows "world_static_ok cfg w" and "q \<in> set qs \<Longrightarrow> impl_ok cfg (aw_next w) (q_impl q)"
proof -
  have "step_invariant (api_step cfg) (\<lambda>_. True) (api_ok cfg)"
    by unfold_locales (rule api_ok_step[OF assms(1)])
  from step_invariant.reach_inv[OF this assms(2)] have "api_ok cfg (w, qs)" by (simp add: api_ok_def api_init_def world_static_ok_def)
  then show "world_static_ok cfg w" "q \<in> set qs \<Longrightarrow> impl_ok cfg (aw_next w) (q_impl q)" by (simp_all add: api_ok_def)
qed

definition global_label :: "queue_priority \<Rightarrow> string" where
  "global_label p = (case p of USER_INTERACTIVE \<Rightarrow> k_label_global_INTERACTIVE | USER_INITIATED \<Rightarrow> k_label_global_INITIATED
      | BACKGROUND \<Rightarrow> k_label_global_BACKGROUND | _ \<Rightarrow> k_label_global_UTILITY)"

lemma global_label_eq: "global_label p = global_label p' \<longleftrightarrow> p = p' \<or> {p, p'} = {PRIO_DEFAULT, UTILITY}"
  by (cases p; cases p') (auto simp: global_label_def k_label_global_INTERACTIVE_def k_label_global_INITIATED_def
      k_label_global_UTILITY_def k_label_global_BACKGROUND_def)

lemma global_queue_static_label: "global_queue cfg p w = global_queue_static cfg (global_label p) (if p = PRIO_DEFAULT then UTILITY else p) w"
  by (cases p) (simp_all add: global_queue_def global_label_def)

lemma global_queue_stored:
  assumes "config_ok cfg" "world_static_ok cfg w"
  obtains i w' where "global_queue cfg p w = Inr (\<lparr>q_impl = i, q_label = global_label p\<rparr>, w')"
    and "aw_global w' (global_label p) = Some i" "world_static_ok cfg w'" "aw_main w' = aw_main w"
    and "\<And>l j. aw_global w l = Some j \<Longrightarrow> aw_global w' l = Some j"
proof (cases "aw_global w (global_label p)")
  case None
  obtain i w' where i: "global_queue_static cfg (global_label p) (if p = PRIO_DEFAULT then UTILITY else p) w =
      Inr (\<lparr>q_impl = i, q_label = global_label p\<rparr>, w')"
    "aw_global w' = (aw_global w)(global_label p \<mapsto> i)" "aw_main w' = aw_main w" "world_static_ok cfg w'"
    by (rule global_queue_created[OF assms None, of "if p = PRIO_DEFAULT then UTILITY else p"])
  show thesis
    by (rule that[of i w']) (use i None in \<open>auto simp: global_queue_static_label\<close>)
next
  case (Some i)
  show thesis
    by (rule that[of i w]) (use Some assms(2) in \<open>simp_all add: global_queue_static_label global_queue_static_def queue_with_impl_def api_defs\<close>)
qed

lemma global_queue_again:
  "aw_global w (global_label p) = Some i \<Longrightarrow> global_queue cfg p w = Inr (\<lparr>q_impl = i, q_label = global_label p\<rparr>, w)"
  by (simp add: global_queue_static_label global_queue_static_def queue_with_impl_def api_defs)

section \<open>Properties\<close>

text \<open>
  C27. Timers and notifiers always fit their queue. For every queue that any of the factories made, in every configuration,
  a timer and a socket notifier can be created; they belong to the backend of the queue and execute on the queue, so
  that neither \<open>assert_same_backend\<close> nor the check of \<open>impl_2_native\<close> ever fails.
\<close>

theorem backends_never_mix:
  assumes "config_ok cfg" and "api_reach cfg (w, qs)" and "q \<in> set qs"
  shows "\<exists>t n w' w''. timer_new cfg interval q w = Inr (t, w') \<and> socket_notifier_new cfg socket type q w = Inr (n, w'') \<and>
    ti_backend (t_impl t) = qi_backend (q_impl q) \<and> ti_queue (t_impl t) = q_impl q \<and> t_target t = q \<and>
    ni_backend (n_impl n) = qi_backend (q_impl q) \<and> ni_queue (n_impl n) = q_impl q \<and> n_target n = q \<and>
    socket_notifier_socket n = socket \<and> socket_notifier_type n = type"
proof -
  have "backend_available cfg (qi_backend (q_impl q))" using api_reach_ok(2)[OF assms] by (simp add: impl_ok_def)
  from timer_new_result[OF assms(1) this, of interval w] socket_notifier_new_result[OF assms(1) this, of socket type w]
  show ?thesis by (simp add: socket_notifier_socket_def socket_notifier_type_def)
qed

definition qt5_config :: build_config where
  "qt5_config = \<lparr>bc_naive = True, bc_qt5 = True, bc_libdispatch = False, bc_static = False,
     bc_resolve = [entry_point ''naive'' \<mapsto> Naive_class, entry_point ''qt5'' \<mapsto> Qt5_class]\<rparr>"

lemma qt5_config_ok: "config_ok qt5_config" "qt5_loaded qt5_config" "\<not> bc_libdispatch qt5_config"
  by (simp_all add: config_ok_def qt5_loaded_def qt5_config_def entry_point_def)

lemma qt5_platform [simp]: "platform_backend qt5_config w = Inr (Qt5_class, w)"
  by (simp add: platform_backend_class qt5_config_ok)

lemma api_demo:
  "\<exists>w q. api_reach qt5_config (w :: nat api_world, [q]) \<and> qi_backend (q_impl q) = Backend_qt5 \<and> qi_executor (q_impl q) = Ex_qthread 3"
proof -
  have "\<exists>w q. run (api_step qt5_config) api_init [E_app (Some 3), E_queue F_main] = Some (w :: nat api_world, [q]) \<and>
      qi_backend (q_impl q) = Backend_qt5 \<and> qi_executor (q_impl q) = Ex_qthread 3"
    by (simp add: api_init_def main_queue_def factory_defs)
  then obtain w :: "nat api_world" and q where r: "run (api_step qt5_config) api_init [E_app (Some 3), E_queue F_main] = Some (w, [q])"
    and q: "qi_backend (q_impl q) = Backend_qt5" "qi_executor (q_impl q) = Ex_qthread 3" by blast
  have "api_reach qt5_config (w, [q])" by (rule reach_run[OF r]) simp
  then show ?thesis using q by blast
qed

theorem backends_never_mix_witness:
  "\<exists>w q t w'. timer_new qt5_config 100 q (w :: nat api_world) = Inr (t, w') \<and> ti_backend (t_impl t) = Backend_qt5"
proof -
  obtain w :: "nat api_world" and q where q: "api_reach qt5_config (w, [q])" "qi_backend (q_impl q) = Backend_qt5"
    using api_demo by blast
  then show ?thesis using backends_never_mix[OF qt5_config_ok(1) q(1), of q 100 0 READ] by auto
qed

text \<open>
  C36. The global queues: asking twice for the same priority gives the same queue, the default priority shares the queue of
  \<open>UTILITY\<close>, all others have queues of their own, and none is the main queue.
\<close>

theorem global_queue_identity:
  assumes "config_ok cfg" and "api_reach cfg (w, qs)"
  shows "\<exists>a w1 b w2 m w3. global_queue cfg p w = Inr (a, w1) \<and> global_queue cfg p' w1 = Inr (b, w2) \<and> main_queue cfg w2 = Inr (m, w3) \<and>
    (queue_eq a b \<longleftrightarrow> p = p' \<or> {p, p'} = {PRIO_DEFAULT, UTILITY}) \<and> q_label a = global_label p \<and> queue_neq a m \<and> q_label m = k_label_main"
proof -
  have ok: "world_static_ok cfg w" using api_reach_ok(1)[OF assms] .
  obtain i w1 where i: "global_queue cfg p w = Inr (\<lparr>q_impl = i, q_label = global_label p\<rparr>, w1)"
    "aw_global w1 (global_label p) = Some i" "world_static_ok cfg w1"
    by (rule global_queue_stored[OF assms(1) ok]) blast
  obtain j w2 where j: "global_queue cfg p' w1 = Inr (\<lparr>q_impl = j, q_label = global_label p'\<rparr>, w2)"
    "aw_global w2 (global_label p') = Some j" "world_static_ok cfg w2" "aw_global w2 (global_label p) = Some i"
    by (rule global_queue_stored[OF assms(1) i(3), of p']) (use i(2) in blast)
  have eq: "qi_id i = qi_id j \<longleftrightarrow> global_label p = global_label p'"
    using j(2-4) unfolding world_static_ok_def by auto
  obtain m w3 where m: "main_queue cfg w2 = Inr (\<lparr>q_impl = m, q_label = k_label_main\<rparr>, w3)" "qi_id i \<noteq> qi_id m"
  proof (cases "aw_main w2")
    case None
    obtain m w3 where m: "main_queue cfg w2 = Inr (\<lparr>q_impl = m, q_label = k_label_main\<rparr>, w3)" "world_static_ok cfg w3"
      "aw_main w3 = Some m" "aw_global w3 = aw_global w2"
      by (rule main_queue_created[OF assms(1) j(3) None]) blast
    then have "qi_id i \<noteq> qi_id m" using j(4) unfolding world_static_ok_def by auto
    then show thesis using that m(1) by blast
  next
    case (Some m)
    have "qi_id i \<noteq> qi_id m" using j(3,4) Some unfolding world_static_ok_def by auto
    then show thesis using that[of m w2] Some by (simp add: main_queue_def queue_with_impl_def api_defs)
  qed
  show ?thesis using i(1) j(1) m eq[unfolded global_label_eq] by (simp add: queue_eq_def queue_neq_def)
qed

theorem global_queue_identity_witness:
  "\<exists>w a b w1 w2. global_queue qt5_config UTILITY (w :: nat api_world) = Inr (a, w1) \<and> global_queue qt5_config PRIO_DEFAULT w1 = Inr (b, w2) \<and>
     queue_eq a b \<and> q_label a = k_label_global_UTILITY"
proof -
  obtain w :: "nat api_world" and q where q: "api_reach qt5_config (w, [q])" using api_demo by blast
  obtain a b w1 w2 where "global_queue qt5_config UTILITY w = Inr (a, w1)" "global_queue qt5_config PRIO_DEFAULT w1 = Inr (b, w2)"
    "queue_eq a b" "q_label a = global_label UTILITY"
    using global_queue_identity[OF qt5_config_ok(1) q, of UTILITY PRIO_DEFAULT] by auto
  then show ?thesis unfolding global_label_def queue_priority.case by blast
qed

text \<open>
  C37. \<open>exec\<close> serves the main queue, if the same application object exists, or none, at the first use of the main queue and when
  \<open>exec\<close> is called: whatever is called in between, the main queue is then still the same, and the loop that \<open>exec\<close> enters
  is the one of its executor.
\<close>

theorem exec_serves_main_queue:
  assumes "config_ok cfg" and "api_reach cfg (w, qs)" and "aw_main w = None" and "main_queue cfg w = Inr (q, w1)"
    and "reach (api_step cfg) (\<lambda>_. True) (w1, qs @ [q]) (w2, qs2)" and "aw_app w2 = aw_app w"
  shows "main_queue cfg w2 = Inr (q, w2) \<and>
     (\<exists>w3. exec cfg w2 = Inr ((), w3) \<and> last (aw_calls w3) = Exec (qi_executor (q_impl q)))"
proof -
  obtain i w' where i: "main_queue cfg w = Inr (\<lparr>q_impl = i, q_label = k_label_main\<rparr>, w')" "aw_main w' = Some i"
    "qi_executor i = (if qt5_loaded cfg \<and> aw_app w \<noteq> None then Ex_qthread (the (aw_app w))
      else if bc_libdispatch cfg then Ex_native_main else Ex_main_thread)"
    by (rule main_queue_created[OF assms(1) api_reach_ok(1)[OF assms(1,2)] assms(3)]) blast
  then have q: "q = \<lparr>q_impl = i, q_label = k_label_main\<rparr>" "w1 = w'" using assms(4) by auto
  have "reach (api_step cfg) (\<lambda>_. True) api_init (w1, qs @ [q])"
    using reach_step[OF assms(2), of "E_queue F_main"] assms(4) by simp
  from api_reach_ok[OF assms(1) this] have "api_ok cfg (w1, qs @ [q])" by (simp add: api_ok_def)
  then have "aw_main w2 = Some i" using main_queue_stays_reach[OF assms(1) _ _ assms(5), of i] i(2) q by simp
  moreover obtain cs where "exec cfg w2 = Inr ((), w2\<lparr>aw_calls := aw_calls w2 @ cs @ [Exec (qi_executor i)]\<rparr>)"
    using exec_calls[OF assms(1), of w2] unfolding assms(6) i(3)[symmetric] by blast
  ultimately show ?thesis using q by (simp add: main_queue_def queue_with_impl_def api_defs last_append)
qed

theorem exec_serves_main_queue_witness:
  "\<exists>q w1 w3. main_queue qt5_config (fst api_init :: nat api_world) = Inr (q, w1) \<and> exec qt5_config w1 = Inr ((), w3) \<and>
     last (aw_calls w3) = Exec (qi_executor (q_impl q))"
proof -
  have m: "aw_main (fst api_init :: nat api_world) = None" by (simp add: api_init_def)
  have ok: "world_static_ok qt5_config (fst api_init :: nat api_world)" by (simp add: world_static_ok_def api_init_def)
  obtain q and w1 :: "nat api_world" where q: "main_queue qt5_config (fst api_init) = Inr (q, w1)" "aw_app w1 = aw_app (fst api_init :: nat api_world)"
    by (rule main_queue_created[OF qt5_config_ok(1) ok m]) blast
  have "api_reach qt5_config (fst api_init :: nat api_world, [])" by (simp add: api_init_def)
  from exec_serves_main_queue[OF qt5_config_ok(1) this m q(1) reach_refl q(2)] show ?thesis using q(1) by blast
qed

text \<open>
  But if the application object is created between the first use of the main queue and \<open>exec\<close>, the queue stays on the thread
  of the naive backend and \<open>exec\<close> enters the loop of Qt: nothing will ever execute what the main queue gets.
\<close>

theorem main_queue_can_be_orphaned:
  "\<exists>w q w'. api_reach qt5_config (w :: nat api_world, [q]) \<and> main_queue qt5_config w = Inr (q, w) \<and>
     qi_executor (q_impl q) = Ex_main_thread \<and> exec qt5_config w = Inr ((), w') \<and>
     filter (\<lambda>c. c = Exec Ex_main_thread) (aw_calls w') = []"
proof -
  have "\<exists>w q. run (api_step qt5_config) api_init [E_queue F_main, E_app (Some 3)] = Some (w :: nat api_world, [q]) \<and>
      aw_app w = Some 3 \<and> aw_main w = Some (q_impl q) \<and> q_label q = k_label_main \<and> qi_executor (q_impl q) = Ex_main_thread \<and>
      aw_calls w = [Warning ''No QCoreApplication found'']"
    using qt5_config_ok(3) by (simp add: api_init_def main_queue_def factory_defs)
  then obtain w :: "nat api_world" and q where r: "run (api_step qt5_config) api_init [E_queue F_main, E_app (Some 3)] = Some (w, [q])"
    and w: "aw_app w = Some 3" "aw_main w = Some (q_impl q)" "q_label q = k_label_main" "qi_executor (q_impl q) = Ex_main_thread"
      "aw_calls w = [Warning ''No QCoreApplication found'']"
    by blast
  have re: "api_reach qt5_config (w, [q])" by (rule reach_run[OF r]) simp
  have m: "main_queue qt5_config w = Inr (q, w)" using w by (simp add: main_queue_def queue_with_impl_def api_defs)
  have e: "exec qt5_config w = Inr ((), w\<lparr>aw_calls := aw_calls w @ [Exec (Ex_qthread 3)]\<rparr>)"
    using w by (simp add: exec_def backend_exec_def qt5_exec_def api_defs)
  show ?thesis by (intro exI conjI, rule re, rule m, rule w, rule e, simp add: w)
qed

text \<open>
  Groups: a group of the naive backend, which \<open>group()\<close> always is, takes operations for queues of every backend; any other
  group only those for queues of its own backend, anything else terminates the process, as does a null operation.
\<close>

theorem group_async_result:
  "group_async g p q w =
     (case p of
        None \<Rightarrow> Inl (Assertion ''op'')
      | Some op \<Rightarrow>
          if gi_backend (g_impl g) = Backend_naive \<or> gi_backend (g_impl g) = qi_backend (q_impl q)
          then Inr ((), w\<lparr>aw_calls := aw_calls w @ [G_async (gi_id (g_impl g)) op (qi_id (q_impl q))]\<rparr>)
          else Inl (Assertion ''Cannot mix two different backends''))"
  by (auto simp: group_async_def group_check_def assert_same_backend_def queue_operation_with_d_def api_defs split: option.splits)

text \<open>
  Parallel queues that share a pool: the pool is attached to the manager once per queue, but the destruction of one queue
  detaches it for all.
\<close>

theorem parallel_queue_detaches_shared_pool:
  "\<exists>a b w w' w''. parallel_queue_impl_new (Some Ex_global_pool) UTILITY Backend_naive (fst api_init :: nat api_world) = Inr (a, w) \<and>
     parallel_queue_impl_new (Some Ex_global_pool) BACKGROUND Backend_naive w = Inr (b, w') \<and>
     aw_manager w' = [Ex_global_pool, Ex_global_pool] \<and>
     parallel_queue_impl_destroy a w' = Inr ((), w'') \<and> qi_executor b = Ex_global_pool \<and> aw_manager w'' = []"
  by (simp add: parallel_queue_impl_destroy_def factory_defs api_init_def)

end
