(* ===== verification/Operation.thy ===== *)
theory Operation
  imports Backend "HOL-Library.Sublist"
begin

text \<open>
  Operations and the callables they wrap (\<open>include/xdispatch/operation.h\<close>, \<open>src/operation.cpp\<close>), and the overloads of
  \<open>queue\<close>, \<open>group\<close>, \<open>timer\<close> and \<open>socket_notifier\<close> that take a callable (\<open>include/xdispatch/queue.h\<close>, \<open>group.h\<close>, \<open>timer.h\<close>,
  \<open>socket_notifier.h\<close>).

  The operation objects live in a store; an \<open>operation_ptr\<close> is an index into it or null. What a callable does, a function object, a member function or
  the overridden operator of a class of the client, is given by \<open>callables\<close>, a parameter: each takes the parameters of the call and
  the state of the process. Shared ownership keeps an object alive as long as a pointer to it exists, so the store only grows.
\<close>

section \<open>Operations\<close>

text \<open>The parameters of an operation, an iteration operation and a socket notifier operation.\<close>

datatype op_params = P_none | P_index nat | P_socket socket_t notifier_type

text \<open>
  \<open>function_operation\<close> and \<open>function_parameterized_operation\<close> hold a copy of the function object, \<open>member_operation\<close> and
  \<open>member_parameterized_operation\<close> a pointer to the object and the member function; \<open>User_operation\<close> is a class of the client.
\<close>

datatype ('u, 'f, 'm) op_object = User_operation 'u | Function_operation 'f | Member_operation nat 'm

type_synonym ('u, 'f, 'm) op_store = "('u, 'f, 'm) op_object list"

type_synonym operation_ptr = "nat option"

record ('u, 'f, 'm, 'w, 'r) callables =
  call_user :: "'u \<Rightarrow> op_params \<Rightarrow> 'w \<Rightarrow> 'r"
  call_function :: "'f \<Rightarrow> op_params \<Rightarrow> 'w \<Rightarrow> 'r"
  call_member :: "nat \<Rightarrow> 'm \<Rightarrow> op_params \<Rightarrow> 'w \<Rightarrow> 'r"

text \<open>The call operator of an operation.\<close>

fun op_call :: "('u, 'f, 'm, 'w, 'r) callables \<Rightarrow> ('u, 'f, 'm) op_object \<Rightarrow> op_params \<Rightarrow> 'w \<Rightarrow> 'r" where
  "op_call c (User_operation u) params w = call_user c u params w"
| "op_call c (Function_operation m_function) params w = call_function c m_function params w"
| "op_call c (Member_operation m_obj m_func) params w = call_member c m_obj m_func params w"

definition execute_operation_on_this_thread ::
  "('u, 'f, 'm, 'w, 'r) callables \<Rightarrow> ('u, 'f, 'm) op_store \<Rightarrow> nat \<Rightarrow> op_params \<Rightarrow> 'w \<Rightarrow> 'r"
where
  "execute_operation_on_this_thread c s op params w = op_call c (s ! op) params w"

section \<open>Making operations\<close>

text \<open>
  What a client passes as one argument: an \<open>operation_ptr\<close>, a pointer to a derived class (which converts to one), or a function object. For
  an object and a member function there is an overload of \<open>make_operation\<close> with two arguments; what it returns is passed as a pointer.
\<close>

datatype 'f op_arg = Arg_ptr operation_ptr | Arg_derived operation_ptr | Arg_function 'f

fun is_convertible :: "'f op_arg \<Rightarrow> bool" where
  "is_convertible (Arg_ptr p) = True"
| "is_convertible (Arg_derived p) = True"
| "is_convertible (Arg_function f) = False"

fun converted :: "'f op_arg \<Rightarrow> operation_ptr" where
  "converted (Arg_ptr p) = p"
| "converted (Arg_derived p) = p"
| "converted (Arg_function f) = None"

definition make_shared :: "('u, 'f, 'm) op_object \<Rightarrow> ('u, 'f, 'm) op_store \<Rightarrow> operation_ptr \<times> ('u, 'f, 'm) op_store" where
  "make_shared ob s = (Some (length s), s @ [ob])"

text \<open>The overloads of \<open>make_operation\<close>; the template for function objects takes no part if the argument converts to a pointer.\<close>

definition make_operation_ptr :: "operation_ptr \<Rightarrow> ('u, 'f, 'm) op_store \<Rightarrow> operation_ptr \<times> ('u, 'f, 'm) op_store" where
  "make_operation_ptr op s = (op, s)"

definition make_operation_function :: "'f \<Rightarrow> ('u, 'f, 'm) op_store \<Rightarrow> operation_ptr \<times> ('u, 'f, 'm) op_store" where
  "make_operation_function f = make_shared (Function_operation f)"

definition make_operation_member :: "nat \<Rightarrow> 'm \<Rightarrow> ('u, 'f, 'm) op_store \<Rightarrow> operation_ptr \<times> ('u, 'f, 'm) op_store" where
  "make_operation_member obj m = make_shared (Member_operation obj m)"

definition make_operation :: "'f op_arg \<Rightarrow> ('u, 'f, 'm) op_store \<Rightarrow> operation_ptr \<times> ('u, 'f, 'm) op_store" where
  "make_operation arg =
     (if is_convertible arg then make_operation_ptr (converted arg)
      else case arg of
             Arg_function f \<Rightarrow> make_operation_function f
           | _ \<Rightarrow> make_operation_ptr None)"

text \<open>\<open>parameterized_operation::make\<close> and \<open>make_iteration_operation\<close>.\<close>

definition parameterized_make_ptr :: "operation_ptr \<Rightarrow> ('u, 'f, 'm) op_store \<Rightarrow> operation_ptr \<times> ('u, 'f, 'm) op_store" where
  "parameterized_make_ptr op s = (op, s)"

definition parameterized_make_function :: "'f \<Rightarrow> ('u, 'f, 'm) op_store \<Rightarrow> operation_ptr \<times> ('u, 'f, 'm) op_store" where
  "parameterized_make_function f = make_shared (Function_operation f)"

definition parameterized_make_member :: "nat \<Rightarrow> 'm \<Rightarrow> ('u, 'f, 'm) op_store \<Rightarrow> operation_ptr \<times> ('u, 'f, 'm) op_store" where
  "parameterized_make_member obj m = make_shared (Member_operation obj m)"

definition parameterized_make :: "'f op_arg \<Rightarrow> ('u, 'f, 'm) op_store \<Rightarrow> operation_ptr \<times> ('u, 'f, 'm) op_store" where
  "parameterized_make arg =
     (if is_convertible arg then parameterized_make_ptr (converted arg)
      else case arg of
             Arg_function f \<Rightarrow> parameterized_make_function f
           | _ \<Rightarrow> parameterized_make_ptr None)"

definition make_iteration_operation :: "'f op_arg \<Rightarrow> ('u, 'f, 'm) op_store \<Rightarrow> operation_ptr \<times> ('u, 'f, 'm) op_store" where
  "make_iteration_operation arg = parameterized_make arg"

section \<open>The overloads of the public classes\<close>

type_synonym ('u, 'f, 'm) submission = "('u, 'f, 'm) op_store \<Rightarrow> (nat, unit) api \<times> ('u, 'f, 'm) op_store"

definition queue_async_f :: "queue_t \<Rightarrow> 'f op_arg \<Rightarrow> ('u, 'f, 'm) submission" where
  "queue_async_f q f s = (let (op, s') = make_operation f s in (queue_async q op, s'))"

definition queue_apply_f :: "queue_t \<Rightarrow> nat \<Rightarrow> 'f op_arg \<Rightarrow> ('u, 'f, 'm) submission" where
  "queue_apply_f q n_times f s = (let (op, s') = make_iteration_operation f s in (queue_apply q n_times op, s'))"

definition queue_after_f :: "queue_t \<Rightarrow> milliseconds \<Rightarrow> 'f op_arg \<Rightarrow> ('u, 'f, 'm) submission" where
  "queue_after_f q delay f s = (let (op, s') = make_operation f s in (queue_after q delay op, s'))"

definition group_async_f :: "group_t \<Rightarrow> 'f op_arg \<Rightarrow> queue_t \<Rightarrow> ('u, 'f, 'm) submission" where
  "group_async_f g f q s = (let (op, s') = make_operation f s in (group_async g op q, s'))"

definition group_async_priority_f ::
  "build_config \<Rightarrow> group_t \<Rightarrow> 'f op_arg \<Rightarrow> queue_priority \<Rightarrow> ('u, 'f, 'm) submission"
where
  "group_async_priority_f cfg g f priority s = (let (op, s') = make_operation f s in (group_async_priority cfg g op priority, s'))"

definition group_notify_f :: "group_t \<Rightarrow> 'f op_arg \<Rightarrow> queue_t \<Rightarrow> ('u, 'f, 'm) submission" where
  "group_notify_f g f q s = (let (op, s') = make_operation f s in (group_notify g op q, s'))"

definition timer_handler_f :: "timer_t \<Rightarrow> 'f op_arg \<Rightarrow> ('u, 'f, 'm) submission" where
  "timer_handler_f t f s = (let (op, s') = make_operation f s in (timer_handler t op, s'))"

definition socket_notifier_handler_f :: "socket_notifier_t \<Rightarrow> 'f op_arg \<Rightarrow> ('u, 'f, 'm) submission" where
  "socket_notifier_handler_f n f s = (let (op, s') = parameterized_make f s in (socket_notifier_handler n op, s'))"

text \<open>
  The entry points that accept an operation, with the overload that the compiler chooses: an \<open>operation_ptr\<close> matches the plain
  function exactly, every other argument the template.
\<close>

datatype op_entry =
  E_async queue_t
| E_apply queue_t nat
| E_after queue_t milliseconds
| E_group_async group_t queue_t
| E_group_priority group_t queue_priority
| E_group_notify group_t queue_t
| E_timer_handler timer_t
| E_notifier_handler socket_notifier_t

fun submit_ptr :: "build_config \<Rightarrow> op_entry \<Rightarrow> operation_ptr \<Rightarrow> (nat, unit) api" where
  "submit_ptr cfg (E_async q) op = queue_async q op"
| "submit_ptr cfg (E_apply q n_times) op = queue_apply q n_times op"
| "submit_ptr cfg (E_after q delay) op = queue_after q delay op"
| "submit_ptr cfg (E_group_async g q) op = group_async g op q"
| "submit_ptr cfg (E_group_priority g p) op = group_async_priority cfg g op p"
| "submit_ptr cfg (E_group_notify g q) op = group_notify g op q"
| "submit_ptr cfg (E_timer_handler t) op = timer_handler t op"
| "submit_ptr cfg (E_notifier_handler n) op = socket_notifier_handler n op"

fun submit_template :: "build_config \<Rightarrow> op_entry \<Rightarrow> 'f op_arg \<Rightarrow> ('u, 'f, 'm) submission" where
  "submit_template cfg (E_async q) f = queue_async_f q f"
| "submit_template cfg (E_apply q n_times) f = queue_apply_f q n_times f"
| "submit_template cfg (E_after q delay) f = queue_after_f q delay f"
| "submit_template cfg (E_group_async g q) f = group_async_f g f q"
| "submit_template cfg (E_group_priority g p) f = group_async_priority_f cfg g f p"
| "submit_template cfg (E_group_notify g q) f = group_notify_f g f q"
| "submit_template cfg (E_timer_handler t) f = timer_handler_f t f"
| "submit_template cfg (E_notifier_handler n) f = socket_notifier_handler_f n f"

definition submit :: "build_config \<Rightarrow> op_entry \<Rightarrow> 'f op_arg \<Rightarrow> ('u, 'f, 'm) submission" where
  "submit cfg e arg = (case arg of Arg_ptr op \<Rightarrow> (\<lambda>s. (submit_ptr cfg e op, s)) | _ \<Rightarrow> submit_template cfg e arg)"


section \<open>Lemmas\<close>

text \<open>
  The calls that the implementations have received after operation \<open>i\<close> was submitted: the function of the same name, once, on the
  implementation of the object, with the parameters of the client; \<open>async\<close> with a priority asks for the global queue first.
\<close>

fun entry_calls :: "build_config \<Rightarrow> op_entry \<Rightarrow> nat \<Rightarrow> nat api_world \<Rightarrow> nat impl_call list" where
  "entry_calls cfg (E_async q) i w = aw_calls w @ [Q_async (qi_id (q_impl q)) i]"
| "entry_calls cfg (E_apply q n_times) i w = aw_calls w @ [Q_apply (qi_id (q_impl q)) n_times i]"
| "entry_calls cfg (E_after q delay) i w = aw_calls w @ [Q_after (qi_id (q_impl q)) delay i]"
| "entry_calls cfg (E_group_async g q) i w = aw_calls w @ [G_async (gi_id (g_impl g)) i (qi_id (q_impl q))]"
| "entry_calls cfg (E_group_priority g p) i w =
     (case global_queue cfg p w of
        Inl e \<Rightarrow> []
      | Inr (q, w1) \<Rightarrow> aw_calls w1 @ [G_async (gi_id (g_impl g)) i (qi_id (q_impl q))])"
| "entry_calls cfg (E_group_notify g q) i w = aw_calls w @ [G_notify (gi_id (g_impl g)) i (qi_id (q_impl q))]"
| "entry_calls cfg (E_timer_handler t) i w = aw_calls w @ [T_handler (ti_id (t_impl t)) i]"
| "entry_calls cfg (E_notifier_handler n) i w = aw_calls w @ [N_handler (ni_id (n_impl n)) i]"

text \<open>What the argument of the client does when it is called.\<close>

fun arg_behaviour :: "('u, 'f, 'm, 'w, 'r) callables \<Rightarrow> ('u, 'f, 'm) op_store \<Rightarrow> 'f op_arg \<Rightarrow> op_params \<Rightarrow> 'w \<Rightarrow> 'r" where
  "arg_behaviour c s (Arg_ptr p) = op_call c (s ! the p)"
| "arg_behaviour c s (Arg_derived p) = op_call c (s ! the p)"
| "arg_behaviour c s (Arg_function f) = call_function c f"

fun arg_valid :: "('u, 'f, 'm) op_store \<Rightarrow> 'f op_arg \<Rightarrow> bool" where
  "arg_valid s (Arg_ptr p) = (\<exists>i < length s. p = Some i)"
| "arg_valid s (Arg_derived p) = (\<exists>i < length s. p = Some i)"
| "arg_valid s _ = True"

definition arg_null :: "'f op_arg \<Rightarrow> bool" where
  "arg_null arg \<longleftrightarrow> is_convertible arg \<and> converted arg = None"

text \<open>Both families of overloads make the same object.\<close>

lemma parameterized_make_eq: "parameterized_make arg = make_operation arg"
  by (cases arg)
     (simp_all add: parameterized_make_def make_operation_def parameterized_make_ptr_def make_operation_ptr_def fun_eq_iff
        parameterized_make_function_def make_operation_function_def parameterized_make_member_def make_operation_member_def)

lemma submit_eq:
  "submit cfg e arg s = (let (op, s') = make_operation arg s in (submit_ptr cfg e op, s'))"
  by (cases arg; cases e)
     (simp_all add: submit_def queue_async_f_def queue_apply_f_def queue_after_f_def group_async_f_def group_async_priority_f_def
        group_notify_f_def timer_handler_f_def socket_notifier_handler_f_def make_iteration_operation_def parameterized_make_eq
        make_operation_def make_operation_ptr_def make_operation_function_def make_operation_member_def make_shared_def)

text \<open>The object that is made is there in every later store and does what the argument does.\<close>

lemma make_operation_behaviour:
  assumes "make_operation arg s = (op, s')" and "arg_valid s arg" and "prefix s' t"
  shows "\<exists>i. op = Some i \<and> i < length s' \<and> prefix s s' \<and>
           (\<forall>params w. execute_operation_on_this_thread c t i params w = arg_behaviour c s arg params w)"
proof -
  obtain u where t: "t = s' @ u" using assms(3) by (auto elim: prefixE)
  define i where "i = the op"
  have "op = Some i \<and> i < length s' \<and> prefix s s' \<and> (\<forall>params w. op_call c (s' ! i) params w = arg_behaviour c s arg params w)"
    using assms(1,2) unfolding i_def
    by (cases arg; clarsimp simp: make_operation_def make_operation_ptr_def make_operation_function_def make_shared_def)
  then show ?thesis by (intro exI[of _ i]) (simp add: t execute_operation_on_this_thread_def nth_append)
qed

lemma make_operation_null: "arg_null arg \<Longrightarrow> make_operation arg s = (None, s)"
  by (cases arg) (auto simp: arg_null_def make_operation_def make_operation_ptr_def)

lemma group_check_cases: "group_check g q w = Inr ((), w) \<or> (\<exists>e. group_check g q w = Inl e)"
  by (simp add: group_check_def assert_same_backend_def api_defs)

lemma group_calls:
  "group_async g (Some i) q w = Inr ((), w') \<Longrightarrow> aw_calls w' = aw_calls w @ [G_async (gi_id (g_impl g)) i (qi_id (q_impl q))]"
  "group_notify g (Some i) q w = Inr ((), w') \<Longrightarrow> aw_calls w' = aw_calls w @ [G_notify (gi_id (g_impl g)) i (qi_id (q_impl q))]"
  using group_check_cases[of g q w]
  by (auto simp: group_async_def group_notify_def queue_operation_with_d_def api_bind_def api_return_def api_call_def)

lemma submit_ptr_calls:
  assumes "submit_ptr cfg e (Some i) w = Inr ((), w')"
  shows "aw_calls w' = entry_calls cfg e i w"
proof (cases e)
  case (E_group_async g q)
  then show ?thesis using assms group_calls(1)[of g i q w w'] by simp
next
  case (E_group_notify g q)
  then show ?thesis using assms group_calls(2)[of g i q w w'] by simp
next
  case (E_group_priority g p)
  then obtain q w1 where "global_queue cfg p w = Inr (q, w1)" "group_async g (Some i) q w1 = Inr ((), w')"
    using assms by (auto simp: group_async_priority_def api_bind_def split: sum.splits)
  then show ?thesis using group_calls(1)[of g i q w1 w'] E_group_priority by simp
qed (use assms in \<open>auto simp: queue_async_def queue_apply_def queue_after_def timer_handler_def socket_notifier_handler_def
        queue_operation_with_d_def api_bind_def api_return_def api_call_def api_deref_def\<close>)

lemma submit_ptr_null:
  assumes "\<And>g p. e \<noteq> E_group_priority g p"
  shows "submit_ptr cfg e None w =
     Inl (case e of E_timer_handler t \<Rightarrow> Null_reference | E_notifier_handler n \<Rightarrow> Null_reference | _ \<Rightarrow> Assertion ''op'')"
  using assms
  by (cases e) (auto simp: queue_async_def queue_apply_def queue_after_def group_async_def group_notify_def timer_handler_def
        socket_notifier_handler_def api_defs)

section \<open>Properties\<close>

text \<open>
  C32. Whatever a client passes to one of the entry points of \<open>queue\<close>, \<open>group\<close>, \<open>timer\<close> or \<open>socket_notifier\<close>, a pointer to an operation or a
  function object: if the call returns, the function of the same name of the object's own implementation (for a group with a priority, with
  the global queue of that priority) was called exactly once, with the parameters of the client and an operation that does what the
  argument does, also after any number of further operations was made.
\<close>

theorem submitted_operation_runs_its_argument:
  assumes "submit cfg e arg s = (act, s')" and "act w = Inr ((), w')" and "arg_valid s arg" and "prefix s' t"
  shows "\<exists>i < length s'. aw_calls w' = entry_calls cfg e i w \<and>
           (\<forall>params x. execute_operation_on_this_thread c t i params x = arg_behaviour c s arg params x)"
proof -
  obtain op where op: "make_operation arg s = (op, s')" "act = submit_ptr cfg e op"
    using assms(1) unfolding submit_eq by (cases "make_operation arg s") auto
  from make_operation_behaviour[OF op(1) assms(3,4), of c] obtain i where i: "op = Some i" "i < length s'"
    "\<forall>params x. execute_operation_on_this_thread c t i params x = arg_behaviour c s arg params x" by blast
  have "submit_ptr cfg e (Some i) w = Inr ((), w')" using assms(2) op(2) i(1) by simp
  from submit_ptr_calls[OF this] i show ?thesis by blast
qed

definition op_demo_callables :: "(nat, nat, nat, nat, nat) callables" where
  "op_demo_callables =
     \<lparr>call_user = (\<lambda>u _ w. u + w), call_function = (\<lambda>f params w. f * (case params of P_index i \<Rightarrow> i | _ \<Rightarrow> 1) + w),
      call_member = (\<lambda>obj m _ w. obj + m + w)\<rparr>"

definition op_demo_queue :: queue_t where
  "op_demo_queue =
     \<lparr>q_impl = \<lparr>qi_id = 3, qi_backend = Backend_naive, qi_serial = False, qi_executor = Ex_global_pool, qi_label = ''q'', qi_priority = UTILITY\<rparr>,
      q_label = ''q''\<rparr>"

definition op_demo_world :: "nat api_world" where
  "op_demo_world =
     \<lparr>aw_next = 4, aw_app = None, aw_naive_main = None, aw_main = None, aw_global = (\<lambda>_. None), aw_manager = [], aw_calls = []\<rparr>"

theorem submitted_operation_runs_its_argument_witness:
  "\<exists>i < 2. [Q_apply 3 8 1] = entry_calls qt5_config (E_apply op_demo_queue 8) i op_demo_world \<and>
     execute_operation_on_this_thread op_demo_callables [User_operation 5, Function_operation 10, User_operation 6] i (P_index 4) 2 = 42"
proof -
  have s: "submit qt5_config (E_apply op_demo_queue 8) (Arg_function 10 :: nat op_arg) [User_operation 5] =
      (queue_apply op_demo_queue 8 (Some 1), [User_operation 5, Function_operation 10 :: (nat, nat, nat) op_object])"
    by (simp add: submit_def queue_apply_f_def make_iteration_operation_def parameterized_make_def parameterized_make_function_def
        make_shared_def)
  have a: "queue_apply op_demo_queue 8 (Some 1) op_demo_world = Inr ((), op_demo_world\<lparr>aw_calls := [Q_apply 3 8 1]\<rparr>)"
    by (simp add: queue_apply_def queue_operation_with_d_def api_defs op_demo_queue_def op_demo_world_def)
  have p: "prefix [User_operation 5, Function_operation 10] [User_operation 5, Function_operation 10, User_operation 6 :: (nat, nat, nat) op_object]"
    by simp
  show ?thesis using submitted_operation_runs_its_argument[OF s a _ p, of op_demo_callables] by (simp add: op_demo_callables_def)
qed

text \<open>An operation made of an object and a member function calls that function on that object, with the parameters that it is called with.\<close>

theorem member_operation_calls_member:
  assumes "make_operation_member obj m s = (op, s') \<or> parameterized_make_member obj m s = (op, s')" and "prefix s' t"
  shows "\<exists>i < length s'. op = Some i \<and> (\<forall>params x. execute_operation_on_this_thread c t i params x = call_member c obj m params x)"
proof -
  have s': "op = Some (length s)" "s' = s @ [Member_operation obj m]"
    using assms(1) by (auto simp: make_operation_member_def parameterized_make_member_def make_shared_def)
  then show ?thesis using assms(2) by (auto simp: execute_operation_on_this_thread_def nth_append elim!: prefixE)
qed

text \<open>
  A null pointer is never handed over: the entry points of queues and groups fail their assertion, the two \<open>handler\<close> functions
  dereference the pointer before they test it. For a group with a priority this holds once the global queue is there.
\<close>

theorem null_operation_is_rejected:
  assumes "arg_null arg"
  shows "(\<forall>g p. e \<noteq> E_group_priority g p) \<longrightarrow>
      fst (submit cfg e arg s) w =
        Inl (case e of E_timer_handler t \<Rightarrow> Null_reference | E_notifier_handler n \<Rightarrow> Null_reference | _ \<Rightarrow> Assertion ''op'')"
    and "global_queue cfg p w = Inr (q, w') \<Longrightarrow> fst (submit cfg (E_group_priority g p) arg s) w = Inl (Assertion ''op'')"
  using submit_ptr_null[of e cfg w] unfolding submit_eq make_operation_null[OF assms]
  by (simp_all add: group_async_priority_def group_async_def api_defs)

end

