(* ===== verification/Pool_Scope.thy ===== *)
theory Pool_Scope
  imports Types
begin

text \<open>
  The current pool of a thread and the scopes that depend on it: \<open>ithreadpool::current\<close>, \<open>run_with_threadpool\<close>
  (\<open>src/naive/naive_threadpool.cpp\<close>) and \<open>block_scope\<close> (\<open>include/xdispatch/backend_naive_ithreadpool.h\<close>).

  A pool is a number, the null pointer \<open>None\<close>; \<open>s_current_pool\<close> is the thread-local variable. An operation is a \<open>scope_prog\<close>: it opens
  block scopes, for the current pool or for another one, runs other operations within a pool, and may throw. The destructors run
  on every path out of a scope. The notifications that the pools receive are recorded in their order.
\<close>

section \<open>The model\<close>

type_synonym pool_ptr = "nat option"

datatype pool_note = Thread_blocked nat | Thread_unblocked nat

datatype scope_prog =
  SP_return
| SP_throw
| SP_run pool_ptr scope_prog scope_prog
| SP_block scope_prog scope_prog
| SP_block_on pool_ptr scope_prog scope_prog

text \<open>The notifications, whether the program throws, and \<open>s_current_pool\<close> afterwards.\<close>

type_synonym scope_result = "pool_note list \<times> bool \<times> pool_ptr"

definition ithreadpool_current :: "pool_ptr \<Rightarrow> pool_ptr" where
  "ithreadpool_current s_current_pool = s_current_pool"

definition block_scope_new :: "pool_ptr \<Rightarrow> pool_note list" where
  "block_scope_new m_pool = (case m_pool of None \<Rightarrow> [] | Some p \<Rightarrow> [Thread_blocked p])"

definition block_scope_destroy :: "pool_ptr \<Rightarrow> pool_note list" where
  "block_scope_destroy m_pool = (case m_pool of None \<Rightarrow> [] | Some p \<Rightarrow> [Thread_unblocked p])"

text \<open>What follows a scope is skipped if its body has thrown.\<close>

definition after_scope :: "pool_note list \<Rightarrow> bool \<Rightarrow> pool_ptr \<Rightarrow> (pool_ptr \<Rightarrow> scope_result) \<Rightarrow> scope_result" where
  "after_scope notes thrown cur rest =
     (if thrown then (notes, True, cur) else let (ns, t, c) = rest cur in (notes @ ns, t, c))"

text \<open>\<open>run_with_threadpool\<close>: \<open>op\<close> is the body, executed with the new current pool; \<open>scoped_setter\<close> restores the previous one.\<close>

definition run_with_threadpool :: "(pool_ptr \<Rightarrow> scope_result) \<Rightarrow> pool_ptr \<Rightarrow> pool_ptr \<Rightarrow> scope_result" where
  "run_with_threadpool op pool s_current_pool =
     (let m_previous = s_current_pool; (ns, thrown, _) = op pool in (ns, thrown, m_previous))"

fun scope_exec :: "scope_prog \<Rightarrow> pool_ptr \<Rightarrow> scope_result" where
  "scope_exec SP_return cur = ([], False, cur)"
| "scope_exec SP_throw cur = ([], True, cur)"
| "scope_exec (SP_run pool body rest) cur =
     (let (ns, thrown, c) = run_with_threadpool (scope_exec body) pool cur in after_scope ns thrown c (scope_exec rest))"
| "scope_exec (SP_block body rest) cur =
     (let m_pool = ithreadpool_current cur; (ns, thrown, c) = scope_exec body cur
      in after_scope (block_scope_new m_pool @ ns @ block_scope_destroy m_pool) thrown c (scope_exec rest))"
| "scope_exec (SP_block_on m_pool body rest) cur =
     (let (ns, thrown, c) = scope_exec body cur
      in after_scope (block_scope_new m_pool @ ns @ block_scope_destroy m_pool) thrown c (scope_exec rest))"

section \<open>Lemmas\<close>

text \<open>How many threads a pool takes for blocked after the notifications, starting with \<open>d\<close>; \<open>None\<close> if the count drops below zero.\<close>

fun blocked_depth :: "nat \<Rightarrow> pool_note list \<Rightarrow> nat \<Rightarrow> nat option" where
  "blocked_depth p [] d = Some d"
| "blocked_depth p (Thread_blocked q # ns) d = blocked_depth p ns (if p = q then Suc d else d)"
| "blocked_depth p (Thread_unblocked q # ns) d =
     (if p = q then (case d of 0 \<Rightarrow> None | Suc d' \<Rightarrow> blocked_depth p ns d') else blocked_depth p ns d)"

lemma blocked_depth_append:
  "blocked_depth p (xs @ ys) d = Option.bind (blocked_depth p xs d) (blocked_depth p ys)"
  by (induction p xs d rule: blocked_depth.induct) (auto split: nat.splits)

lemma block_scope_balanced:
  assumes "\<And>d. blocked_depth p ns d = Some d"
  shows "blocked_depth p (block_scope_new q @ ns @ block_scope_destroy q) d = Some d"
  using assms by (cases q) (simp_all add: block_scope_new_def block_scope_destroy_def blocked_depth_append)

lemma after_scope_balanced:
  assumes "\<And>d. blocked_depth p notes d = Some d" and "\<And>d. blocked_depth p (fst (rest c)) d = Some d"
  shows "blocked_depth p (fst (after_scope notes thrown c rest)) d = Some d"
  using assms by (cases "rest c") (simp add: after_scope_def blocked_depth_append)

lemma scope_exec_current: "snd (snd (scope_exec prog cur)) = cur"
proof (induction prog arbitrary: cur)
  case (SP_run pool body rest)
  then show ?case by (simp add: run_with_threadpool_def after_scope_def Let_def split: prod.splits) (metis snd_conv)
next
  case (SP_block body rest)
  then show ?case by (simp add: after_scope_def Let_def split: prod.splits) (metis snd_conv)
next
  case (SP_block_on pool body rest)
  then show ?case by (simp add: after_scope_def Let_def split: prod.splits) (metis snd_conv)
qed simp_all

lemma scope_exec_balanced: "blocked_depth p (fst (scope_exec prog cur)) d = Some d"
proof (induction prog arbitrary: cur d)
  case (SP_run pool body rest)
  obtain ns t c where b: "scope_exec body pool = (ns, t, c)" by (metis prod_cases3)
  have "blocked_depth p ns d = Some d" for d using SP_run(1)[of pool d] b by simp
  then show ?case using SP_run(2) b by (simp add: run_with_threadpool_def after_scope_balanced)
next
  case (SP_block body rest)
  obtain ns t c where b: "scope_exec body cur = (ns, t, c)" by (metis prod_cases3)
  have "blocked_depth p ns d = Some d" for d using SP_block(1)[of cur d] b by simp
  then show ?case using SP_block(2) b by (simp add: Let_def after_scope_balanced block_scope_balanced)
next
  case (SP_block_on pool body rest)
  obtain ns t c where b: "scope_exec body cur = (ns, t, c)" by (metis prod_cases3)
  have "blocked_depth p ns d = Some d" for d using SP_block_on(1)[of cur d] b by simp
  then show ?case using SP_block_on(2) b by (simp add: after_scope_balanced block_scope_balanced)
qed simp_all

section \<open>Properties\<close>

text \<open>
  C33. Whatever an operation does, however it nests pools and block scopes, and also if it throws: when it is left, the current
  pool of the thread is the one from before, and every pool has got as many notifications that a thread is unblocked as that one is blocked, none of
  them before the one it belongs to.
\<close>

theorem block_scopes_are_balanced:
  "snd (snd (scope_exec prog cur)) = cur \<and> blocked_depth p (fst (scope_exec prog cur)) d = Some d \<and>
     fst (run_with_threadpool (scope_exec prog) pool cur) = fst (scope_exec prog pool) \<and>
     snd (snd (run_with_threadpool (scope_exec prog) pool cur)) = cur"
  using scope_exec_current[of prog cur] scope_exec_balanced[of p prog cur d]
  by (simp add: run_with_threadpool_def split: prod.splits)

end
