(* ===== verification/Symbols.thy ===== *)
theory Symbols
  imports Backend
begin

text \<open>
  \<open>symbol_utils::resolve\<close> (\<open>src/symbol_utils.h\<close>), which finds the entry point of a backend in the modules of the process. The functions of
  the system are parameters: \<open>dlopen_self\<close> is the result of \<open>dlopen (nullptr, RTLD_LAZY)\<close>; \<open>enum_size\<close> and \<open>enum_modules\<close> are
  the two calls of \<open>EnumProcessModules\<close>, the number of bytes and the handles that were written; \<open>module_handle\<close> is
  \<open>GetModuleHandleA (nullptr)\<close>. A null handle is \<open>None\<close>.
\<close>

section \<open>The model\<close>

definition resolve_dlsym :: "'h option \<Rightarrow> ('h \<Rightarrow> string \<Rightarrow> 'f option) \<Rightarrow> string \<Rightarrow> 'f option" where
  "resolve_dlsym dlopen_self dlsym symbol =
     (case dlopen_self of None \<Rightarrow> None | Some handle \<Rightarrow> dlsym handle symbol)"

text \<open>The loop over the vector of modules.\<close>

fun find_symbol :: "('h option \<Rightarrow> string \<Rightarrow> 'f option) \<Rightarrow> 'h option list \<Rightarrow> string \<Rightarrow> 'f option" where
  "find_symbol get_proc [] symbol = None"
| "find_symbol get_proc (handle # modules) symbol =
     (case get_proc handle symbol of None \<Rightarrow> find_symbol get_proc modules symbol | Some f \<Rightarrow> Some f)"

text \<open>
  The vector has \<open>modCount\<close> elements, which is a number of bytes; the elements behind the handles that were written stay null.
\<close>

definition resolve_get_proc ::
  "nat option \<Rightarrow> (nat \<Rightarrow> 'h list option) \<Rightarrow> 'h option \<Rightarrow> ('h option \<Rightarrow> string \<Rightarrow> 'f option) \<Rightarrow> string \<Rightarrow> 'f option"
where
  "resolve_get_proc enum_size enum_modules module_handle get_proc symbol =
     (let found =
        (case enum_size of
           None \<Rightarrow> None
         | Some modCount \<Rightarrow>
             if 0 < modCount then
               (case enum_modules modCount of
                  None \<Rightarrow> None
                | Some hs \<Rightarrow> find_symbol get_proc (map Some hs @ replicate (modCount - length hs) None) symbol)
             else None)
      in case found of
           Some f \<Rightarrow> Some f
         | None \<Rightarrow> (case module_handle of None \<Rightarrow> None | Some handle \<Rightarrow> get_proc (Some handle) symbol))"

section \<open>Lemmas\<close>

lemma find_symbol_append:
  "find_symbol g (xs @ ys) symbol = (case find_symbol g xs symbol of None \<Rightarrow> find_symbol g ys symbol | Some f \<Rightarrow> Some f)"
  by (induction xs) (auto split: option.splits)

lemma find_symbol_null: "g None symbol = None \<Longrightarrow> find_symbol g (replicate n None) symbol = None"
  by (induction n) auto

lemma find_symbol_first:
  "find_symbol g hs symbol = (case find (\<lambda>h. g h symbol \<noteq> None) hs of None \<Rightarrow> None | Some h \<Rightarrow> g h symbol)"
  by (induction hs) (auto split: option.splits)

text \<open>If no module has the symbol then the backend is not there: \<open>imported_backend\<close> falls back.\<close>

lemma resolve_get_proc_none:
  assumes "\<And>h. get_proc h symbol = None"
  shows "resolve_get_proc enum_size enum_modules module_handle get_proc symbol = None"
proof -
  have "find_symbol get_proc hs symbol = None" for hs by (induction hs) (simp_all add: assms)
  then show ?thesis by (auto simp: resolve_get_proc_def assms split: option.splits)
qed

section \<open>Properties\<close>

text \<open>
  Resolving a symbol on Windows finds the first module, in the order of the enumeration, that exports it, and the module of the process itself if none
  does: the surplus elements of the vector have no effect, as long as a null handle has no symbols and the enumeration writes no more than it has announced.
\<close>

theorem resolve_finds_first_module:
  assumes "get_proc None symbol = None" and "enum_size = Some n" and "enum_modules n = Some hs" and "hs \<noteq> []" and "length hs \<le> n"
  shows "resolve_get_proc enum_size enum_modules module_handle get_proc symbol =
     (case find (\<lambda>h. get_proc h symbol \<noteq> None) (map Some hs @ [module_handle]) of
        None \<Rightarrow> None | Some h \<Rightarrow> get_proc h symbol)"
proof -
  have "0 < n" using assms(4,5) by (cases hs) auto
  then have "resolve_get_proc enum_size enum_modules module_handle get_proc symbol =
      (case find_symbol get_proc (map Some hs) symbol of
         Some f \<Rightarrow> Some f | None \<Rightarrow> (case module_handle of None \<Rightarrow> None | Some handle \<Rightarrow> get_proc (Some handle) symbol))"
    using assms find_symbol_null[of get_proc symbol]
    by (auto simp: resolve_get_proc_def find_symbol_append split: option.splits)
  also have "\<dots> = find_symbol get_proc (map Some hs @ [module_handle]) symbol"
    using assms(1) by (auto simp: find_symbol_append split: option.splits)
  finally show ?thesis by (simp add: find_symbol_first)
qed

theorem resolve_finds_first_module_witness:
  "resolve_get_proc (Some 16) (\<lambda>_. Some [1, 2 :: nat]) (Some 0) (\<lambda>h s. if h = Some 2 then Some (7 :: nat) else None) ''f'' = Some 7"
  by (subst resolve_finds_first_module[where n = 16 and hs = "[1, 2]"]) simp_all

end
