(* ===== verification/Qt_Signals.thy ===== *)
theory Qt_Signals
  imports Connection
begin

text \<open>
  Connections tied to the lifetime of a \<open>QObject\<close> (\<open>src/qt5/qt5_signals.h\<close>, \<open>src/qt5/qt5_signals.cpp\<close>, the templates of
  \<open>include/xdispatch/backend_qt.h\<close>), on top of theory \<open>Connection\<close>.

  An object is a number. \<open>qw_managers\<close> gives the \<open>ObjectConnectionManager\<close> among the direct children of an object. The
  destruction of an object runs the destructor of the receiver's own class first (\<open>receiver_destroyed\<close>, the object leaves
  \<open>qw_complete\<close>); the destructor of \<open>QObject\<close> then deletes the children, with them the manager (\<open>qobject_destroyed\<close>, the object leaves
  \<open>qw_objects\<close>). That Qt deletes the children there is documented behaviour of Qt. A call on a deleted object has the result \<open>None\<close>.
\<close>

section \<open>The model\<close>

type_synonym qobject = nat

record ('q, 'f) qt_world =
  qw_signals :: "('q, 'f) signal_world"
  qw_objects :: "qobject set"
  qw_complete :: "qobject set"
  qw_managers :: "qobject \<Rightarrow> connection_manager option"

definition object_connection_manager_get ::
  "qobject \<Rightarrow> bool \<Rightarrow> ('q, 'f) qt_world \<Rightarrow> (connection_manager option \<times> ('q, 'f) qt_world) option"
where
  "object_connection_manager_get obj createIfMissing w =
     (if obj \<notin> qw_objects w then None
      else let oc = qw_managers w obj in
        if createIfMissing \<and> oc = None
        then Some (Some connection_manager_new, w\<lparr>qw_managers := (qw_managers w)(obj \<mapsto> connection_manager_new)\<rparr>)
        else Some (oc, w))"

definition register_connection :: "qobject \<Rightarrow> connection \<Rightarrow> ('q, 'f) qt_world \<Rightarrow> ('q, 'f) qt_world option" where
  "register_connection obj c w = do {
     (receiver_connection, w') \<leftarrow> object_connection_manager_get obj True w;
     cm \<leftarrow> receiver_connection;
     Some (w'\<lparr>qw_managers := (qw_managers w')(obj \<mapsto> manager_add cm c)\<rparr>)
   }"

definition destroy_connections :: "qobject \<Rightarrow> signal_id \<Rightarrow> ('q, 'f) qt_world \<Rightarrow> ('q, 'f) qt_world option" where
  "destroy_connections obj s w = do {
     (receiver_connection, w') \<leftarrow> object_connection_manager_get obj False w;
     case receiver_connection of
       None \<Rightarrow> Some w'
     | Some cm \<Rightarrow> do {
         (cm', sw) \<leftarrow> reset_connections_with cm s (qw_signals w');
         Some (w'\<lparr>qw_signals := sw, qw_managers := (qw_managers w')(obj \<mapsto> cm')\<rparr>)
       }
   }"

definition qt_connect_slot ::
  "signal_id \<Rightarrow> qobject \<Rightarrow> 'f \<Rightarrow> 'q \<Rightarrow> notification_mode \<Rightarrow> ('q, 'f) qt_world \<Rightarrow> ('q, 'f) qt_world option"
where
  "qt_connect_slot sender receiver slot q m w = do {
     (c, sw) \<leftarrow> signal_connect_member sender receiver slot q m (qw_signals w);
     register_connection receiver c (w\<lparr>qw_signals := sw\<rparr>)
   }"

definition qt_connect_lambda ::
  "signal_id \<Rightarrow> qobject \<Rightarrow> 'f \<Rightarrow> 'q \<Rightarrow> notification_mode \<Rightarrow> ('q, 'f) qt_world \<Rightarrow> ('q, 'f) qt_world option"
where
  "qt_connect_lambda sender receiver lambda q m w = do {
     (c, sw) \<leftarrow> signal_connect sender (F_call lambda) q m (qw_signals w);
     register_connection receiver c (w\<lparr>qw_signals := sw\<rparr>)
   }"

definition qt_disconnect :: "signal_id \<Rightarrow> qobject \<Rightarrow> ('q, 'f) qt_world \<Rightarrow> ('q, 'f) qt_world option" where
  "qt_disconnect sender receiver w = destroy_connections receiver sender w"

definition receiver_destroyed :: "qobject \<Rightarrow> ('q, 'f) qt_world \<Rightarrow> ('q, 'f) qt_world" where
  "receiver_destroyed obj w = w\<lparr>qw_complete := qw_complete w - {obj}\<rparr>"

text \<open>The destructor of the manager is the one of its \<open>m_connections\<close>.\<close>

definition qobject_destroyed :: "qobject \<Rightarrow> ('q, 'f) qt_world \<Rightarrow> ('q, 'f) qt_world option" where
  "qobject_destroyed obj w = (case qw_managers w obj of
       None \<Rightarrow> Some (w\<lparr>qw_objects := qw_objects w - {obj}\<rparr>)
     | Some cm \<Rightarrow> do {
         sw \<leftarrow> manager_destroy cm (qw_signals w);
         Some (w\<lparr>qw_signals := sw, qw_objects := qw_objects w - {obj}, qw_managers := (qw_managers w)(obj := None)\<rparr>)
       })"

text \<open>
  The steps of a program that connects objects only in this way. As in theory \<open>Connection\<close> the environment queues and
  executes invocations, and a signal is destroyed when none of its invocations is queued.
\<close>

inductive qt_step :: "('q, 'f) qt_world \<Rightarrow> ('q, 'f) qt_world \<Rightarrow> bool" where
  new_object: "obj \<notin> qw_objects w \<Longrightarrow>
    qt_step w (w\<lparr>qw_objects := insert obj (qw_objects w), qw_complete := insert obj (qw_complete w)\<rparr>)"
| connect_slot: "obj \<in> qw_complete w \<Longrightarrow> qt_connect_slot s obj f q m w = Some w' \<Longrightarrow> qt_step w w'"
| connect_lambda: "qt_connect_lambda s obj f q m w = Some w' \<Longrightarrow> qt_step w w'"
| disconnect_object: "qt_disconnect s obj w = Some w' \<Longrightarrow> qt_step w w'"
| destroy_receiver: "obj \<in> qw_complete w \<Longrightarrow> qt_step w (receiver_destroyed obj w)"
| destroy_qobject: "obj \<in> qw_objects w - qw_complete w \<Longrightarrow> qobject_destroyed obj w = Some w' \<Longrightarrow> qt_step w w'"
| environment: "careful_step (qw_signals w, []) (sw, []) \<Longrightarrow> qt_step w (w\<lparr>qw_signals := sw\<rparr>)"

definition qt_init :: "signal_id set \<Rightarrow> ('q, 'f) qt_world" where
  "qt_init A = \<lparr>qw_signals = fst (client_init A), qw_objects = {}, qw_complete = {}, qw_managers = (\<lambda>_. None)\<rparr>"

abbreviation qt_reach :: "signal_id set \<Rightarrow> ('q, 'f) qt_world \<Rightarrow> bool" where
  "qt_reach A w \<equiv> qt_step\<^sup>*\<^sup>* (qt_init A) w"


section \<open>The invariant\<close>

text \<open>
  A handler that is not disabled is in the vector of its signal, and if it calls a member of an object then the manager of
  that object, which is alive, holds its connection.
\<close>

definition managed :: "('q, 'f) qt_world \<Rightarrow> qobject \<Rightarrow> handler_id set" where
  "managed w obj = (case qw_managers w obj of None \<Rightarrow> {} | Some cm \<Rightarrow> connection_ids (m_connections cm))"

definition handler_listed :: "('q, 'f) signal_world \<Rightarrow> handler_id \<Rightarrow> bool" where
  "handler_listed sw h \<longleftrightarrow> (\<exists>hs. sw_handlers sw (fst h) = Some hs \<and> h \<in> set hs)"

definition receives :: "('q, 'f) signal_world \<Rightarrow> handler_id \<Rightarrow> qobject \<Rightarrow> bool" where
  "receives sw h obj \<longleftrightarrow> (\<exists>c f. sw_config sw h = Some c \<and> cht_func c = F_member obj f)"

definition qt_ok :: "('q, 'f) qt_world \<Rightarrow> bool" where
  "qt_ok w \<longleftrightarrow>
     world_ok (qw_signals w) \<and> qw_complete w \<subseteq> qw_objects w \<and>
     (\<forall>obj cm. qw_managers w obj = Some cm \<longrightarrow>
        obj \<in> qw_objects w \<and> (\<forall>c \<in> set (m_connections cm). connection_ok (sw_next (qw_signals w)) c)) \<and>
     (\<forall>h. sw_enabled (qw_signals w) h \<longrightarrow>
        handler_listed (qw_signals w) h \<and> (\<forall>obj. receives (qw_signals w) h obj \<longrightarrow> h \<in> managed w obj))"

lemma qt_okD:
  assumes "qt_ok w"
  shows "world_ok (qw_signals w)" "qw_complete w \<subseteq> qw_objects w"
    "qw_managers w obj = Some cm \<Longrightarrow> obj \<in> qw_objects w"
    "qw_managers w obj = Some cm \<Longrightarrow> c \<in> set (m_connections cm) \<Longrightarrow> connection_ok (sw_next (qw_signals w)) c"
    "sw_enabled (qw_signals w) h \<Longrightarrow> handler_listed (qw_signals w) h"
    "sw_enabled (qw_signals w) h \<Longrightarrow> receives (qw_signals w) h obj \<Longrightarrow> h \<in> managed w obj"
  using assms unfolding qt_ok_def by blast+

lemma without_handlers_simps [simp]:
  "sw_next (without_handlers H sw) = sw_next sw" "sw_config (without_handlers H sw) = sw_config sw"
  "sw_held (without_handlers H sw) = sw_held sw"
  by (simp_all add: without_handlers_def)

lemma receives_without [simp]: "receives (without_handlers H sw) h obj = receives sw h obj"
  by (simp add: receives_def)

lemma listed_alive: "handler_listed sw h \<Longrightarrow> handler_alive sw h"
  by (auto simp: handler_listed_def handler_alive_def)

text \<open>Handlers of \<open>H\<close> are disabled; the others stay as they are.\<close>

lemma enabled_without:
  assumes "qt_ok w" "sw_enabled (without_handlers H (qw_signals w)) h"
  shows "h \<notin> H \<and> sw_enabled (qw_signals w) h \<and> handler_listed (without_handlers H (qw_signals w)) h"
proof -
  have "sw_enabled (qw_signals w) h" using assms(2) by (simp add: without_handlers_def)
  moreover from this have l: "handler_listed (qw_signals w) h" by (rule qt_okD(5)[OF assms(1)])
  moreover from l have "h \<notin> H" using assms(2) listed_alive[OF l] by (simp add: without_handlers_def)
  ultimately show ?thesis by (cases h) (auto simp: handler_listed_def without_handlers_def)
qed

lemma world_ok_without:
  assumes "world_ok sw" "\<forall>c \<in> set cs. connection_ok (sw_next sw) c"
  shows "world_ok (without_handlers (connection_ids cs) sw)"
  using assms
proof (induction cs arbitrary: sw)
  case (Cons c cs)
  have d: "connection_disconnect c sw = Some (connected sw c, connection_empty, without_handlers (connection_ids [c]) sw)"
    using Cons.prems connection_disconnect_without[of sw "sw_next sw" c] by simp
  have "world_ok (without_handlers (connection_ids [c]) sw)" using world_ok_disconnect[OF d] Cons.prems by simp
  then have "world_ok (without_handlers (connection_ids cs) (without_handlers (connection_ids [c]) sw))"
    using Cons.prems by (intro Cons.IH) simp_all
  then show ?case by (simp add: without_handlers_Un)
qed simp

text \<open>The effect of the operations.\<close>

abbreviation conns_to :: "signal_id \<Rightarrow> connection_manager \<Rightarrow> connection list" where
  "conns_to s cm \<equiv> filter (\<lambda>c. is_connected_to c s) (m_connections cm)"

lemma qt_disconnect_effect:
  assumes "qt_ok w" "obj \<in> qw_objects w"
  shows "qt_disconnect s obj w = Some (case qw_managers w obj of
      None \<Rightarrow> w
    | Some cm \<Rightarrow> w\<lparr>qw_signals := without_handlers (connection_ids (conns_to s cm)) (qw_signals w),
                    qw_managers := (qw_managers w)(obj \<mapsto>
                      cm\<lparr>m_connections := filter (\<lambda>c. \<not> is_connected_to c s) (m_connections cm)\<rparr>)\<rparr>)"
proof (cases "qw_managers w obj")
  case (Some cm)
  have "scoped_destroy_all (conns_to s cm) (qw_signals w) = Some (without_handlers (connection_ids (conns_to s cm)) (qw_signals w))"
    using qt_okD(1,4)[OF assms(1)] Some by (intro scoped_destroy_all_without) auto
  then show ?thesis using Some assms(2)
    by (simp add: qt_disconnect_def destroy_connections_def object_connection_manager_get_def reset_connections_with_eq)
qed (use assms(2) in \<open>simp add: qt_disconnect_def destroy_connections_def object_connection_manager_get_def\<close>)

lemma qobject_destroyed_effect:
  assumes "qt_ok w"
  shows "qobject_destroyed obj w = Some (w\<lparr>qw_signals := without_handlers (managed w obj) (qw_signals w),
      qw_objects := qw_objects w - {obj}, qw_managers := (qw_managers w)(obj := None)\<rparr>)"
proof (cases "qw_managers w obj")
  case (Some cm)
  have "reset_connections cm (qw_signals w) =
      Some (connection_manager_new, without_handlers (connection_ids (m_connections cm)) (qw_signals w))"
    using qt_okD(1,4)[OF assms] Some by (intro reset_connections_without) auto
  then show ?thesis using Some by (simp add: qobject_destroyed_def manager_destroy_def managed_def)
qed (simp add: qobject_destroyed_def managed_def fun_upd_idem)

lemma managed_disconnect:
  assumes "qw_managers w obj = Some cm" "h \<in> managed w obj" "h \<notin> connection_ids (conns_to s cm)"
  shows "\<exists>c \<in> set (m_connections cm). \<not> is_connected_to c s \<and> m_id c = Some h"
  using assms by (auto simp: managed_def connection_ids_def)

lemma qt_ok_disconnect:
  assumes "qt_ok w" "qt_disconnect s obj w = Some w'"
  shows "qt_ok w'"
proof -
  have obj: "obj \<in> qw_objects w"
    using assms(2) by (auto simp: qt_disconnect_def destroy_connections_def object_connection_manager_get_def split: if_splits)
  show ?thesis
  proof (cases "qw_managers w obj")
    case None
    then show ?thesis using qt_disconnect_effect[OF assms(1) obj] assms by simp
  next
    case (Some cm)
    let ?H = "connection_ids (conns_to s cm)"
    have w': "w' = w\<lparr>qw_signals := without_handlers ?H (qw_signals w), qw_managers := (qw_managers w)(obj \<mapsto>
        cm\<lparr>m_connections := filter (\<lambda>c. \<not> is_connected_to c s) (m_connections cm)\<rparr>)\<rparr>"
      using qt_disconnect_effect[OF assms(1) obj, of s] assms(2) Some by simp
    have "world_ok (without_handlers ?H (qw_signals w))"
      using qt_okD(1,4)[OF assms(1)] Some by (intro world_ok_without) auto
    moreover have "h \<in> managed w' o'" if "sw_enabled (qw_signals w') h" "receives (qw_signals w') h o'" for h o'
    proof -
      have e: "sw_enabled (qw_signals w) h" "h \<notin> ?H" using enabled_without[OF assms(1), of ?H h] that(1) by (auto simp: w')
      have m: "h \<in> managed w o'" using qt_okD(6)[OF assms(1) e(1)] that(2) by (simp add: w')
      show ?thesis using managed_disconnect[OF Some, of h s] m e(2)
        by (cases "o' = obj") (auto simp: managed_def w' connection_ids_def)
    qed
    ultimately show ?thesis
      using qt_okD(1-4)[OF assms(1)] enabled_without[OF assms(1), of ?H] Some obj unfolding qt_ok_def
      by (auto simp: w')
  qed
qed

lemma qt_ok_destroyed:
  assumes "qt_ok w" "obj \<notin> qw_complete w" "qobject_destroyed obj w = Some w'"
  shows "qt_ok w'"
proof -
  let ?H = "managed w obj"
  have w': "w' = w\<lparr>qw_signals := without_handlers ?H (qw_signals w),
      qw_objects := qw_objects w - {obj}, qw_managers := (qw_managers w)(obj := None)\<rparr>"
    using qobject_destroyed_effect[OF assms(1)] assms(3) by simp
  have "world_ok (without_handlers ?H (qw_signals w))"
    using qt_okD(1,4)[OF assms(1)] by (cases "qw_managers w obj") (auto simp: managed_def intro!: world_ok_without)
  moreover have "h \<in> managed w' o'" if "sw_enabled (qw_signals w') h" "receives (qw_signals w') h o'" for h o'
  proof -
    have e: "sw_enabled (qw_signals w) h" "h \<notin> ?H" using enabled_without[OF assms(1), of ?H h] that(1) by (auto simp: w')
    have m: "h \<in> managed w o'" using qt_okD(6)[OF assms(1) e(1)] that(2) by (simp add: w')
    then show ?thesis using e(2) by (cases "o' = obj") (auto simp: managed_def w')
  qed
  ultimately show ?thesis
    using qt_okD(1-4)[OF assms(1)] enabled_without[OF assms(1), of ?H] assms(2) unfolding qt_ok_def
    by (auto simp: w' split: if_splits)
qed

lemma register_effect:
  assumes "obj \<in> qw_objects w"
  shows "\<exists>cm. (qw_managers w obj = Some cm \<or> qw_managers w obj = None \<and> cm = connection_manager_new) \<and>
    register_connection obj c w = Some (w\<lparr>qw_managers := (qw_managers w)(obj \<mapsto> manager_add cm c)\<rparr>)"
  using assms by (cases "qw_managers w obj") (simp_all add: register_connection_def object_connection_manager_get_def)


lemma qt_ok_connect:
  assumes "qt_ok w" and "signal_connect s g q m (qw_signals w) = Some (c, sw)"
    and "register_connection obj c (w\<lparr>qw_signals := sw\<rparr>) = Some w'" and "\<And>o' f. g = F_member o' f \<Longrightarrow> o' = obj"
  shows "qt_ok w'"
proof -
  let ?sw = "qw_signals w"
  let ?h = "(s, sw_next ?sw)"
  obtain hs where hs: "sw_handlers ?sw s = Some hs" and c: "c = \<lparr>m_id = Some ?h, m_parent = Some s\<rparr>"
    and sw: "sw = ?sw\<lparr>sw_config := (sw_config ?sw)(?h \<mapsto> \<lparr>cht_queue = q, cht_func = g, cht_mode = m\<rparr>),
            sw_enabled := (sw_enabled ?sw)(?h := True), sw_next := sw_next ?sw + 1,
            sw_handlers := (sw_handlers ?sw)(s \<mapsto> hs @ [?h])\<rparr>"
    by (rule signal_connect_effect[OF assms(2)])
  have obj: "obj \<in> qw_objects w"
    using assms(3) by (auto simp: register_connection_def object_connection_manager_get_def split: if_splits)
  then obtain cm where cm: "qw_managers w obj = Some cm \<or> qw_managers w obj = None \<and> cm = connection_manager_new"
    and w': "w' = w\<lparr>qw_signals := sw, qw_managers := (qw_managers w)(obj \<mapsto> manager_add cm c)\<rparr>"
    using register_effect[of obj "w\<lparr>qw_signals := sw\<rparr>" c] assms(3) by auto
  have ok: "world_ok sw" "connection_ok (sw_next sw) c"
    using world_ok_connect[OF assms(2) qt_okD(1)[OF assms(1)]] by auto
  have "connection_ok (sw_next sw) d" if "qw_managers w' o' = Some cm'" "d \<in> set (m_connections cm')" for o' cm' d
  proof (cases "o' = obj \<and> d = c")
    case False
    then have "\<exists>cm. qw_managers w o' = Some cm \<and> d \<in> set (m_connections cm)"
      using that cm by (auto simp: w' manager_add_def scoped_new_def connection_manager_new_def split: if_splits)
    then have "connection_ok (sw_next ?sw) d" using qt_okD(4)[OF assms(1)] by blast
    then show ?thesis by (rule connection_ok_mono) (simp add: sw)
  qed (use ok(2) in simp)
  moreover have "handler_listed sw h" if "sw_enabled sw h" for h
  proof (cases "h = ?h")
    case False
    then have "handler_listed ?sw h" using that qt_okD(5)[OF assms(1), of h] by (simp add: sw)
    then show ?thesis using hs by (cases h) (auto simp: handler_listed_def sw)
  qed (simp add: handler_listed_def sw)
  moreover have "h \<in> managed w' o'" if "sw_enabled sw h" "receives sw h o'" for h o'
  proof (cases "h = ?h")
    case True
    then have "o' = obj" using that(2) assms(4) by (auto simp: receives_def sw)
    then show ?thesis using True by (simp add: managed_def w' manager_add_def scoped_new_def c connection_ids_def)
  next
    case False
    then have "sw_enabled ?sw h" "receives ?sw h o'" using that by (auto simp: receives_def sw)
    then have "h \<in> managed w o'" by (rule qt_okD(6)[OF assms(1)])
    then show ?thesis using cm
      by (cases "o' = obj") (auto simp: managed_def w' manager_add_def connection_ids_def connection_manager_new_def)
  qed
  ultimately show ?thesis
    using qt_okD(2,3)[OF assms(1)] ok(1) obj unfolding qt_ok_def by (auto simp: w' split: if_splits)
qed

lemma environment_effect:
  assumes "careful_step (sw, []) (sw', [])" and "world_ok sw"
  shows "world_ok sw' \<and> sw_next sw' = sw_next sw \<and> sw_config sw' = sw_config sw \<and>
    (\<forall>h. sw_enabled sw' h \<longrightarrow> handler_listed sw h \<longrightarrow> sw_enabled sw h \<and> handler_listed sw' h)"
proof -
  have "client_ok (sw', [])" using client_ok_step[OF assms(1)] assms(2) by (simp add: client_ok_def)
  then have "world_ok sw'" by (simp add: client_ok_def)
  have "client_step (sw, []) (sw', [])" using assms(1) by (simp add: careful_step_def)
  then show ?thesis
  proof (cases rule: client_step.cases)
    case (destroy s)
    then obtain hs where hs: "sw_handlers sw s = Some hs"
      and sw': "sw' = sw\<lparr>sw_enabled := (\<lambda>h. sw_enabled sw h \<and> h \<notin> set hs), sw_handlers := (sw_handlers sw)(s := None)\<rparr>"
      by (auto simp: signal_destroy_def split: bind_splits)
    have "handler_listed sw' h" if "h \<notin> set hs" "handler_listed sw h" for h
      using that hs by (cases h) (auto simp: handler_listed_def sw')
    then show ?thesis using \<open>world_ok sw'\<close> by (simp add: sw')
  qed (use \<open>world_ok sw'\<close> in \<open>auto simp: handler_listed_def\<close>)
qed

lemma qt_ok_step: "qt_step w w' \<Longrightarrow> qt_ok w \<Longrightarrow> qt_ok w'"
proof (induction rule: qt_step.induct)
  case (new_object obj w)
  then show ?case by (auto simp: qt_ok_def managed_def)
next
  case (connect_slot obj w s f q m w')
  then obtain c sw where "signal_connect s (F_member obj f) q m (qw_signals w) = Some (c, sw)"
    "register_connection obj c (w\<lparr>qw_signals := sw\<rparr>) = Some w'"
    by (auto simp: qt_connect_slot_def signal_connect_member_def split: bind_splits)
  then show ?case using qt_ok_connect[OF connect_slot(3)] by blast
next
  case (connect_lambda s obj f q m w w')
  then obtain c sw where "signal_connect s (F_call f) q m (qw_signals w) = Some (c, sw)"
    "register_connection obj c (w\<lparr>qw_signals := sw\<rparr>) = Some w'"
    by (auto simp: qt_connect_lambda_def split: bind_splits)
  then show ?case using qt_ok_connect[OF connect_lambda(2)] by blast
next
  case (disconnect_object s obj w w')
  then show ?case using qt_ok_disconnect by blast
next
  case (destroy_receiver obj w)
  then show ?case by (auto simp: qt_ok_def receiver_destroyed_def managed_def)
next
  case (destroy_qobject obj w w')
  then show ?case using qt_ok_destroyed[of w obj w'] by simp
next
  case (environment w sw)
  note e = environment_effect[OF environment(1) qt_okD(1)[OF environment(2)]]
  have "handler_listed sw h \<and> (\<forall>obj. receives sw h obj \<longrightarrow> h \<in> managed w obj)" if "sw_enabled sw h" for h
  proof -
    have "client_step (qw_signals w, []) (sw, [])" using environment(1) by (simp add: careful_step_def)
    then have "sw_enabled (qw_signals w) h" using that
      by (cases rule: client_step.cases) (auto simp: signal_destroy_def split: bind_splits)
    then have l: "handler_listed (qw_signals w) h" and r: "receives (qw_signals w) h obj \<Longrightarrow> h \<in> managed w obj" for obj
      by (rule qt_okD(5,6)[OF environment(2)])+
    have "handler_listed sw h" using e that l by blast
    moreover have "receives sw h obj = receives (qw_signals w) h obj" for obj using e by (simp add: receives_def)
    ultimately show ?thesis using r by simp
  qed
  then show ?case using e qt_okD(2-4)[OF environment(2)] unfolding qt_ok_def by (auto simp: managed_def)
qed

lemma qt_init_ok: "qt_ok (qt_init A)"
  by (auto simp: qt_ok_def qt_init_def client_init_def world_ok_def)

lemma qt_reach_ok: "qt_reach A w \<Longrightarrow> qt_ok w"
  by (induction rule: rtranclp_induct) (simp_all add: qt_init_ok qt_ok_step)


section \<open>Properties\<close>

text \<open>
  C30. No slot of a deleted object stays connected: in every state that a program reaches by connecting, disconnecting and deleting
  objects, while signals are emitted, and destroyed when none of their invocations is queued, a handler that is not disabled and calls a member of an object belongs to an
  object that is not deleted, and its connection is in the manager of that object.
\<close>

theorem qt_no_dangling_slot:
  assumes "qt_reach A w" and "sw_enabled (qw_signals w) h"
    and "sw_config (qw_signals w) h = Some c" and "cht_func c = F_member obj f"
  shows "obj \<in> qw_objects w \<and> h \<in> managed w obj"
proof -
  have m: "h \<in> managed w obj"
    using qt_okD(6)[OF qt_reach_ok[OF assms(1)] assms(2)] assms(3,4) by (auto simp: receives_def)
  then obtain cm where "qw_managers w obj = Some cm" by (auto simp: managed_def split: option.splits)
  then show ?thesis using m qt_okD(3)[OF qt_reach_ok[OF assms(1)]] by blast
qed

definition qt_demo :: "(nat, nat) qt_world" where
  "qt_demo =
     \<lparr>qw_signals = fst connection_demo\<lparr>sw_config := (sw_config (fst connection_demo))((0, 0) \<mapsto> \<lparr>cht_queue = 7, cht_func = F_member 3 5, cht_mode = single_updates\<rparr>)\<rparr>,
      qw_objects = {3}, qw_complete = {3}, qw_managers = (\<lambda>_. None)(3 \<mapsto> \<lparr>m_connections = [hd (snd connection_demo)]\<rparr>)\<rparr>"

lemma qt_demo_reach: "qt_reach {0} qt_demo"
proof -
  let ?w = "(qt_init {0})\<lparr>qw_objects := {3}, qw_complete := {3}\<rparr>"
  have "qt_step (qt_init {0}) ?w" using qt_step.new_object[of 3 "qt_init {0}"] by (simp add: qt_init_def)
  moreover have "qt_connect_slot 0 3 5 7 single_updates ?w = Some qt_demo"
    by (simp add: qt_connect_slot_def signal_connect_member_def connection_demo_simps register_connection_def object_connection_manager_get_def
        qt_init_def qt_demo_def manager_add_def scoped_new_def connection_manager_new_def)
  then have "qt_step ?w qt_demo" by (rule qt_step.connect_slot[rotated]) simp
  ultimately show ?thesis by (rule converse_rtranclp_into_rtranclp[OF _ r_into_rtranclp])
qed

theorem qt_no_dangling_slot_witness: "(0, 0) \<in> managed qt_demo 3"
  using qt_no_dangling_slot[OF qt_demo_reach, of "(0, 0)" "\<lparr>cht_queue = 7, cht_func = F_member 3 5, cht_mode = single_updates\<rparr>" 3 5]
  by (simp add: qt_demo_def connection_demo_simps)

text \<open>
  C31. Deleting an object takes down all connections that were registered with it and no others, never touches a destroyed signal, and
  leaves no handler enabled that calls a member of the object.
\<close>

theorem qt_deletion_is_exact:
  assumes "qt_reach A w"
  shows "\<exists>w'. qobject_destroyed obj w = Some w' \<and> qw_signals w' = without_handlers (managed w obj) (qw_signals w) \<and>
     {h. sw_enabled (qw_signals w') h \<and> receives (qw_signals w') h obj} = {}"
proof -
  note ok = qt_reach_ok[OF assms]
  have "h \<notin> managed w obj \<and> sw_enabled (qw_signals w) h" if "sw_enabled (without_handlers (managed w obj) (qw_signals w)) h" for h
    using enabled_without[OF ok that] by simp
  then have "{h. sw_enabled (without_handlers (managed w obj) (qw_signals w)) h \<and> receives (qw_signals w) h obj} = {}"
    using qt_okD(6)[OF ok] by blast
  then show ?thesis unfolding qobject_destroyed_effect[OF ok] by simp
qed

theorem qt_deletion_is_exact_witness:
  "\<exists>w'. qobject_destroyed 3 qt_demo = Some w' \<and> sw_handlers (qw_signals qt_demo) 0 = Some [(0, 0)] \<and>
     sw_handlers (qw_signals w') 0 = Some []"
  using qt_deletion_is_exact[OF qt_demo_reach, of 3]
  by (auto simp: qt_demo_def connection_demo_simps managed_def without_handlers_def)

text \<open>
  \<open>qt5::disconnect\<close> takes down exactly the connections between the object and the signal; the manager keeps the others in their order.
\<close>

theorem qt_disconnect_is_exact:
  assumes "qt_reach A w" and "qw_managers w obj = Some cm"
  shows "qt_disconnect s obj w = Some (w
      \<lparr>qw_signals := without_handlers (connection_ids (filter (\<lambda>c. is_connected_to c s) (m_connections cm))) (qw_signals w),
       qw_managers := (qw_managers w)(obj \<mapsto> cm\<lparr>m_connections := filter (\<lambda>c. \<not> is_connected_to c s) (m_connections cm)\<rparr>)\<rparr>)"
  using qt_disconnect_effect[OF qt_reach_ok[OF assms(1)] qt_okD(3)[OF qt_reach_ok[OF assms(1)] assms(2)], of s] assms(2) by simp

theorem qt_disconnect_is_exact_witness:
  "\<exists>w'. qt_disconnect 0 3 qt_demo = Some w' \<and> sw_handlers (qw_signals w') 0 = Some [] \<and>
     qw_managers w' 3 = Some connection_manager_new"
proof -
  have m: "qw_managers qt_demo 3 = Some \<lparr>m_connections = [\<lparr>m_id = Some (0, 0), m_parent = Some 0\<rparr>]\<rparr>"
    by (simp add: qt_demo_def connection_demo_simps)
  show ?thesis
    using qt_disconnect_is_exact[OF qt_demo_reach m, of 0]
    by (auto simp: is_connected_to_def without_handlers_def qt_demo_def connection_demo_simps connection_manager_new_def)
qed

text \<open>
  The connections are closed late: between the destructor of the receiver's own class and the one of \<open>QObject\<close> its slots are still
  connected and an invocation of one may be queued, for a queue that another thread executes.
\<close>

theorem qt_slot_outlives_receiver:
  "\<exists>(w :: (nat, nat) qt_world) h c.
     qt_reach {0} w \<and> sw_enabled (qw_signals w) h \<and> 0 < sw_held (qw_signals w) h \<and>
     sw_config (qw_signals w) h = Some c \<and> cht_func c = F_member 3 5 \<and> 3 \<notin> qw_complete w"
proof -
  let ?sw = "qw_signals qt_demo"
  let ?sw' = "?sw\<lparr>sw_held := (sw_held ?sw)((0, 0) := sw_held ?sw (0, 0) + 1)\<rparr>"
  let ?w = "receiver_destroyed 3 (qt_demo\<lparr>qw_signals := ?sw'\<rparr>)"
  have "client_step (?sw, []) (?sw', [])"
    by (rule client_step.queue_invocation[of _ _ "[(0, 0)]"]) (simp_all add: qt_demo_def connection_demo_simps)
  then have "careful_step (?sw, []) (?sw', [])" by (rule careful_stepI) simp
  then have 1: "qt_step qt_demo (qt_demo\<lparr>qw_signals := ?sw'\<rparr>)" by (rule qt_step.environment)
  have 2: "qt_step (qt_demo\<lparr>qw_signals := ?sw'\<rparr>) ?w" by (rule qt_step.destroy_receiver) (simp add: qt_demo_def)
  have "qt_reach {0} ?w" by (rule rtranclp.rtrancl_into_rtrancl[OF rtranclp.rtrancl_into_rtrancl[OF qt_demo_reach 1] 2])
  then show ?thesis
    by (intro exI[of _ ?w] exI[of _ "(0, 0)"]) (simp add: receiver_destroyed_def qt_demo_def connection_demo_simps)
qed

end
