(* ===== verification/Qt_Executors.thy ===== *)
theory Qt_Executors
  imports Executor Thread_Utils
begin

text \<open>
  The two executors of the Qt backend: \<open>ThreadProxy\<close> (\<open>src/qt5/qt5_serial_queue.cpp\<close>), which posts operations as events to an
  object in a \<open>QThread\<close>, and \<open>ThreadPoolProxy\<close> (\<open>src/qt5/qt5_threadpool.cpp\<close>), which starts them as runnables of a
  \<open>QThreadPool\<close>.

  Qt is not part of the sources. Which event the loop of the thread delivers is chosen by the environment; that Qt delivers the
  events of one object in the order in which they were posted, and that \<open>registerEventType\<close> returns a type nobody else uses, are the
  hypotheses \<open>tpx_qt_order\<close>. What the thread pool does is the record \<open>qthreadpool\<close> with the documented behaviour \<open>qthreadpool_documented\<close>.
\<close>

section \<open>The proxy of a thread\<close>

text \<open>\<open>ExecuteOperationEvent\<close> with its type and its operation, or an event of somebody else.\<close>

datatype 'o qt_event = Execute_operation_event int 'o | Other_event int

fun event_type :: "'o qt_event \<Rightarrow> int" where
  "event_type (Execute_operation_event t work) = t"
| "event_type (Other_event t) = t"

record 'o thread_proxy =
  tpx_type :: int
  tpx_events :: "'o qt_event list"
  tpx_submitted :: "'o list"
  tpx_started :: "'o list"
  tpx_bad_cast :: bool

definition thread_proxy_new :: "int \<Rightarrow> 'o thread_proxy" where
  "thread_proxy_new type = \<lparr>tpx_type = type, tpx_events = [], tpx_submitted = [], tpx_started = [], tpx_bad_cast = False\<rparr>"

definition thread_proxy_execute :: "'o \<Rightarrow> queue_priority \<Rightarrow> 'o thread_proxy \<Rightarrow> 'o thread_proxy" where
  "thread_proxy_execute work priority m =
     m\<lparr>tpx_events := tpx_events m @ [Execute_operation_event (tpx_type m) work], tpx_submitted := tpx_submitted m @ [work]\<rparr>"

text \<open>The cast is unchecked: an event of the same type that is not an \<open>ExecuteOperationEvent\<close> sets \<open>tpx_bad_cast\<close>.\<close>

definition thread_proxy_custom_event :: "'o qt_event \<Rightarrow> 'o thread_proxy \<Rightarrow> 'o thread_proxy" where
  "thread_proxy_custom_event e m =
     (if tpx_type m = event_type e then
        (case e of
           Execute_operation_event t work \<Rightarrow> m\<lparr>tpx_started := tpx_started m @ [work]\<rparr>
         | Other_event t \<Rightarrow> m\<lparr>tpx_bad_cast := True\<rparr>)
      else m)"

definition thread_proxy_notify_thread_blocked :: "'o thread_proxy \<Rightarrow> 'o thread_proxy" where
  "thread_proxy_notify_thread_blocked m = m"

definition thread_proxy_notify_thread_unblocked :: "'o thread_proxy \<Rightarrow> 'o thread_proxy" where
  "thread_proxy_notify_thread_unblocked m = m"

datatype 'o tpx_event =
  TX_execute 'o queue_priority
| TX_blocked
| TX_unblocked
| TX_post int
| TX_deliver nat

fun tpx_step :: "'o thread_proxy \<Rightarrow> 'o tpx_event \<Rightarrow> 'o thread_proxy option" where
  "tpx_step m (TX_execute work p) = Some (thread_proxy_execute work p m)"
| "tpx_step m TX_blocked = Some (thread_proxy_notify_thread_blocked m)"
| "tpx_step m TX_unblocked = Some (thread_proxy_notify_thread_unblocked m)"
| "tpx_step m (TX_post t) = Some (m\<lparr>tpx_events := tpx_events m @ [Other_event t]\<rparr>)"
| "tpx_step m (TX_deliver k) =
     (if k < length (tpx_events m)
      then Some (thread_proxy_custom_event (tpx_events m ! k)
             (m\<lparr>tpx_events := take k (tpx_events m) @ drop (Suc k) (tpx_events m)\<rparr>))
      else None)"

definition tpx_qt_order :: "int \<Rightarrow> 'o tpx_event \<Rightarrow> bool" where
  "tpx_qt_order type e \<longleftrightarrow> (case e of TX_deliver k \<Rightarrow> k = 0 | TX_post t \<Rightarrow> t \<noteq> type | _ \<Rightarrow> True)"

section \<open>The proxy of a thread pool\<close>

text \<open>
  The functions of \<open>QThreadPool\<close>: the number of reserved threads after \<open>reserveThread\<close> and \<open>releaseThread\<close>, whether a further runnable may
  be started given the number of running ones, of reserved threads and \<open>maxThreadCount\<close>, which of the waiting runnables (with their
  priorities) is next, and whether \<open>waitForDone\<close> returns. As documented, running and reserved threads count against the
  maximum, but the pool always uses at least one thread, also if the maximum is not positive or all threads are reserved.
\<close>

record qthreadpool =
  qtp_reserveThread :: "int \<Rightarrow> int"
  qtp_releaseThread :: "int \<Rightarrow> int"
  qtp_may_start :: "nat \<Rightarrow> int \<Rightarrow> int \<Rightarrow> bool"
  qtp_next :: "int list \<Rightarrow> nat"
  qtp_done :: "int \<Rightarrow> nat \<Rightarrow> bool"

definition qthreadpool_documented :: "qthreadpool \<Rightarrow> bool" where
  "qthreadpool_documented api \<longleftrightarrow>
     (\<forall>n. qtp_reserveThread api n = n + 1 \<and> qtp_releaseThread api n = n - 1) \<and>
     (\<forall>running reserved maximum. qtp_may_start api running reserved maximum \<longleftrightarrow> int running + reserved < maximum \<or> running = 0) \<and>
     (\<forall>active waiting. qtp_done api active waiting \<longleftrightarrow> active = 0 \<and> waiting = 0)"

text \<open>The running operations with the number of block scopes each has open; \<open>qpx_alive\<close> is the guarded pointer \<open>m_pool\<close>.\<close>

record 'o pool_proxy =
  qpx_alive :: bool
  qpx_max :: int
  qpx_reserved :: int
  qpx_waiting :: "('o \<times> int) list"
  qpx_running :: "('o \<times> nat) list"
  qpx_submitted :: "'o list"
  qpx_started :: "'o list"

definition pool_proxy_new :: "int option \<Rightarrow> 'o pool_proxy option" where
  "pool_proxy_new pool =
     (case pool of
        None \<Rightarrow> None
      | Some maximum \<Rightarrow>
          Some \<lparr>qpx_alive = True, qpx_max = maximum, qpx_reserved = 0, qpx_waiting = [], qpx_running = [],
                qpx_submitted = [], qpx_started = []\<rparr>)"

definition pool_proxy_execute :: "'o \<Rightarrow> queue_priority \<Rightarrow> 'o pool_proxy \<Rightarrow> 'o pool_proxy option" where
  "pool_proxy_execute work priority m =
     (if qpx_alive m
      then Some (m\<lparr>qpx_waiting := qpx_waiting m @ [(work, qt5_runnable_priority priority)], qpx_submitted := qpx_submitted m @ [work]\<rparr>)
      else None)"

definition pool_proxy_notify_thread_blocked :: "qthreadpool \<Rightarrow> 'o pool_proxy \<Rightarrow> 'o pool_proxy option" where
  "pool_proxy_notify_thread_blocked api m =
     (if qpx_alive m then Some (m\<lparr>qpx_reserved := qtp_reserveThread api (qpx_reserved m)\<rparr>) else None)"

definition pool_proxy_notify_thread_unblocked :: "qthreadpool \<Rightarrow> 'o pool_proxy \<Rightarrow> 'o pool_proxy option" where
  "pool_proxy_notify_thread_unblocked api m =
     (if qpx_alive m then Some (m\<lparr>qpx_reserved := qtp_releaseThread api (qpx_reserved m)\<rparr>) else None)"

definition active_thread_count :: "'o pool_proxy \<Rightarrow> int" where
  "active_thread_count m = int (length (qpx_running m)) + qpx_reserved m"

text \<open>The destructor; \<open>None\<close> while \<open>waitForDone\<close> blocks.\<close>

definition pool_proxy_destroy :: "qthreadpool \<Rightarrow> 'o pool_proxy \<Rightarrow> 'o pool_proxy option" where
  "pool_proxy_destroy api m =
     (if \<not> qpx_alive m \<or> qtp_done api (active_thread_count m) (length (qpx_waiting m)) then Some m else None)"

text \<open>\<open>PX_block i\<close> and \<open>PX_unblock i\<close>: the \<open>i\<close>-th running operation opens and closes a block scope.\<close>

datatype 'o qpx_event = PX_execute 'o queue_priority | PX_begin | PX_block nat | PX_unblock nat | PX_end nat

fun qpx_step :: "qthreadpool \<Rightarrow> 'o pool_proxy \<Rightarrow> 'o qpx_event \<Rightarrow> 'o pool_proxy option" where
  "qpx_step api m (PX_execute work p) = pool_proxy_execute work p m"
| "qpx_step api m PX_begin =
     (let k = qtp_next api (map snd (qpx_waiting m))
      in if k < length (qpx_waiting m) \<and> qtp_may_start api (length (qpx_running m)) (qpx_reserved m) (qpx_max m)
         then Some (m\<lparr>qpx_waiting := take k (qpx_waiting m) @ drop (Suc k) (qpx_waiting m),
                      qpx_running := qpx_running m @ [(fst (qpx_waiting m ! k), 0)],
                      qpx_started := qpx_started m @ [fst (qpx_waiting m ! k)]\<rparr>)
         else None)"
| "qpx_step api m (PX_block i) =
     (if i < length (qpx_running m)
      then pool_proxy_notify_thread_blocked api
             (m\<lparr>qpx_running := (qpx_running m)[i := (fst (qpx_running m ! i), snd (qpx_running m ! i) + 1)]\<rparr>)
      else None)"
| "qpx_step api m (PX_unblock i) =
     (if i < length (qpx_running m) \<and> 0 < snd (qpx_running m ! i)
      then pool_proxy_notify_thread_unblocked api
             (m\<lparr>qpx_running := (qpx_running m)[i := (fst (qpx_running m ! i), snd (qpx_running m ! i) - 1)]\<rparr>)
      else None)"
| "qpx_step api m (PX_end i) =
     (if i < length (qpx_running m) \<and> snd (qpx_running m ! i) = 0
      then Some (m\<lparr>qpx_running := take i (qpx_running m) @ drop (Suc i) (qpx_running m)\<rparr>)
      else None)"

section \<open>Lemmas\<close>

text \<open>The operations among the events of the proxy.\<close>

fun event_work :: "'o qt_event list \<Rightarrow> 'o list" where
  "event_work [] = []"
| "event_work (Execute_operation_event t work # es) = work # event_work es"
| "event_work (Other_event t # es) = event_work es"

lemma event_work_append [simp]: "event_work (xs @ ys) = event_work xs @ event_work ys"
  by (induction xs rule: event_work.induct) simp_all

definition tpx_ok :: "int \<Rightarrow> 'o thread_proxy \<Rightarrow> bool" where
  "tpx_ok type m \<longleftrightarrow>
     tpx_type m = type \<and> \<not> tpx_bad_cast m \<and> tpx_submitted m = tpx_started m @ event_work (tpx_events m) \<and>
     (\<forall>e \<in> set (tpx_events m). case e of Execute_operation_event t work \<Rightarrow> t = type | Other_event t \<Rightarrow> t \<noteq> type)"

lemma tpx_ok_step:
  assumes "tpx_ok type m" and "tpx_qt_order type e" and "tpx_step m e = Some m'"
  shows "tpx_ok type m'"
proof (cases e)
  case (TX_deliver k)
  then obtain x es where es: "tpx_events m = x # es" and m': "m' = thread_proxy_custom_event x (m\<lparr>tpx_events := es\<rparr>)"
    using assms(2,3) by (cases "tpx_events m") (auto simp: tpx_qt_order_def split: if_splits)
  then show ?thesis using assms(1)
    by (cases x) (auto simp: tpx_ok_def thread_proxy_custom_event_def)
qed (use assms in \<open>auto simp: tpx_ok_def tpx_qt_order_def thread_proxy_execute_def thread_proxy_notify_thread_blocked_def
        thread_proxy_notify_thread_unblocked_def\<close>)

interpretation tpx_invariant: step_invariant tpx_step "tpx_qt_order type" "tpx_ok type" for type
  by unfold_locales (rule tpx_ok_step)

lemma tpx_reach_ok: "reach tpx_step (tpx_qt_order type) (thread_proxy_new type) m \<Longrightarrow> tpx_ok type m"
  by (erule tpx_invariant.reach_inv) (simp add: tpx_ok_def thread_proxy_new_def)

abbreviation tpx_good :: "'o thread_proxy \<Rightarrow> bool" where
  "tpx_good m \<equiv> \<exists>type. reach tpx_step (tpx_qt_order type) (thread_proxy_new type) m"

interpretation tpx_executor: ordered_executor tpx_good tpx_submitted "\<lambda>m. event_work (tpx_events m)" tpx_started
  by unfold_locales (auto dest!: tpx_reach_ok simp: tpx_ok_def)

definition qpx_init :: "int \<Rightarrow> 'o pool_proxy" where
  "qpx_init maximum = the (pool_proxy_new (Some maximum))"

definition open_scopes :: "'o pool_proxy \<Rightarrow> int" where
  "open_scopes m = tsum (\<lambda>r. int (snd r)) (qpx_running m)"

definition qpx_ok :: "'o pool_proxy \<Rightarrow> bool" where
  "qpx_ok m \<longleftrightarrow> mset (qpx_submitted m) = mset (map fst (qpx_waiting m)) + mset (qpx_started m)"

lemma mset_take_drop: "k < length xs \<Longrightarrow> mset xs = add_mset (xs ! k) (mset (take k xs @ drop (Suc k) xs))"
  by (metis append_take_drop_id Cons_nth_drop_Suc mset.simps(2) mset_append union_mset_add_mset_right)

lemma qpx_ok_step: "qpx_ok m \<Longrightarrow> qpx_step api m e = Some m' \<Longrightarrow> qpx_ok m'"
proof (cases e)
  case PX_begin
  let ?k = "qtp_next api (map snd (qpx_waiting m))"
  assume "qpx_ok m" "qpx_step api m e = Some m'"
  with PX_begin mset_take_drop[of ?k "map fst (qpx_waiting m)"] show ?thesis
    by (auto simp: qpx_ok_def Let_def take_map drop_map split: if_splits)
qed (auto simp: qpx_ok_def pool_proxy_execute_def pool_proxy_notify_thread_blocked_def pool_proxy_notify_thread_unblocked_def
      split: if_splits)

interpretation qpx_invariant: step_invariant "qpx_step api" ok qpx_ok for api ok
  by unfold_locales (rule qpx_ok_step)

abbreviation qpx_good :: "'o pool_proxy \<Rightarrow> bool" where
  "qpx_good m \<equiv> \<exists>api maximum. reach (qpx_step api) (\<lambda>_. True) (qpx_init maximum) m"

lemma qpx_reach_ok: "reach (qpx_step api) ok (qpx_init maximum) m \<Longrightarrow> qpx_ok m"
  by (erule qpx_invariant.reach_inv) (simp add: qpx_ok_def qpx_init_def pool_proxy_new_def)

interpretation qpx_executor: executor qpx_good qpx_submitted "\<lambda>m. map fst (qpx_waiting m)" qpx_started
  by unfold_locales (auto dest!: qpx_reach_ok simp: qpx_ok_def)

lemma tsum_remove:
  assumes "i < length rs"
  shows "tsum w (take i rs @ drop (Suc i) rs) = tsum w rs - w (rs ! i)"
  by (subst (3) id_take_nth_drop[OF assms]) (simp add: tsum_def)

lemma tsum_snoc: "tsum w (xs @ [x]) = tsum w xs + w x"
  by (simp add: tsum_def)

text \<open>Every open block scope has reserved a thread.\<close>

definition qpx_reserve_ok :: "'o pool_proxy \<Rightarrow> bool" where
  "qpx_reserve_ok m \<longleftrightarrow> qpx_alive m \<and> qpx_reserved m = open_scopes m"

lemma qpx_reserve_ok_step:
  assumes "qthreadpool_documented api" "qpx_reserve_ok m" "qpx_step api m e = Some m'"
  shows "qpx_reserve_ok m' \<and> qpx_max m' = qpx_max m"
  using assms
  by (cases e) (auto simp: qpx_reserve_ok_def open_scopes_def qthreadpool_documented_def pool_proxy_execute_def Let_def tsum_remove
      tsum_snoc
      pool_proxy_notify_thread_blocked_def pool_proxy_notify_thread_unblocked_def of_nat_diff split: if_splits)

lemma length_le_open_scopes: "\<forall>r \<in> set (qpx_running m). 0 < snd r \<Longrightarrow> int (length (qpx_running m)) \<le> open_scopes m"
proof -
  have "\<forall>r \<in> set rs. 0 < snd r \<Longrightarrow> int (length rs) \<le> tsum (\<lambda>r. int (snd r)) rs" for rs :: "('b \<times> nat) list"
    by (induction rs) auto
  then show "\<forall>r \<in> set (qpx_running m). 0 < snd r \<Longrightarrow> int (length (qpx_running m)) \<le> open_scopes m"
    by (simp add: open_scopes_def)
qed

interpretation qpx_reserve: step_invariant "qpx_step api" ok "\<lambda>m. qthreadpool_documented api \<and> qpx_reserve_ok m \<and> qpx_max m = maximum"
  for api ok maximum
  by unfold_locales (auto dest: qpx_reserve_ok_step)

lemma qpx_reach_reserve:
  assumes "qthreadpool_documented api" and "reach (qpx_step api) ok (qpx_init maximum) m"
  shows "qpx_reserve_ok m" and "qpx_max m = maximum"
  using qpx_reserve.reach_inv[OF assms(2), of maximum] assms(1)
  by (auto simp: qpx_reserve_ok_def qpx_init_def pool_proxy_new_def open_scopes_def)

section \<open>Properties\<close>

text \<open>
  C34. A serial queue on a \<open>QThread\<close>: operations are executed in the order in which they were posted, each once, whatever other
  events the object receives in between; no foreign event is taken for an operation.
\<close>

theorem qt_thread_fifo:
  assumes "reach tpx_step (tpx_qt_order type) (thread_proxy_new type) m"
  shows "tpx_submitted m = tpx_started m @ event_work (tpx_events m) \<and> \<not> tpx_bad_cast m \<and>
     (distinct (tpx_submitted m) \<longrightarrow> distinct (tpx_started m) \<and> set (tpx_started m) \<inter> set (event_work (tpx_events m)) = {})"
proof -
  have g: "tpx_good m" using assms by blast
  show ?thesis
    using tpx_executor.in_order[OF g] tpx_executor.started_once[OF g] tpx_reach_ok[OF assms] by (simp add: tpx_ok_def)
qed

theorem qt_thread_fifo_witness:
  "tpx_submitted \<lparr>tpx_type = 1001, tpx_events = [Other_event 5, Execute_operation_event 1001 (8 :: nat)], tpx_submitted = [7, 8],
       tpx_started = [7], tpx_bad_cast = False\<rparr> = [7] @ [8]"
proof -
  have "reach tpx_step (tpx_qt_order 1001) (thread_proxy_new 1001)
      \<lparr>tpx_type = 1001, tpx_events = [Other_event 5, Execute_operation_event 1001 (8 :: nat)], tpx_submitted = [7, 8],
       tpx_started = [7], tpx_bad_cast = False\<rparr>"
    by (rule reach_run[where es = "[TX_execute 7 UTILITY, TX_post 5, TX_execute 8 UTILITY, TX_deliver 0]"])
       (simp_all add: thread_proxy_new_def thread_proxy_execute_def thread_proxy_custom_event_def tpx_qt_order_def)
  from conjunct1[OF qt_thread_fifo[OF this]] show ?thesis by simp
qed

text \<open>
  A parallel queue on a \<open>QThreadPool\<close>: whichever runnable the pool takes next and however many it runs at once, what was handed over
  waits or was started, exactly once.
\<close>

theorem qt_pool_exactly_once:
  assumes "reach (qpx_step api) (\<lambda>_. True) (qpx_init maximum) m"
  shows "mset (qpx_submitted m) = mset (map fst (qpx_waiting m)) + mset (qpx_started m) \<and>
     (distinct (qpx_submitted m) \<longrightarrow> distinct (qpx_started m) \<and> set (qpx_started m) \<inter> set (map fst (qpx_waiting m)) = {})"
proof -
  have g: "qpx_good m" using assms by blast
  show ?thesis using qpx_executor.conserved[OF g] qpx_executor.started_once[OF g] by blast
qed

definition qthreadpool_demo :: qthreadpool where
  "qthreadpool_demo = \<lparr>qtp_reserveThread = (\<lambda>n. n + 1), qtp_releaseThread = (\<lambda>n. n - 1), qtp_may_start = (\<lambda>r v m. int r + v < m \<or> r = 0),
     qtp_next = (\<lambda>ps. 0), qtp_done = (\<lambda>a w. a = 0 \<and> w = 0)\<rparr>"

definition qpx_demo :: "nat pool_proxy" where
  "qpx_demo = \<lparr>qpx_alive = True, qpx_max = 2, qpx_reserved = 1, qpx_waiting = [(8, 100)], qpx_running = [(7, 1)],
     qpx_submitted = [7, 8], qpx_started = [7]\<rparr>"

lemma qpx_demo_reach: "reach (qpx_step qthreadpool_demo) (\<lambda>_. True) (qpx_init 2) qpx_demo"
  by (rule reach_run[where es = "[PX_execute 7 UTILITY, PX_begin, PX_execute 8 USER_INTERACTIVE, PX_block 0]"])
     (simp_all add: qpx_init_def pool_proxy_new_def pool_proxy_execute_def qthreadpool_demo_def qt5_runnable_priority_def
        active_thread_count_def pool_proxy_notify_thread_blocked_def qpx_demo_def)

theorem qt_pool_exactly_once_witness: "mset (qpx_submitted qpx_demo) = {#8#} + {#7#}"
  using qt_pool_exactly_once[OF qpx_demo_reach] by (simp add: qpx_demo_def)

text \<open>
  C35. A blocked operation does not give its thread back, it takes a second one: with the documented behaviour of \<open>QThreadPool\<close>, whatever the
  maximum, the pool starts an operation only if nothing runs, or if the running operations and their open block scopes together are
  fewer than the maximum. So an operation that blocks in a pool of one thread, or any number of them that reach half of the maximum,
  keep every further operation from starting. The interface asks for the opposite, that the pool may spawn a further thread for each
  blocked one.
\<close>

theorem qt_blocked_thread_takes_two:
  assumes "qthreadpool_documented api" and "reach (qpx_step api) ok (qpx_init maximum) m"
  shows "(qpx_step api m PX_begin = Some m' \<longrightarrow> qpx_running m = [] \<or> int (length (qpx_running m)) + open_scopes m < maximum) \<and>
     (qpx_running m \<noteq> [] \<and> (\<forall>r \<in> set (qpx_running m). 0 < snd r) \<and> maximum \<le> 2 * int (length (qpx_running m)) \<longrightarrow>
        qpx_step api m PX_begin = None)"
proof
  note r = qpx_reach_reserve[OF assms]
  show "qpx_step api m PX_begin = Some m' \<longrightarrow> qpx_running m = [] \<or> int (length (qpx_running m)) + open_scopes m < maximum"
    using r assms(1) by (auto simp: qthreadpool_documented_def qpx_reserve_ok_def Let_def split: if_splits)
  show "qpx_running m \<noteq> [] \<and> (\<forall>r \<in> set (qpx_running m). 0 < snd r) \<and> maximum \<le> 2 * int (length (qpx_running m)) \<longrightarrow>
        qpx_step api m PX_begin = None"
  proof
    assume a: "qpx_running m \<noteq> [] \<and> (\<forall>r \<in> set (qpx_running m). 0 < snd r) \<and> maximum \<le> 2 * int (length (qpx_running m))"
    then have "int (length (qpx_running m)) \<le> open_scopes m" by (simp add: length_le_open_scopes)
    then show "qpx_step api m PX_begin = None"
      using r assms(1) a by (auto simp: qthreadpool_documented_def qpx_reserve_ok_def Let_def)
  qed
qed

definition qpx_demo2 :: "nat pool_proxy" where
  "qpx_demo2 = qpx_demo\<lparr>qpx_reserved := 0, qpx_running := [(7, 0)]\<rparr>"

lemma qpx_demo2_reach: "reach (qpx_step qthreadpool_demo) (\<lambda>_. True) (qpx_init 2) qpx_demo2"
  by (rule reach_run[where es = "[PX_execute 7 UTILITY, PX_begin, PX_execute 8 USER_INTERACTIVE]"])
     (simp_all add: qpx_init_def pool_proxy_new_def pool_proxy_execute_def qthreadpool_demo_def qt5_runnable_priority_def
        active_thread_count_def qpx_demo2_def qpx_demo_def)

text \<open>The same program: before the block scope the second operation can begin, inside of it not any more.\<close>

theorem qt_blocked_thread_takes_two_witness:
  "int (length (qpx_running qpx_demo2)) + open_scopes qpx_demo2 < 2 \<and>
   qpx_step qthreadpool_demo qpx_demo2 (PX_block 0) = Some qpx_demo \<and> qpx_step qthreadpool_demo qpx_demo PX_begin = None"
proof -
  have d: "qthreadpool_documented qthreadpool_demo" by (simp add: qthreadpool_documented_def qthreadpool_demo_def)
  have "qpx_step qthreadpool_demo qpx_demo2 PX_begin \<noteq> None"
    by (simp add: qthreadpool_demo_def qpx_demo2_def qpx_demo_def active_thread_count_def Let_def)
  then obtain m' where "qpx_step qthreadpool_demo qpx_demo2 PX_begin = Some m'" by blast
  from qt_blocked_thread_takes_two[OF d qpx_demo2_reach, THEN conjunct1, rule_format, OF this]
    qt_blocked_thread_takes_two[OF d qpx_demo_reach, THEN conjunct2] show ?thesis
    by (simp add: qthreadpool_demo_def qpx_demo2_def qpx_demo_def active_thread_count_def pool_proxy_notify_thread_blocked_def Let_def)
qed

text \<open>
  The destructor of the proxy waits for all operations of the pool. It never returns when the last reference to the queue is dropped by
  an operation that the pool itself executes: as long as one runs \<open>waitForDone\<close> blocks.
\<close>

theorem qt_pool_destructor_waits:
  assumes "qthreadpool_documented api" and "reach (qpx_step api) ok (qpx_init maximum) m"
  shows "pool_proxy_destroy api m = Some m \<longleftrightarrow> qpx_running m = [] \<and> qpx_waiting m = []"
proof -
  have "0 \<le> open_scopes m" unfolding open_scopes_def by (rule tsum_nonneg) simp
  moreover have "qpx_running m = [] \<Longrightarrow> open_scopes m = 0" by (simp add: open_scopes_def)
  ultimately show ?thesis
    using qpx_reach_reserve(1)[OF assms] assms(1)
    by (cases "qpx_running m") (auto simp: pool_proxy_destroy_def qpx_reserve_ok_def active_thread_count_def qthreadpool_documented_def)
qed

theorem qt_pool_destructor_waits_witness: "pool_proxy_destroy qthreadpool_demo qpx_demo \<noteq> Some qpx_demo"
proof -
  have d: "qthreadpool_documented qthreadpool_demo" by (simp add: qthreadpool_documented_def qthreadpool_demo_def)
  show ?thesis using qt_pool_destructor_waits[OF d qpx_demo_reach] by (simp add: qpx_demo_def)
qed

end
