(* ===== verification/Serial_Composition.thy ===== *)
theory Serial_Composition
  imports Operation_Queue Threadpool Qt_Executors
begin

text \<open>
  Operation queues and the executor that they were given: a queue (theory \<open>Operation_Queue\<close>) hands its wake-ups over with
  \<open>m_threadpool->execute (m_notify_operation, m_priority)\<close> (\<open>src/naive/naive_operation_queue.cpp\<close>), the executor starts them, and each start
  is one \<open>drain\<close> (\<open>m_notify_operation\<close> is \<open>make_operation (this, &operation_queue::drain)\<close>). In theory \<open>Operation_Queue\<close> the
  wake-ups of a queue are its own list \<open>oq_pool\<close>; here they are operations of the executor, labelled with the queue, and the theorem is that
  the two agree, so that every property of a single queue holds for each of the queues.

  Two compositions of the program: all serial queues of the naive backend share its global pool (\<open>backend::create_serial_queue\<close>,
  \<open>src/naive/naive_serial_queue.cpp\<close>), which also executes other operations; a serial queue of the Qt backend has a \<open>ThreadProxy\<close> of
  its own (\<open>create_serial_queue\<close>, \<open>src/qt5/qt5_serial_queue.cpp\<close>). The caller of \<open>execute\<close> does not wait for its return here, so
  the model has more executions than the code.
\<close>

section \<open>The model\<close>

type_synonym ('s, 'j) composed = "'s \<times> 'j oq_sys list"

text \<open>
  \<open>CE_queue i t e k\<close>: thread \<open>t\<close> of queue \<open>i\<close> takes the event \<open>e\<close>, and calls \<open>execute\<close> as the caller \<open>k\<close> of the executor.
  \<open>CE_executor a u\<close>: the executor takes a step of its own; a wake-up that it starts is executed by thread \<open>u\<close> of the queue.
\<close>

datatype ('x, 'k, 'j) composed_event = CE_queue nat tid "'j oq_event" 'k | CE_executor 'x tid

text \<open>The wake-ups that a step of the queue has added.\<close>

definition new_wakeups :: "'j oq_sys \<Rightarrow> 'j oq_sys \<Rightarrow> queue_priority list" where
  "new_wakeups s s' = drop (length (oq_pool (fst s))) (oq_pool (fst s'))"

fun submit_all :: "('s \<Rightarrow> 'x \<Rightarrow> 's option) \<Rightarrow> ('k \<Rightarrow> nat \<Rightarrow> queue_priority \<Rightarrow> 'x) \<Rightarrow> 'k \<Rightarrow> nat \<Rightarrow> 's \<Rightarrow> queue_priority list \<Rightarrow> 's option" where
  "submit_all step execute k i x [] = Some x"
| "submit_all step execute k i x (p # ps) =
     (case step x (execute k i p) of None \<Rightarrow> None | Some y \<Rightarrow> submit_all step execute k i y ps)"

fun start_all :: "tid \<Rightarrow> nat list \<Rightarrow> 'j oq_sys list \<Rightarrow> 'j oq_sys list option" where
  "start_all u [] Q = Some Q"
| "start_all u (i # js) Q =
     (if i < length Q
      then case oq_step (Q ! i) (u, OE_drain) of None \<Rightarrow> None | Some s \<Rightarrow> start_all u js (Q[i := s])
      else None)"

text \<open>\<open>own\<close>: what the executor does by itself and for others; \<open>started\<close>: the wake-ups that it has started so far.\<close>

fun composed_step ::
  "('s \<Rightarrow> 'x \<Rightarrow> 's option) \<Rightarrow> ('k \<Rightarrow> nat \<Rightarrow> queue_priority \<Rightarrow> 'x) \<Rightarrow> ('x \<Rightarrow> bool) \<Rightarrow> ('s \<Rightarrow> nat list) \<Rightarrow>
   ('s, 'j) composed \<Rightarrow> ('x, 'k, 'j) composed_event \<Rightarrow> ('s, 'j) composed option"
where
  "composed_step step execute own started (x, Q) (CE_queue i t e k) =
     (if i < length Q \<and> e \<noteq> OE_drain
      then case oq_step (Q ! i) (t, e) of
             None \<Rightarrow> None
           | Some s \<Rightarrow>
               (case submit_all step execute k i x (new_wakeups (Q ! i) s) of None \<Rightarrow> None | Some y \<Rightarrow> Some (y, Q[i := s]))
      else None)"
| "composed_step step execute own started (x, Q) (CE_executor a u) =
     (if own a
      then case step x a of
             None \<Rightarrow> None
           | Some y \<Rightarrow>
               (case start_all u (drop (length (started x)) (started y)) Q of None \<Rightarrow> None | Some Q' \<Rightarrow> Some (y, Q'))
      else None)"

definition composed_init :: "'s \<Rightarrow> (string \<times> queue_priority) list \<Rightarrow> nat \<Rightarrow> ('s, 'j) composed" where
  "composed_init x specs n = (x, map (\<lambda>(label, priority). oq_init label priority n) specs)"

definition composed_no_throw :: "('x, 'k, 'j) composed_event \<Rightarrow> bool" where
  "composed_no_throw ev \<longleftrightarrow> (\<forall>i t k. ev \<noteq> CE_queue i t OE_throw k)"

section \<open>The wake-ups of one queue\<close>

lemma oq_ops_pool:
  "\<exists>ps. oq_pool (notify_unsafe q) = oq_pool q @ ps" "\<exists>ps. oq_pool (oq_body c q) = oq_pool q @ ps"
  "oq_pool (oq_returned c q) = oq_pool q"
  by (auto simp: notify_unsafe_def) (cases c; simp add: async_unsafe_def oq_detach_def notify_unsafe_def Let_def)+

lemma oq_local_pool:
  assumes "oq_local t e q pc = Some (q', pc')" and "e \<noteq> OE_drain"
  shows "\<exists>ps. oq_pool q' = oq_pool q @ ps"
  using assms(1)
proof (cases rule: oq_local_cases)
  case (call c k)
  then show ?thesis by (cases c) (auto split: if_splits)
next
  case exec
  then show ?thesis using oq_ops_pool(1)[of q] oq_ops_pool(2)[where q = q] oq_ops_pool(3)[where q = q]
    by (cases pc) (auto simp: deferred_pop_def split: if_splits list.splits option.splits oq_job.splits)
qed (use assms(2) in auto)

lemma oq_step_pool:
  assumes "oq_step s (t, e) = Some s'" and "e \<noteq> OE_drain"
  shows "oq_pool (fst s') = oq_pool (fst s) @ new_wakeups s s'"
  using assms(1)
proof (rule sys_step_Some)
  fix q ts t' e' q' pc'
  assume *: "s = (q, ts)" "(t, e) = (t', e')" "oq_local t' e' q (ts ! t') = Some (q', pc')" "s' = (q', ts[t' := pc'])"
  then obtain ps where "oq_pool q' = oq_pool q @ ps" using oq_local_pool assms(2) by blast
  then show ?thesis using * by (simp add: new_wakeups_def)
qed

lemma oq_drain_pool:
  assumes "oq_step s (t, OE_drain) = Some s'"
  shows "length (oq_pool (fst s)) = Suc (length (oq_pool (fst s')))"
  using assms
proof (rule sys_step_Some)
  fix q ts t' e' q' pc'
  assume *: "s = (q, ts)" "(t, OE_drain) = (t', e')" "oq_local t' e' q (ts ! t') = Some (q', pc')" "s' = (q', ts[t' := pc'])"
  then have "oq_local t OE_drain q (ts ! t) = Some (q', pc')" by simp
  then show ?thesis using * by (cases rule: oq_local_cases) auto
qed

lemma oq_reach_snoc:
  "reach oq_step oq_no_throw s0 s \<Longrightarrow> oq_step s (t, e) = Some s' \<Longrightarrow> e \<noteq> OE_throw \<Longrightarrow> reach oq_step oq_no_throw s0 s'"
  using reach_step[of oq_step oq_no_throw s0 s "(t, e)" s'] by (simp add: oq_no_throw_def)

section \<open>The interface of the executor\<close>

text \<open>
  What the composition needs of the executor: a submitted wake-up waits, and whatever the executor does by itself, a wake-up that
  does not wait any more has been started.
\<close>

locale wakeup_executor =
  fixes step :: "'s \<Rightarrow> 'x \<Rightarrow> 's option"
    and execute :: "'k \<Rightarrow> nat \<Rightarrow> queue_priority \<Rightarrow> 'x"
    and own :: "'x \<Rightarrow> bool"
    and started waiting :: "'s \<Rightarrow> nat list"
    and good :: "'s \<Rightarrow> bool"
  assumes submit_good: "good x \<Longrightarrow> step x (execute k i p) = Some y \<Longrightarrow> good y"
    and submit_waits: "good x \<Longrightarrow> step x (execute k i p) = Some y \<Longrightarrow> mset (waiting y) = add_mset i (mset (waiting x))"
    and own_good: "good x \<Longrightarrow> own a \<Longrightarrow> step x a = Some y \<Longrightarrow> good y"
    and own_waits: "good x \<Longrightarrow> own a \<Longrightarrow> step x a = Some y \<Longrightarrow>
      mset (waiting x) = mset (waiting y) + mset (drop (length (started x)) (started y))"
begin

lemma submit_all_waits:
  "submit_all step execute k i x ps = Some y \<Longrightarrow> good x \<Longrightarrow>
     good y \<and> mset (waiting y) = mset (waiting x) + replicate_mset (length ps) i"
proof (induction ps arbitrary: x)
  case (Cons p ps)
  then obtain z where z: "step x (execute k i p) = Some z" "submit_all step execute k i z ps = Some y" by (auto split: option.splits)
  show ?case using Cons.IH[OF z(2) submit_good[OF Cons.prems(2) z(1)]] submit_waits[OF Cons.prems(2) z(1)] by simp
qed simp

definition queues_ok :: "(string \<times> queue_priority) list \<Rightarrow> nat \<Rightarrow> nat multiset \<Rightarrow> 'j oq_sys list \<Rightarrow> bool" where
  "queues_ok specs n W Q \<longleftrightarrow> length Q = length specs \<and>
     (\<forall>i < length Q. reach oq_step oq_no_throw (oq_init (fst (specs ! i)) (snd (specs ! i)) n) (Q ! i) \<and>
        count W i = length (oq_pool (fst (Q ! i))))"

lemma start_all_ok:
  "start_all u js Q = Some Q' \<Longrightarrow> queues_ok specs n (W + mset js) Q \<Longrightarrow> queues_ok specs n W Q'"
proof (induction js arbitrary: Q)
  case (Cons i js)
  then obtain s where i: "i < length Q" "oq_step (Q ! i) (u, OE_drain) = Some s" "start_all u js (Q[i := s]) = Some Q'"
    by (auto split: if_splits option.splits)
  have "reach oq_step oq_no_throw (oq_init (fst (specs ! i)) (snd (specs ! i)) n) s"
    using Cons.prems(2) i(1) by (intro oq_reach_snoc[OF _ i(2)]) (auto simp: queues_ok_def)
  then have "queues_ok specs n (W + mset js) (Q[i := s])"
    using Cons.prems(2) i oq_drain_pool[OF i(2)] by (auto simp: queues_ok_def nth_list_update split: if_splits)
  then show ?case using Cons.IH i(3) by blast
qed (simp add: queues_ok_def)

definition composed_ok :: "(string \<times> queue_priority) list \<Rightarrow> nat \<Rightarrow> ('s, 'j) composed \<Rightarrow> bool" where
  "composed_ok specs n c \<longleftrightarrow> good (fst c) \<and> queues_ok specs n (mset (waiting (fst c))) (snd c)"

lemma composed_ok_queue:
  assumes "composed_ok specs n (x, Q)" and "i < length Q" and "e \<noteq> OE_drain" and "e \<noteq> OE_throw"
    and "oq_step (Q ! i) (t, e) = Some s" and "submit_all step execute k i x (new_wakeups (Q ! i) s) = Some y"
  shows "composed_ok specs n (y, Q[i := s])"
proof -
  have y: "good y" "mset (waiting y) = mset (waiting x) + replicate_mset (length (new_wakeups (Q ! i) s)) i"
    using submit_all_waits[OF assms(6)] assms(1) by (auto simp: composed_ok_def)
  have "reach oq_step oq_no_throw (oq_init (fst (specs ! i)) (snd (specs ! i)) n) s"
    using assms(1,2,4) by (intro oq_reach_snoc[OF _ assms(5)]) (auto simp: composed_ok_def queues_ok_def)
  then show ?thesis using assms(1,2) y oq_step_pool[OF assms(5,3)]
    by (auto simp: composed_ok_def queues_ok_def nth_list_update split: if_splits)
qed

lemma composed_ok_step:
  assumes "composed_ok specs n c" and "composed_no_throw ev" and "composed_step step execute own started c ev = Some c'"
  shows "composed_ok specs n c'"
proof (cases ev)
  case (CE_queue i t e k)
  obtain x Q where c: "c = (x, Q)" by (cases c)
  then obtain s y where s: "oq_step (Q ! i) (t, e) = Some s" "submit_all step execute k i x (new_wakeups (Q ! i) s) = Some y"
    "i < length Q" "e \<noteq> OE_drain" "c' = (y, Q[i := s])"
    using assms(3) CE_queue by (auto split: if_splits option.splits)
  have "e \<noteq> OE_throw" using assms(2) CE_queue by (auto simp: composed_no_throw_def)
  then show ?thesis using composed_ok_queue[OF assms(1)[unfolded c] s(3,4) _ s(1,2)] s(5) by blast
next
  case (CE_executor a u)
  obtain x Q where c: "c = (x, Q)" by (cases c)
  then obtain y Q' where y: "own a" "step x a = Some y" "start_all u (drop (length (started x)) (started y)) Q = Some Q'" "c' = (y, Q')"
    using assms(3) CE_executor by (auto split: if_splits option.splits)
  have g: "good x" using assms(1) c by (simp add: composed_ok_def)
  have "queues_ok specs n (mset (waiting y)) Q'"
    using start_all_ok[OF y(3)] own_waits[OF g y(1,2)] assms(1) c by (simp add: composed_ok_def)
  then show ?thesis using own_good[OF g y(1,2)] y(4) by (simp add: composed_ok_def)
qed

lemma composed_reach_ok:
  assumes "reach (composed_step step execute own started) composed_no_throw (composed_init x specs n) c"
    and "good x" and "waiting x = []"
  shows "composed_ok specs n c"
  using assms(1)
proof (induction rule: reach.induct)
  case reach_refl
  then show ?case using assms(2,3)
    by (auto simp: composed_ok_def queues_ok_def composed_init_def oq_init_def serial_queue_new_def oq_attach_def operation_queue_new_def
        split: prod.splits)
qed (rule composed_ok_step)

text \<open>Each queue behaves as if it was alone, and its wake-ups are in the executor.\<close>

lemma composed_queue:
  assumes "reach (composed_step step execute own started) composed_no_throw (composed_init x specs n) (y, Q)"
    and "good x" and "waiting x = []" and "i < length Q"
  shows "reach oq_step oq_no_throw (oq_init (fst (specs ! i)) (snd (specs ! i)) n) (Q ! i)"
    and "oq_pool (fst (Q ! i)) \<noteq> [] \<longleftrightarrow> i \<in> set (waiting y)" and "good y"
proof -
  have ok: "composed_ok specs n (y, Q)" using composed_reach_ok[OF assms(1-3)] .
  then show "reach oq_step oq_no_throw (oq_init (fst (specs ! i)) (snd (specs ! i)) n) (Q ! i)" "good y"
    using assms(4) by (simp_all add: composed_ok_def queues_ok_def)
  have "count (mset (waiting y)) i = length (oq_pool (fst (Q ! i)))" using ok assms(4) by (simp add: composed_ok_def queues_ok_def)
  then show "oq_pool (fst (Q ! i)) \<noteq> [] \<longleftrightarrow> i \<in> set (waiting y)"
    by (metis count_greater_zero_iff length_greater_0_conv set_mset_mset)
qed

end

section \<open>The global pool of the naive backend\<close>

text \<open>An operation of the pool is the wake-up of a queue (\<open>Inl\<close>) or one of somebody else (\<open>Inr\<close>).\<close>

fun wakeups :: "(nat + 'o) list \<Rightarrow> nat list" where
  "wakeups [] = []"
| "wakeups (Inl i # xs) = i # wakeups xs"
| "wakeups (Inr a # xs) = wakeups xs"

abbreviation wakeup_mset :: "(nat + 'o) multiset \<Rightarrow> nat multiset" where
  "wakeup_mset M \<equiv> image_mset projl (filter_mset isl M)"

lemma wakeups_append [simp]: "wakeups (xs @ ys) = wakeups xs @ wakeups ys"
  by (induction xs rule: wakeups.induct) simp_all

lemma mset_wakeups: "mset (wakeups xs) = wakeup_mset (mset xs)"
  by (induction xs rule: wakeups.induct) simp_all

lemma wakeups_member: "i \<in> set (wakeups xs) \<longleftrightarrow> Inl i \<in> set xs"
  by (induction xs rule: wakeups.induct) auto

text \<open>The operation of a call of \<open>execute\<close> that has not reached the queue of its priority.\<close>

fun tp_pending :: "'o tp_pc \<Rightarrow> 'o list" where
  "tp_pending (E_enqueue work priority k) = [work]"
| "tp_pending _ = []"

lemma tp_return_pending [simp]: "tp_pending (tp_return k) = []"
  by (cases k) simp_all

abbreviation tp_pending_all :: "'o tp_pc list \<Rightarrow> 'o list" where
  "tp_pending_all ts \<equiv> concat (map tp_pending ts)"

fun tp_wakeups_started :: "(nat + 'o) tp_sys \<Rightarrow> nat list" where
  "tp_wakeups_started (d, ts) = wakeups (tp_started d)"

fun tp_wakeups_waiting :: "(nat + 'o) tp_sys \<Rightarrow> nat list" where
  "tp_wakeups_waiting (d, ts) = wakeups (concat (m_operations d) @ tp_pending_all ts)"

abbreviation tp_execute_wakeup :: "tid \<Rightarrow> nat \<Rightarrow> queue_priority \<Rightarrow> tid \<times> (nat + 'o) tp_event" where
  "tp_execute_wakeup k i p \<equiv> (k, TE_execute (Inl i) p)"

definition tp_own :: "tid \<times> (nat + 'o) tp_event \<Rightarrow> bool" where
  "tp_own ev \<longleftrightarrow> (\<forall>i p. snd ev \<noteq> TE_execute (Inl i) p)"

fun tp_gets :: "'o tp_event \<Rightarrow> 'o list" where
  "tp_gets (TE_execute work p) = [work]"
| "tp_gets _ = []"

lemma tp_exec_flow:
  assumes "tp_exec d pc = Some (d', pc')"
  shows "mset (tp_submitted d') + mset (tp_pending pc') = mset (tp_submitted d) + mset (tp_pending pc) \<and> (\<exists>js. tp_started d' = tp_started d @ js)"
  using bucket_of_range
  by (insert assms, cases pc)
     (auto simp: tp_acquire_def tp_release_def tp_schedule_def tp_abort_def tp_enqueue_def tp_dequeue_def Let_def
        split: if_splits list.splits)

lemma tp_local_flow:
  assumes "tp_local t e d pc = Some (d', pc')"
  shows "mset (tp_submitted d') + mset (tp_pending pc') = mset (tp_submitted d) + mset (tp_pending pc) + mset (tp_gets e) \<and>
     (\<exists>js. tp_started d' = tp_started d @ js)"
proof (cases "e = TE_step")
  case True
  then show ?thesis using assms tp_exec_flow[of d pc d' pc'] by (simp add: tp_local_def split: if_splits)
next
  case False
  then show ?thesis
    by (insert assms, cases e; cases pc) (auto simp: tp_local_def tp_dequeue_def Let_def split: if_splits)
qed

text \<open>What waits in the pool afterwards, and what was started meanwhile, waited or was submitted.\<close>

lemma tp_step_flow:
  assumes "tp_good (d, ts)" and "tp_good (d', ts')" and "tp_step (d, ts) (t, e) = Some (d', ts')"
  obtains js where "tp_started d' = tp_started d @ js"
    and "mset (concat (m_operations d')) + mset (tp_pending_all ts') + mset js =
      mset (concat (m_operations d)) + mset (tp_pending_all ts) + mset (tp_gets e)"
proof -
  obtain pc' where t: "t < length ts" "tp_local t e d (ts ! t) = Some (d', pc')" "ts' = ts[t := pc']"
    using assms(3) unfolding sys_step_iff by blast
  obtain js where js: "tp_started d' = tp_started d @ js"
    "mset (tp_submitted d') + mset (tp_pending pc') = mset (tp_submitted d) + mset (tp_pending (ts ! t)) + mset (tp_gets e)"
    using tp_local_flow[OF t(2)] by blast
  have pending: "mset (tp_pending_all ts') + mset (tp_pending (ts ! t)) = mset (tp_pending_all ts) + mset (tp_pending pc')"
    using mset_concat_update[of t "map tp_pending ts" "tp_pending pc'"] t(1,3) by (simp add: map_update)
  have stored: "mset (tp_submitted d) = mset (concat (m_operations d)) + mset (tp_started d)"
    "mset (tp_submitted d') = mset (concat (m_operations d')) + mset (tp_started d')"
    using tp_executor.conserved[OF assms(1)] tp_executor.conserved[OF assms(2)] by simp_all
  have "mset (concat (m_operations d')) + mset (tp_pending_all ts') + mset js =
      mset (concat (m_operations d)) + mset (tp_pending_all ts) + mset (tp_gets e)" (is "?L = ?R")
  proof (rule multiset_eqI)
    fix x
    show "count ?L x = count ?R x"
      using arg_cong[OF pending, of "\<lambda>M. count M x"] arg_cong[OF stored(1), of "\<lambda>M. count M x"]
        arg_cong[OF stored(2), of "\<lambda>M. count M x"] arg_cong[OF js(2), of "\<lambda>M. count M x"] js(1) by simp
  qed
  then show ?thesis using that js(1) by blast
qed

lemma tp_good_step: "tp_good s \<Longrightarrow> tp_step s ev = Some s' \<Longrightarrow> tp_good s'"
proof -
  assume "tp_good s" and step: "tp_step s ev = Some s'"
  then obtain k clients workers where k: "1 \<le> k \<and> k \<le> 1073741823" and r: "reach tp_step (\<lambda>_. True) (tp_init k clients workers) s" by blast
  have "reach tp_step (\<lambda>_. True) (tp_init k clients workers) s'" by (rule reach.reach_step[OF r _ step]) simp
  then show "tp_good s'" using k by blast
qed

interpretation pool: wakeup_executor tp_step tp_execute_wakeup tp_own tp_wakeups_started tp_wakeups_waiting tp_good
proof
  fix x y :: "(nat + 'o) tp_sys" and k i p
  assume g: "tp_good x" and s: "tp_step x (tp_execute_wakeup k i p) = Some y"
  show g': "tp_good y" using tp_good_step[OF g s] .
  obtain d ts d' ts' where xy: "x = (d, ts)" "y = (d', ts')" by (cases x; cases y)
  obtain js where js: "tp_started d' = tp_started d @ js"
    "mset (concat (m_operations d')) + mset (tp_pending_all ts') + mset js =
      mset (concat (m_operations d)) + mset (tp_pending_all ts) + mset (tp_gets (TE_execute (Inl i) p))"
    by (rule tp_step_flow[OF g[unfolded xy] g'[unfolded xy] s[unfolded xy]])
  have "tp_started d' = tp_started d"
    using s xy by (auto simp: tp_local_def split: if_splits option.splits tp_pc.splits)
  then have "mset (concat (m_operations d') @ tp_pending_all ts') = mset (concat (m_operations d) @ tp_pending_all ts) + {#Inl i#}"
    using js by simp
  then show "mset (tp_wakeups_waiting y) = add_mset i (mset (tp_wakeups_waiting x))"
    unfolding xy tp_wakeups_waiting.simps mset_wakeups by simp
next
  fix x y :: "(nat + 'o) tp_sys" and a
  assume g: "tp_good x" and own: "tp_own a" and s: "tp_step x a = Some y"
  show g': "tp_good y" using tp_good_step[OF g s] .
  obtain d ts d' ts' t e where xy: "x = (d, ts)" "y = (d', ts')" "a = (t, e)" by (cases x; cases y; cases a)
  obtain js where js: "tp_started d' = tp_started d @ js"
    "mset (concat (m_operations d')) + mset (tp_pending_all ts') + mset js =
      mset (concat (m_operations d)) + mset (tp_pending_all ts) + mset (tp_gets e)"
    by (rule tp_step_flow[OF g[unfolded xy] g'[unfolded xy] s[unfolded xy]])
  have "wakeup_mset (mset (tp_gets e)) = {#}" using own xy(3) by (cases e rule: tp_gets.cases; cases "isl (case e of TE_execute w p \<Rightarrow> w)")
      (auto simp: tp_own_def isl_def)
  then have "wakeup_mset (mset (concat (m_operations d') @ tp_pending_all ts')) + wakeup_mset (mset js) =
      wakeup_mset (mset (concat (m_operations d) @ tp_pending_all ts))"
    using arg_cong[OF js(2), of wakeup_mset] by simp
  moreover have "drop (length (tp_wakeups_started x)) (tp_wakeups_started y) = wakeups js" by (simp add: xy js(1))
  ultimately show "mset (tp_wakeups_waiting x) = mset (tp_wakeups_waiting y) + mset (drop (length (tp_wakeups_started x)) (tp_wakeups_started y))"
    by (simp add: xy mset_wakeups del: wakeups_append)
qed

text \<open>A thread that serves what waits: it attends to the pool, or it is inside \<open>execute\<close> before \<open>schedule\<close>.\<close>

definition tp_serves :: "'o threadpool \<Rightarrow> 'o tp_pc \<Rightarrow> bool" where
  "tp_serves d pc \<longleftrightarrow> tp_attends d pc \<or> tp_in R_rel pc \<or> tp_pending pc \<noteq> []"

lemma tp_operation_served:
  assumes "reach tp_step (\<lambda>_. True) (tp_init k clients workers) (d, ts)" and "1 \<le> k \<and> k \<le> 1073741823"
    and "\<not> m_cancelled d" and "\<not> tp_aborted d" and "concat (m_operations d) @ tp_pending_all ts \<noteq> []"
  shows "0 < tp_unborn d \<or> (\<exists>t < length ts. tp_serves d (ts ! t) \<and> tp_step (d, ts) (t, TE_step) \<noteq> None)"
proof (cases "0 < tp_counter d")
  case True
  then show ?thesis using tp_waiting_served[OF assms(1-4)] by (auto simp: tp_serves_def simp del: sys_step.simps)
next
  case False
  have "\<exists>pc \<in> set ts. tp_in R_idle_ticket pc \<or> tp_in R_ticket pc \<or> tp_in R_left_ticket pc \<or> tp_in R_rel pc \<or> tp_pending pc \<noteq> []"
  proof (rule ccontr)
    assume no: "\<not> ?thesis"
    then have "tsum (tp_weight R_idle_ticket) ts + tsum (tp_weight R_ticket) ts + tsum (tp_weight R_left_ticket) ts +
        tsum (tp_weight R_rel) ts = 0"
      unfolding tsum_add[symmetric] by (intro tsum_zero) (auto simp: tp_weight_def)
    moreover have "tp_live_ok (2 * k) d (\<lambda>r. tsum (tp_weight r) ts)" using tp_reach_ok(1)[OF assms(1,2)] assms(3,4) by (simp add: tp_sh_ok_def)
    ultimately have "int (length (concat (m_operations d))) = 0" using False unfolding tp_live_ok_def by linarith
    then have "concat (m_operations d) = []" by (simp only: of_nat_eq_0_iff length_0_conv)
    moreover have "tp_pending_all ts = []" using no by auto
    ultimately show False using assms(5) by simp
  qed
  then obtain t where t: "t < length ts"
    "tp_in R_idle_ticket (ts ! t) \<or> tp_in R_ticket (ts ! t) \<or> tp_in R_left_ticket (ts ! t) \<or> tp_in R_rel (ts ! t) \<or> tp_pending (ts ! t) \<noteq> []"
    by (auto simp: in_set_conv_nth)
  have "tp_local t TE_step d (ts ! t) \<noteq> None"
    using t(2) assms(4) by (cases "ts ! t") (auto simp: tp_local_def tp_release_def tp_abort_def split: list.splits option.splits)
  moreover have "tp_serves d (ts ! t)" using t(2) by (auto simp: tp_serves_def tp_attends_def tp_counted_def)
  ultimately show ?thesis using t(1) unfolding sys_step_enabled by blast
qed

section \<open>The thread of a serial queue of the Qt backend\<close>

abbreviation tpx_execute_wakeup :: "unit \<Rightarrow> nat \<Rightarrow> queue_priority \<Rightarrow> nat tpx_event" where
  "tpx_execute_wakeup k i p \<equiv> TX_execute i p"

text \<open>Events are delivered in their order, foreign ones are posted and delivered in between, threads report that they block.\<close>

definition tpx_own :: "int \<Rightarrow> nat tpx_event \<Rightarrow> bool" where
  "tpx_own type a \<longleftrightarrow> tpx_qt_order type a \<and> (\<forall>i p. a \<noteq> TX_execute i p)"

interpretation qt_thread: wakeup_executor tpx_step tpx_execute_wakeup "tpx_own type" tpx_started "\<lambda>m. event_work (tpx_events m)"
    "tpx_ok type" for type
proof
  fix x y :: "nat thread_proxy" and k i p
  assume g: "tpx_ok type x" and s: "tpx_step x (tpx_execute_wakeup k i p) = Some y"
  show "tpx_ok type y" by (rule tpx_ok_step[OF g _ s]) (simp add: tpx_qt_order_def)
  show "mset (event_work (tpx_events y)) = add_mset i (mset (event_work (tpx_events x)))"
    using s by (auto simp: thread_proxy_execute_def)
next
  fix x y :: "nat thread_proxy" and a
  assume g: "tpx_ok type x" and own: "tpx_own type a" and s: "tpx_step x a = Some y"
  show g': "tpx_ok type y" using tpx_ok_step[OF g _ s] own by (simp add: tpx_own_def)
  obtain js where js: "tpx_started y = tpx_started x @ js" "tpx_submitted y = tpx_submitted x"
    using own s by (cases a) (auto simp: tpx_own_def thread_proxy_custom_event_def thread_proxy_notify_thread_blocked_def
        thread_proxy_notify_thread_unblocked_def split: if_splits qt_event.splits)
  then have "event_work (tpx_events x) = js @ event_work (tpx_events y)" using g g' by (simp add: tpx_ok_def)
  then show "mset (event_work (tpx_events x)) = mset (event_work (tpx_events y)) + mset (drop (length (tpx_started x)) (tpx_started y))"
    using js(1) by simp
qed

section \<open>Properties\<close>

abbreviation pool_composed_step ::
  "((nat + 'o) tp_sys, 'j) composed \<Rightarrow> (tid \<times> (nat + 'o) tp_event, tid, 'j) composed_event \<Rightarrow> ((nat + 'o) tp_sys, 'j) composed option"
where
  "pool_composed_step \<equiv> composed_step tp_step tp_execute_wakeup tp_own tp_wakeups_started"

abbreviation qt_composed_step ::
  "int \<Rightarrow> (nat thread_proxy, 'j) composed \<Rightarrow> (nat tpx_event, unit, 'j) composed_event \<Rightarrow> (nat thread_proxy, 'j) composed option"
where
  "qt_composed_step type \<equiv> composed_step tpx_step tpx_execute_wakeup (tpx_own type) tpx_started"

text \<open>A thread drains the queue and the execution of the queue can go on.\<close>

definition oq_drained :: "'j oq_sys \<Rightarrow> bool" where
  "oq_drained s \<longleftrightarrow> (\<exists>t < length (snd s). oq_draining (snd s ! t)) \<and> (\<exists>u < length (snd s). oq_step s (u, OE_step) \<noteq> None)"

lemma composed_queue_properties:
  assumes "reach oq_step oq_no_throw (oq_init label priority n) s" and "oq_pool (fst s) \<noteq> [] \<longleftrightarrow> W"
  shows "oq_accepted (fst s) = oq_started (fst s) @ oq_waiting (m_jobs (fst s))"
    and "m_jobs (fst s) \<noteq> [] \<Longrightarrow> W \<or> oq_drained s"
    and "card {t. t < length (snd s) \<and> oq_draining (snd s ! t)} \<le> 1"
proof -
  obtain q ts where s: "s = (q, ts)" by (cases s)
  note r = assms(1)[unfolded s]
  show "oq_accepted (fst s) = oq_started (fst s) @ oq_waiting (m_jobs (fst s))"
    using oq_executor.in_order[of s] assms(1) by blast
  show "m_jobs (fst s) \<noteq> [] \<Longrightarrow> W \<or> oq_drained s"
    using oq_wakeup_or_drain[OF r] assms(2) by (auto simp: s oq_drained_def simp del: sys_step.simps)
  have "card {t. t < length (snd s) \<and> oq_draining (snd s ! t)} \<le> Suc 0"
    using oq_one_drainer[OF r] by (subst card_le_Suc0_iff_eq) (auto simp: s)
  then show "card {t. t < length (snd s) \<and> oq_draining (snd s ! t)} \<le> 1" by simp
qed

text \<open>
  C8. The serial queues of the naive backend share its global pool, which also executes other operations: in every execution in which no
  operation throws, for any number of queues, each of them executes its jobs first in, first out, and no two threads drain it. While a queue
  has a job, either a thread drains it and can go on, or its wake-up waits in the pool; and as long as the pool is not destroyed and no
  assertion has failed, the pool then has a worker that was created and has not begun, or a thread that serves it and can take its next step.
\<close>

theorem serial_queues_share_pool:
  assumes "reach pool_composed_step composed_no_throw (composed_init (tp_init k clients workers) specs n) ((d, ts), Q)"
    and "1 \<le> k \<and> k \<le> 1073741823" and "i < length Q"
  shows "oq_accepted (fst (Q ! i)) = oq_started (fst (Q ! i)) @ oq_waiting (m_jobs (fst (Q ! i))) \<and>
     card {t. t < length (snd (Q ! i)) \<and> oq_draining (snd (Q ! i) ! t)} \<le> 1 \<and>
     (m_jobs (fst (Q ! i)) \<noteq> [] \<longrightarrow>
        oq_drained (Q ! i) \<or>
        Inl i \<in> set (concat (m_operations d) @ tp_pending_all ts) \<and>
        (\<not> m_cancelled d \<and> \<not> tp_aborted d \<longrightarrow>
           0 < tp_unborn d \<or> (\<exists>t < length ts. tp_serves d (ts ! t) \<and> tp_step (d, ts) (t, TE_step) \<noteq> None)))"
proof -
  have g: "tp_good (tp_init k clients workers :: (nat + 'a) tp_sys)" using assms(2) by blast
  have init: "tp_wakeups_waiting (tp_init k clients workers :: (nat + 'a) tp_sys) = []"
    by (simp add: tp_init_def threadpool_new_def)
  note q = pool.composed_queue[OF assms(1) g init assms(3)]
  obtain k' clients' workers' where k: "1 \<le> k' \<and> k' \<le> 1073741823"
    and r: "reach tp_step (\<lambda>_. True) (tp_init k' clients' workers') (d, ts)" using q(3) by blast
  let ?W = "concat (m_operations d) @ tp_pending_all ts"
  have w: "i \<in> set (tp_wakeups_waiting (d, ts)) \<longleftrightarrow> Inl i \<in> set ?W"
    unfolding tp_wakeups_waiting.simps wakeups_member ..
  have "0 < tp_unborn d \<or> (\<exists>t < length ts. tp_serves d (ts ! t) \<and> tp_step (d, ts) (t, TE_step) \<noteq> None)"
    if "Inl i \<in> set ?W" "\<not> m_cancelled d" "\<not> tp_aborted d"
    using tp_operation_served[OF r k that(2,3)] that(1) by fastforce
  then show ?thesis using composed_queue_properties[OF q(1,2)] unfolding w by blast
qed

text \<open>A client queues a job: the wake-up of queue 0 is handed over to the executor.\<close>

definition composed_demo :: "nat oq_sys" where
  "composed_demo =
     ((serial_queue_new [] UTILITY)\<lparr>oq_refs := 1, m_CS := Some 0, m_jobs := [Some (Job 7)], oq_pool := [UTILITY], oq_accepted := [Job 7]\<rparr>,
      [OQ_unlock (OC_async 7) None])"

lemmas composed_demo_defs = composed_demo_def composed_init_def oq_init_def serial_queue_new_def oq_attach_def operation_queue_new_def
  new_wakeups_def async_unsafe_def notify_unsafe_def

definition pool_demo :: "(nat + nat) tp_sys" where
  "pool_demo = (threadpool_new 1, [E_enqueue (Inl 0) UTILITY K_client, W_unborn])"

lemma pool_demo_reach:
  "reach pool_composed_step composed_no_throw (composed_init (tp_init 1 1 1) [([], UTILITY)] 1)
     ((fst pool_demo, snd pool_demo), [composed_demo])"
  by (rule reach_run[where es = "[CE_queue 0 0 (OE_call (OC_async 7)) 0, CE_queue 0 0 OE_step 0, CE_queue 0 0 OE_step 0]"])
     (simp_all add: composed_demo_defs pool_demo_def tp_init_def tp_local_def threadpool_new_def composed_no_throw_def)

theorem serial_queues_share_pool_witness:
  "\<exists>t < 2. tp_serves (fst pool_demo) (snd pool_demo ! t) \<and> tp_step (fst pool_demo, snd pool_demo) (t, TE_step) \<noteq> None"
proof -
  have "m_jobs (fst composed_demo) \<noteq> []" "\<not> oq_drained composed_demo" "\<not> m_cancelled (fst pool_demo)" "\<not> tp_aborted (fst pool_demo)"
    "tp_unborn (fst pool_demo) = 0" "length (snd pool_demo) = 2"
    by (simp_all add: composed_demo_defs oq_drained_def pool_demo_def threadpool_new_def)
  then show ?thesis using serial_queues_share_pool[OF pool_demo_reach, of 0] by auto
qed

text \<open>
  C9. A serial queue of the Qt backend on the thread of its proxy: in every execution in which no operation throws, with the order of
  events that Qt documents, the queue executes its jobs first in, first out, and no two threads drain it; while it has a job, either a
  thread drains it and can go on, or an event of the proxy with its wake-up waits to be delivered. The events of the queue are
  executed in the order in which they were posted.
\<close>

theorem serial_queue_on_qt_thread:
  assumes "reach (qt_composed_step type) composed_no_throw (composed_init (thread_proxy_new type) [(label, priority)] n) (m, [s])"
  shows "oq_accepted (fst s) = oq_started (fst s) @ oq_waiting (m_jobs (fst s)) \<and>
     card {t. t < length (snd s) \<and> oq_draining (snd s ! t)} \<le> 1 \<and>
     (m_jobs (fst s) \<noteq> [] \<longrightarrow> oq_drained s \<or> Execute_operation_event type 0 \<in> set (tpx_events m)) \<and>
     tpx_submitted m = tpx_started m @ event_work (tpx_events m)"
proof -
  have g: "tpx_ok type (thread_proxy_new type :: nat thread_proxy)" by (simp add: tpx_ok_def thread_proxy_new_def)
  have init: "event_work (tpx_events (thread_proxy_new type :: nat thread_proxy)) = []" by (simp add: thread_proxy_new_def)
  have l: "0 < length [s]" by simp
  note q = qt_thread.composed_queue[OF assms g init l]
  have "0 \<in> set (event_work es) \<Longrightarrow> \<exists>t. Execute_operation_event t 0 \<in> set es" for es :: "nat qt_event list"
    by (induction es rule: event_work.induct) auto
  then have "0 \<in> set (event_work (tpx_events m)) \<Longrightarrow> Execute_operation_event type 0 \<in> set (tpx_events m)"
    using q(3) by (fastforce simp: tpx_ok_def)
  then show ?thesis using composed_queue_properties[OF q(1,2)] q(3) by (auto simp: tpx_ok_def)
qed

theorem serial_queue_on_qt_thread_witness:
  "Execute_operation_event 1001 0 \<in> set (tpx_events (thread_proxy_execute 0 UTILITY (thread_proxy_new 1001) :: nat thread_proxy))"
proof -
  have "reach (qt_composed_step 1001) composed_no_throw (composed_init (thread_proxy_new 1001) [([], UTILITY)] 1)
      (thread_proxy_execute 0 UTILITY (thread_proxy_new 1001), [composed_demo])"
    by (rule reach_run[where es = "[CE_queue 0 0 (OE_call (OC_async 7)) (), CE_queue 0 0 OE_step (), CE_queue 0 0 OE_step ()]"])
       (simp_all add: composed_demo_defs composed_no_throw_def)
  moreover have "m_jobs (fst composed_demo) \<noteq> []" "\<not> oq_drained composed_demo"
    by (simp_all add: composed_demo_defs oq_drained_def)
  ultimately show ?thesis using serial_queue_on_qt_thread by blast
qed

end
