(* ===== verification/Trace.thy ===== *)
theory Trace
  imports Types
begin

text \<open>
  The stream of traces and warnings (\<open>src/trace_utils.h\<close>, \<open>src/trace_utils.cpp\<close>): \<open>trace_stream\<close> locks a mutex in its
  constructor, writes every operand of \<open><<\<close> to \<open>std::cerr\<close>, and ends the line and unlocks in its destructor; \<open>XDISPATCH_TRACE\<close> and
  \<open>XDISPATCH_WARNING\<close> are the two ways to make one. \<open>assert_same_backend\<close> writes its message to \<open>std::cerr\<close> without the mutex.

  \<open>tr_out\<close> is what was written; one \<open><<\<close> is one step. History: \<open>tr_lines\<close> are the operands of the streams that were destroyed,
  \<open>tr_current\<close> those written by the stream that exists.
\<close>

section \<open>The model\<close>

datatype trace_token = Text string | Endl

record trace_output =
  tr_CS :: "tid option"
  tr_out :: "trace_token list"
  tr_lines :: "string list list"
  tr_current :: "string list"

definition trace_output_new :: trace_output where
  "trace_output_new = \<lparr>tr_CS = None, tr_out = [], tr_lines = [], tr_current = []\<rparr>"

definition trace_prefix :: string where "trace_prefix = ''[xdispatch2] ''"

datatype tr_pc =
  TR_idle
| TR_lock "string list"
| TR_write "string list"
| TR_unlock
| TR_raw "trace_token list"

datatype tr_event = TRE_trace "string list" | TRE_warning "string list" | TRE_mixed string | TRE_step

fun tr_exec :: "tid \<Rightarrow> trace_output \<Rightarrow> tr_pc \<Rightarrow> (trace_output \<times> tr_pc) option" where
  "tr_exec t m (TR_lock ops) = (if tr_CS m = None then Some (m\<lparr>tr_CS := Some t\<rparr>, TR_write ops) else None)"
| "tr_exec t m (TR_write ops) =
     (case ops of
        x # rest \<Rightarrow> Some (m\<lparr>tr_out := tr_out m @ [Text x], tr_current := tr_current m @ [x]\<rparr>, TR_write rest)
      | [] \<Rightarrow> Some (m\<lparr>tr_out := tr_out m @ [Endl], tr_lines := tr_lines m @ [tr_current m], tr_current := []\<rparr>, TR_unlock))"
| "tr_exec t m TR_unlock = Some (m\<lparr>tr_CS := None\<rparr>, TR_idle)"
| "tr_exec t m (TR_raw xs) =
     (case xs of [] \<Rightarrow> None | x # rest \<Rightarrow> Some (m\<lparr>tr_out := tr_out m @ [x]\<rparr>, TR_raw rest))"
| "tr_exec t m TR_idle = None"

text \<open>
  The first operand of both macros is the prefix; a trace whose output is not enabled does not make a stream. After the message of
  \<open>assert_same_backend\<close> the failed assertion terminates the process: the thread stays in \<open>TR_raw []\<close>.
\<close>

fun tr_local :: "bool \<Rightarrow> tid \<Rightarrow> tr_event \<Rightarrow> trace_output \<Rightarrow> tr_pc \<Rightarrow> (trace_output \<times> tr_pc) option" where
  "tr_local enabled t (TRE_trace ops) m pc =
     (if pc = TR_idle then Some (m, if enabled then TR_lock (trace_prefix # ops) else TR_idle) else None)"
| "tr_local enabled t (TRE_warning ops) m pc = (if pc = TR_idle then Some (m, TR_lock (trace_prefix # ops)) else None)"
| "tr_local enabled t (TRE_mixed err) m pc =
     (if pc = TR_idle then Some (m, TR_raw [Text trace_prefix, Text err, Endl]) else None)"
| "tr_local enabled t TRE_step m pc = tr_exec t m pc"

type_synonym tr_sys = "(trace_output, tr_pc) sys"

abbreviation tr_step :: "bool \<Rightarrow> tr_sys \<Rightarrow> tid \<times> tr_event \<Rightarrow> tr_sys option" where
  "tr_step enabled \<equiv> sys_step (tr_local enabled)"

definition tr_init :: "nat \<Rightarrow> tr_sys" where
  "tr_init n = (trace_output_new, replicate n TR_idle)"

section \<open>Lemmas\<close>

fun tr_holds :: "tr_pc \<Rightarrow> bool" where
  "tr_holds (TR_write ops) = True"
| "tr_holds TR_unlock = True"
| "tr_holds _ = False"

interpretation tr_mutex: mutex_client "tr_local enabled" tr_CS tr_holds for enabled
proof
  fix t e m pc m' pc'
  assume l: "tr_local enabled t e m pc = Some (m', pc')" and h: "tr_holds pc \<longleftrightarrow> tr_CS m = Some t"
  show "(tr_holds pc' \<longleftrightarrow> tr_CS m' = Some t) \<and>
       (tr_CS m' = tr_CS m \<or> tr_CS m = None \<and> tr_CS m' = Some t \<or> tr_CS m = Some t \<and> tr_CS m' = None)"
    using l h by (cases e; cases pc) (auto split: if_splits list.splits)
qed

definition render :: "string list \<Rightarrow> trace_token list" where
  "render ops = map Text ops @ [Endl]"

text \<open>The operands that a thread which writes has still to write; the current line begins with the prefix.\<close>

fun tr_pc_ok :: "trace_output \<Rightarrow> tr_pc \<Rightarrow> bool" where
  "tr_pc_ok m (TR_lock ops) = (\<exists>xs. ops = trace_prefix # xs)"
| "tr_pc_ok m (TR_write ops) = (\<exists>xs. tr_current m @ ops = trace_prefix # xs)"
| "tr_pc_ok m TR_unlock = (tr_current m = [])"
| "tr_pc_ok m (TR_raw xs) = False"
| "tr_pc_ok m TR_idle = True"

definition tr_inv :: "tr_sys \<Rightarrow> bool" where
  "tr_inv s \<longleftrightarrow>
     tr_mutex.owner_inv s \<and> (\<forall>pc \<in> set (snd s). tr_pc_ok (fst s) pc) \<and> (tr_CS (fst s) = None \<longrightarrow> tr_current (fst s) = []) \<and>
     tr_out (fst s) = concat (map render (tr_lines (fst s))) @ map Text (tr_current (fst s)) \<and>
     (\<forall>ops \<in> set (tr_lines (fst s)). \<exists>xs. ops = trace_prefix # xs)"

definition tr_no_mixed :: "tid \<times> tr_event \<Rightarrow> bool" where
  "tr_no_mixed ev \<longleftrightarrow> (\<forall>err. snd ev \<noteq> TRE_mixed err)"

lemma tr_local_effect:
  assumes "tr_local enabled t e m pc = Some (m', pc')" and "\<forall>err. e \<noteq> TRE_mixed err" and "tr_pc_ok m pc"
    and "tr_out m = concat (map render (tr_lines m)) @ map Text (tr_current m)"
    and "\<forall>ops \<in> set (tr_lines m). \<exists>xs. ops = trace_prefix # xs" and "tr_CS m = None \<longrightarrow> tr_current m = []"
    and "tr_holds pc \<longleftrightarrow> tr_CS m = Some t"
  shows "tr_pc_ok m' pc' \<and> tr_out m' = concat (map render (tr_lines m')) @ map Text (tr_current m') \<and>
    (\<forall>ops \<in> set (tr_lines m'). \<exists>xs. ops = trace_prefix # xs) \<and> (tr_CS m' = None \<longrightarrow> tr_current m' = []) \<and>
    (tr_current m' = tr_current m \<or> tr_holds pc)"
  using assms by (cases e; cases pc) (auto simp: render_def split: if_splits list.splits)

lemma tr_pc_ok_other: "tr_pc_ok m p \<Longrightarrow> tr_current m' = tr_current m \<or> \<not> tr_holds p \<Longrightarrow> tr_pc_ok m' p"
  by (cases p) auto

lemma tr_inv_step:
  assumes "tr_inv s" and "tr_no_mixed ev" and step: "tr_step enabled s ev = Some s'"
  shows "tr_inv s'"
  using step
proof (rule sys_step_Some)
  fix m ts t e m' pc'
  assume *: "s = (m, ts)" "ev = (t, e)" "t < length ts" "tr_local enabled t e m (ts ! t) = Some (m', pc')" "s' = (m', ts[t := pc'])"
  have own: "tr_mutex.owner_inv (m, ts)" and ok: "p \<in> set ts \<Longrightarrow> tr_pc_ok m p" for p using assms(1) * by (auto simp: tr_inv_def)
  have h: "tr_holds (ts ! t) \<longleftrightarrow> tr_CS m = Some t" using own *(3) by (simp add: tr_mutex.owner_inv_def)
  have e: "\<forall>err. e \<noteq> TRE_mixed err" using assms(2) * by (simp add: tr_no_mixed_def)
  have inv: "tr_out m = concat (map render (tr_lines m)) @ map Text (tr_current m)"
    "\<forall>ops \<in> set (tr_lines m). \<exists>xs. ops = trace_prefix # xs" "tr_CS m = None \<longrightarrow> tr_current m = []"
    using assms(1) * by (auto simp: tr_inv_def)
  note l = tr_local_effect[OF *(4) e ok[OF nth_mem[OF *(3)]] inv h]
  have "tr_pc_ok m' p" if "p \<in> set (ts[t := pc'])" for p
    using set_update_cases[OF that]
  proof
    assume "p = pc'"
    then show ?thesis using l by simp
  next
    assume "p \<in> set ts \<and> (\<exists>u < length ts. u \<noteq> t \<and> ts ! u = p)"
    then obtain u where u: "p \<in> set ts" "u < length ts" "u \<noteq> t" "ts ! u = p" by blast
    have "\<not> (tr_holds p \<and> tr_holds (ts ! t))" using tr_mutex.owner_unique[OF own, of u t] u *(3) by auto
    then show ?thesis using l tr_pc_ok_other[OF ok[OF u(1)], of m'] by blast
  qed
  then show ?thesis using l tr_mutex.owner_inv_step[OF _ step] own * by (auto simp: tr_inv_def)
qed

interpretation tr_invariant: step_invariant "tr_step enabled" tr_no_mixed tr_inv for enabled
  by unfold_locales (rule tr_inv_step)

lemma tr_inv_init: "tr_inv (tr_init n)"
  by (auto simp: tr_inv_def tr_init_def trace_output_new_def tr_mutex.owner_inv_def)

section \<open>Properties\<close>

text \<open>
  Lines of traces and warnings are never mixed: whatever the interleaving, the output is the sequence of complete lines, each with the prefix and
  the operands of one statement in their order, followed by the operands that the statement holding the mutex has written so far.
\<close>

theorem trace_lines_are_whole:
  assumes "reach (tr_step enabled) tr_no_mixed (tr_init n) s"
  shows "tr_out (fst s) = concat (map render (tr_lines (fst s))) @ map Text (tr_current (fst s)) \<and>
     {ops \<in> set (tr_lines (fst s)). ops = [] \<or> hd ops \<noteq> trace_prefix} = {}"
  using tr_invariant.reach_inv[OF assms tr_inv_init] by (fastforce simp: tr_inv_def)

definition tr_demo :: tr_sys where
  "tr_demo = (\<lparr>tr_CS = Some 1, tr_out = [Text trace_prefix, Text ''a'', Endl, Text trace_prefix], tr_lines = [[trace_prefix, ''a'']],
     tr_current = [trace_prefix]\<rparr>, [TR_idle, TR_write [''b'']])"

lemma tr_demo_reach: "reach (tr_step True) tr_no_mixed (tr_init 2) tr_demo"
  by (rule reach_run[where es = "[(0, TRE_trace [''a'']), (0, TRE_step), (1, TRE_warning [''b'']), (0, TRE_step), (0, TRE_step), (0, TRE_step),
        (0, TRE_step), (1, TRE_step), (1, TRE_step)]"])
     (simp_all add: tr_demo_def tr_init_def trace_output_new_def numeral_2_eq_2 tr_no_mixed_def)

theorem trace_lines_are_whole_witness: "concat (map render [[trace_prefix, ''a'']]) = [Text trace_prefix, Text ''a'', Endl]"
  using trace_lines_are_whole[OF tr_demo_reach] by (simp add: tr_demo_def)

text \<open>The message of \<open>assert_same_backend\<close> may break into a line, since it is written without the mutex.\<close>

theorem mixed_message_breaks_lines:
  "\<exists>m. reach (tr_step True) (\<lambda>_. True) (tr_init 2) (m, [TR_write [''a''], TR_raw []]) \<and>
     tr_out m = [Text trace_prefix, Text trace_prefix, Text ''e'', Endl]"
proof -
  let ?m = "\<lparr>tr_CS = Some 0, tr_out = [Text trace_prefix, Text trace_prefix, Text ''e'', Endl], tr_lines = [], tr_current = [trace_prefix]\<rparr>"
  have "reach (tr_step True) (\<lambda>_. True) (tr_init 2) (?m, [TR_write [''a''], TR_raw []])"
    by (rule reach_run[where es = "[(0, TRE_trace [''a'']), (0, TRE_step), (0, TRE_step), (1, TRE_mixed ''e''), (1, TRE_step), (1, TRE_step), (1, TRE_step)]"])
       (simp_all add: tr_init_def trace_output_new_def numeral_2_eq_2)
  then show ?thesis by (intro exI[of _ ?m]) simp
qed

end
