(* ===== verification/Spec2Isabelle.thy ===== *)
theory Spec2Isabelle
  imports Semaphore Barrier Cancelable Operation_Queue Consumable Group Threadpool Manual_Thread Timer Socket_Notifier
    Signals Connection Signal_Barrier Waitable_Queue Thread_Utils Libdispatch Backend Operation Pool_Scope Symbols
    Qt_Signals Qt_Executors Serial_Composition Trace
begin

text \<open>
  A verification library for xdispatch2, a C++ library of dispatch queues.

  \<^bold>\<open>The program.\<close> Clients hold values of the public classes \<open>queue\<close>, \<open>group\<close>, \<open>timer\<close>, \<open>socket_notifier\<close>,
  \<open>waitable_queue\<close> and \<open>signal\<close> (\<open>include/xdispatch\<close>). Each forwards to an implementation object that a backend made.
  The naive backend (\<open>src/naive\<close>) is complete: a thread pool with four queues of operations and a counting semaphore executes
  operations; a serial queue is an \<open>operation_queue\<close> that puts a wake-up of itself into the pool (or into the thread of
  the main queue) when its list becomes non-empty, and drains up to ten operations per wake-up; groups, \<open>apply\<close>
  and waits count operations with \<open>consumable\<close>, which completes a \<open>lightweight_barrier\<close>; timers and socket notifiers are loops
  on a pool thread that queue one operation per event and wait for it; \<open>cancelable\<close> is the guard that lets \<open>cancel\<close> and
  \<open>disconnect\<close> wait for a running handler. The libdispatch backend (\<open>src/libdispatch\<close>) forwards to the system library, the Qt
  backend (\<open>src/qt5\<close>) to an event loop and a pool of Qt, both fall back to a base class for the rest.

  \<^bold>\<open>The theories\<close>, from the bottom to the top, each with the code that it models:
  \<^item> \<open>Prelude\<close>: executions (\<open>run\<close>, \<open>reach\<close>), the interleaving of threads (\<open>sys_step\<close>), sums over threads, wrapping of \<open>int\<close>, and the
    locales \<open>step_invariant\<close>, \<open>mutex_client\<close>, \<open>wrapped_counter\<close> and \<open>counting_system\<close> in which invariants are proved once.
  \<^item> \<open>Types\<close>: enumerations, labels and constants (\<open>dispatch_decl.h\<close>, \<open>xdispatch_internal.h\<close>).
  \<^item> \<open>Semaphore\<close> (\<open>naive_semaphore\<close>): every access to the atomics, the mutex and the condition variable is a step. It refines a counter,
    conserves its units and loses no wake-up.
  \<^item> \<open>Barrier\<close> (\<open>lightweight_barrier\<close>, \<open>barrier_operation\<close>): one-shot completion with its list of waiters.
  \<^item> \<open>Cancelable\<close> (\<open>impl/cancelable\<close>): exclusive execution and final \<open>disable\<close>, with the interface \<open>cancelable_client\<close> that timers,
    notifiers and signals instantiate.
  \<^item> \<open>Executor\<close>: the interface \<open>ithreadpool\<close> as its clients rely on it, interpreted by the thread pool, the manual thread, the
    operation queue and the waitable queue.
  \<^item> \<open>Operation_Queue\<close> (\<open>naive_operation_queue\<close>): mutual exclusion, order, wake-ups, unwinding and destruction.
  \<^item> \<open>Consumable\<close> (\<open>naive_consumable\<close>, \<open>naive_operations\<close>) and \<open>Group\<close> (\<open>naive_group\<close>): countdowns, \<open>apply\<close>, and the chain of consumables of
    a group.
  \<^item> \<open>Threadpool\<close> (\<open>naive_threadpool\<close>): \<open>execute\<close>, \<open>schedule\<close>, the loop of a worker and the destructor.
  \<^item> \<open>Manual_Thread\<close> (\<open>naive_manual_thread\<close>, \<open>naive_thread\<close>, \<open>naive_operation_queue_manager\<close>): one thread that runs operations, also
    when one of them throws, and the lifetime of the operation queues.
  \<^item> \<open>Ticks\<close>, \<open>Timer\<close> (\<open>naive_timer\<close>) and \<open>Socket_Notifier\<close> (\<open>naive_socket_notifier\<close>): the loops, and the protocol of one event in flight.
  \<^item> \<open>Signals\<close> (\<open>signals.h\<close>, \<open>signals.cpp\<close>: emit, disconnect, skip_all, concurrently) and \<open>Connection\<close> (the objects that describe connections,
    their ownership and their managers, seen by one thread).
  \<^item> \<open>Signal_Barrier\<close> (\<open>signals_barrier.h\<close>): construction, the handler, \<open>wait\<close>, \<open>values\<close> and destruction, interleaved.
  \<^item> \<open>Waitable_Queue\<close> (\<open>waitable_queue.cpp\<close>): exclusive execution in order, complete waits, and the two ways in which it stops for good.
  \<^item> \<open>Thread_Utils\<close> (\<open>thread_utils.cpp\<close>, \<open>trace_utils.cpp\<close>): priorities, numbers of threads, the environment; \<open>Trace\<close>
    (\<open>trace_utils.h\<close>): the lines of traces and warnings of many threads.
  \<^item> \<open>Libdispatch\<close> (\<open>src/libdispatch\<close>): the methods as sequences of calls to the system library.
  \<^item> \<open>Backend\<close> (\<open>backend.cpp\<close> and the public classes; the factories of all backends): selection, fallbacks, checks and forwarding.
  \<^item> \<open>Operation\<close> (\<open>operation.h\<close>, the templates of \<open>queue.h\<close>, \<open>group.h\<close>, \<open>timer.h\<close>, \<open>socket_notifier.h\<close>): the operations that wrap
    callables, on top of \<open>Backend\<close>; \<open>Symbols\<close> (\<open>symbol_utils.h\<close>): how the entry point of a backend is found.
  \<^item> \<open>Pool_Scope\<close> (\<open>run_with_threadpool\<close> and \<open>block_scope\<close>): the current pool of a thread and the notifications of the pools.
  \<^item> \<open>Qt_Signals\<close> (\<open>qt5_signals\<close>, \<open>backend_qt.h\<close>): connections tied to the lifetime of an object, on top of \<open>Connection\<close>;
    \<open>Qt_Executors\<close> (\<open>qt5_serial_queue.cpp\<close>, \<open>qt5_threadpool.cpp\<close>): the proxies of a thread and a pool of Qt, which are executors.
  \<^item> \<open>Serial_Composition\<close> (\<open>naive_serial_queue.cpp\<close>, \<open>qt5_serial_queue.cpp\<close>): operation queues and the executor that starts their
    wake-ups, with the interface \<open>wakeup_executor\<close>: any number of serial queues on the global pool of the naive backend, and a queue of the
    Qt backend on the proxy of its own; the properties of a single queue hold for each of them.

  \<^bold>\<open>How state and operations correspond to the code.\<close> In the concurrent components the members of a class are a record, with the
  source's names where they are free (\<open>m_jobs\<close>, \<open>m_active\<close>, \<dots>) and a prefix of the component otherwise; the local state of a thread, with
  the place it has reached, is a \<open>datatype\<close> of program counters. The function \<open>*_exec\<close> gives the next step of a thread, \<open>*_local\<close>
  adds the calls that clients make and the choices of the environment (timeouts, spurious wake-ups, spurious failures of weak
  exchanges, which thread is notified). One step makes one access to an atomic variable, or one passage through a mutex or a
  condition variable; code executed with a mutex held may take one step for several accesses to the members it protects.
  Fields that exist for the statements only (what was submitted, started, finished) are named in each theory. Failed assertions
  and uncaught exceptions are states of their own. The sequential components are functions whose errors are values.

  \<^bold>\<open>What the lemmas show.\<close> Invariants over all reachable states, for any number of threads, are proved by counting: each thread
  contributes a weight, and the shared fields are related to the sums. From them follow the safety properties (order, mutual
  exclusion, exactly once, no use after destruction). Progress is stated as the absence of stranded work: whenever something is to
  be done, some thread is responsible and its next step is enabled, or a bounded number of steps of one thread reaches its goal.
  Where the code does not keep what it promises, an execution is exhibited.

  \<^bold>\<open>Bounds and fuel.\<close> No definition takes fuel; loops are steps of the transition systems, or recursions over lists. Counters of
  type \<open>int\<close> are integers with \<open>wrap32\<close> where a theorem is about their range; those that count threads or pending invocations of a
  running process (in \<open>Threadpool\<close>, \<open>Signals\<close>, \<open>Timer\<close> and \<open>Socket_Notifier\<close>) have no bound, each theory says why. Conversions
  of times and numbers of threads are on words. The number of processors is assumed to be below \<open>2 ^ 30\<close>; \<open>Thread_Utils\<close> shows what
  happens above.

  \<^bold>\<open>Exceptions and careful clients.\<close> An exception that leaves an operation is an event of \<open>Operation_Queue\<close>, \<open>Manual_Thread\<close>, \<open>Waitable_Queue\<close>
  and \<open>Pool_Scope\<close>. The properties of order and progress of the first three are for executions without it (\<open>*_no_throw\<close>), as the
  code does not keep them otherwise; theorems about throwing operations stand beside them. \<open>Connection\<close> and \<open>Qt_Signals\<close> are for clients that
  destroy a signal when none of its invocations is queued, with the execution that goes wrong for others beside them.

  \<^bold>\<open>Not modelled.\<close> The vendored lock-free queue (lists whose \<open>try_dequeue\<close> may miss stand for it); memory orders weaker than sequential
  consistency; the passing of time (only its order of events and the conversion of durations); the system
  library, its loader and Qt (arguments, recorded calls or named hypotheses); the reference counts of operation objects; the pause instruction of a spinning thread
  (\<open>cpu_relax\<close>, which has no effect); tests, examples, build files and the headers that only declare or configure.
\<close>

section \<open>Global queues and the buckets of the thread pool\<close>

text \<open>
  The label of a global queue is the label of the bucket that its operations go to, and two priorities share a global
  queue exactly if they share a bucket.
\<close>

lemma global_label_is_bucket_label: "global_label p = s_bucket_labels ! nat (bucket_of p)"
  by (cases p) (simp_all add: global_label_def s_bucket_labels_def)

lemma global_queues_are_buckets: "global_label p = global_label q \<longleftrightarrow> bucket_of p = bucket_of q"
  unfolding global_label_eq by (cases p; cases q) auto

end
